(* ===== verification/AFL_Prelude.thy ===== *)
theory AFL_Prelude
  imports Main "HOL-Library.Word"
begin

text \<open>
  Shared vocabulary of the development.

  \<^item> Machine types: bytes and the 16/32/64-bit unsigned types of \<open>include/types.h\<close> are words;
    32-bit lengths, offsets and loop counters are naturals, and every C operation on them that
    can wrap is written with \<open>u32_add\<close> or \<open>u32_sub\<close>.
  \<^item> Computations: C code that draws random numbers, touches memory or may not return is a value
    of type \<open>('s, 'a) comp\<close>: \<open>None\<close> is a run that never returns, \<open>Some (Inl e)\<close> a run that
    ends in the fault \<open>e\<close>, and \<open>Some (Inr (x, s))\<close> a normal return.
  \<^item> Memory: a C buffer is the byte list of its whole allocation. Reads, writes, \<open>memcpy\<close>,
    \<open>memmove\<close> and \<open>memset\<close> check the bounds of the allocation and fault outside it, so
    the absence of faults is memory safety.
  \<^item> \<open>sound m Q\<close>: whatever the state, \<open>m\<close> never performs an invalid operation, and every value
    it returns satisfies \<open>Q\<close>. The rules in the collection \<open>sound_rules\<close> are its calculus.
\<close>

unbundle bit_operations_syntax

type_synonym u8 = "8 word"
type_synonym u16 = "16 word"
type_synonym u32 = "32 word"
type_synonym u64 = "64 word"
type_synonym bytes = "u8 list"

named_theorems wrap_simps \<open>wrap-around arithmetic that does not wrap\<close>
named_theorems sound_rules \<open>rules of the soundness calculus\<close>
named_theorems returns_rules \<open>rules for computations that return\<close>
named_theorems mem_simps \<open>successful memory operations\<close>

section \<open>Wrap-around arithmetic on 32-bit lengths and offsets\<close>

definition u32_add :: "nat \<Rightarrow> nat \<Rightarrow> nat" where
  "u32_add a b = (a + b) mod 2 ^ 32"

definition u32_sub :: "nat \<Rightarrow> nat \<Rightarrow> nat" where
  "u32_sub a b = (a + 2 ^ 32 - b) mod 2 ^ 32"

lemma u32_add_exact [wrap_simps]: "a + b < 2 ^ 32 \<Longrightarrow> u32_add a b = a + b"
  by (simp add: u32_add_def)

lemma u32_sub_exact [wrap_simps]:
  assumes "b \<le> a" and "a < 2 ^ 32"
  shows "u32_sub a b = a - b"
proof -
  have "u32_sub a b = ((a - b) + 2 ^ 32) mod 2 ^ 32"
    using assms(1) by (simp only: u32_sub_def diff_add_assoc2)
  also have "\<dots> = (a - b) mod 2 ^ 32"
    by (rule mod_add_self2)
  also have "\<dots> = a - b"
    using assms(2) by (intro mod_less) (rule le_less_trans [OF diff_le_self])
  finally show ?thesis .
qed

lemma u32_add_less: "u32_add a b < 2 ^ 32"
  by (simp add: u32_add_def)

lemma u32_sub_less: "u32_sub a b < 2 ^ 32"
  by (simp add: u32_sub_def)

section \<open>Computations with faults, state and divergence\<close>

text \<open>
  \<open>Out_of_bounds\<close> is an access outside an allocation, \<open>Overlap\<close> a \<open>memcpy\<close> between overlapping
  regions, \<open>Signed_overflow\<close> a signed C operation whose result does not fit its type; all three
  are undefined behaviour. \<open>Fatal\<close> is a controlled abort (\<open>FATAL\<close> or \<open>PFATAL\<close> of
  \<open>include/debug.h\<close>).
\<close>

datatype fault = Out_of_bounds | Overlap | Signed_overflow | Fatal

type_synonym ('s, 'a) comp = "'s \<Rightarrow> (fault + 'a \<times> 's) option"

definition ret :: "'a \<Rightarrow> ('s, 'a) comp" where
  "ret x s = Some (Inr (x, s))"

definition bnd :: "('s, 'a) comp \<Rightarrow> ('a \<Rightarrow> ('s, 'b) comp) \<Rightarrow> ('s, 'b) comp" where
  "bnd m f s = (case m s of
       None \<Rightarrow> None
     | Some (Inl e) \<Rightarrow> Some (Inl e)
     | Some (Inr (x, s')) \<Rightarrow> f x s')"

text \<open>A pure operation that may fault, run as a computation.\<close>

definition chk :: "fault + 'a \<Rightarrow> ('s, 'a) comp" where
  "chk r s = (case r of Inl e \<Rightarrow> Some (Inl e) | Inr x \<Rightarrow> Some (Inr (x, s)))"

text \<open>Sequencing of pure operations that may fault.\<close>

definition fbind :: "fault + 'a \<Rightarrow> ('a \<Rightarrow> fault + 'b) \<Rightarrow> fault + 'b" where
  "fbind r f = (case r of Inl e \<Rightarrow> Inl e | Inr x \<Rightarrow> f x)"

lemma fbind_simps [simp]: "fbind (Inl e) f = Inl e" "fbind (Inr x) f = f x"
  by (simp_all add: fbind_def)

lemma bnd_ret [simp]: "bnd (ret x) f = f x"
  by (simp add: bnd_def ret_def fun_eq_iff)

lemma bnd_chk_Inr [simp]: "bnd (chk (Inr x)) f = f x"
  by (simp add: bnd_def chk_def fun_eq_iff)

lemma bnd_assoc: "bnd (bnd m f) g = bnd m (\<lambda>x. bnd (f x) g)"
  by (auto simp: bnd_def fun_eq_iff split: option.splits sum.splits prod.splits)

lemma bnd_mono [partial_function_mono]:
  assumes "\<And>s. mono_option (\<lambda>f. m f s)" and "\<And>x s. mono_option (\<lambda>f. k f x s)"
  shows "mono_option (\<lambda>f. bnd (m f) (k f) s)"
proof -
  have eq: "(\<lambda>f. bnd (m f) (k f) s) =
        (\<lambda>f. Option.bind (m f s)
          (\<lambda>r. case r of Inl e \<Rightarrow> Some (Inl e) | Inr (x, s') \<Rightarrow> k f x s'))"
    by (rule ext) (simp add: bnd_def split: option.split)
  have branch: "mono_option (\<lambda>f. case r of Inl e \<Rightarrow> Some (Inl e) | Inr (x, s') \<Rightarrow> k f x s')" for r
    by (cases r) (auto simp: assms(2) split_beta intro: option.const_mono)
  show ?thesis
    unfolding eq by (rule bind_mono [OF assms(1) branch])
qed

section \<open>Memory\<close>

definition load :: "'a list \<Rightarrow> nat \<Rightarrow> fault + 'a" where
  "load buf i = (if i < length buf then Inr (buf ! i) else Inl Out_of_bounds)"

definition store :: "'a list \<Rightarrow> nat \<Rightarrow> 'a \<Rightarrow> fault + 'a list" where
  "store buf i x = (if i < length buf then Inr (buf[i := x]) else Inl Out_of_bounds)"

text \<open>\<open>memset (buf + d, x, n)\<close>\<close>

definition memset :: "'a list \<Rightarrow> nat \<Rightarrow> 'a \<Rightarrow> nat \<Rightarrow> fault + 'a list" where
  "memset buf d x n =
     (if d + n \<le> length buf then Inr (take d buf @ replicate n x @ drop (d + n) buf)
      else Inl Out_of_bounds)"

text \<open>\<open>memcpy (dst + d, src + s, n)\<close> between two different allocations\<close>

definition memcpy :: "'a list \<Rightarrow> nat \<Rightarrow> 'a list \<Rightarrow> nat \<Rightarrow> nat \<Rightarrow> fault + 'a list" where
  "memcpy dst d src s n =
     (if d + n \<le> length dst \<and> s + n \<le> length src
      then Inr (take d dst @ take n (drop s src) @ drop (d + n) dst)
      else Inl Out_of_bounds)"

text \<open>\<open>memmove (buf + d, buf + s, n)\<close> inside one allocation; the regions may overlap\<close>

definition memmove :: "'a list \<Rightarrow> nat \<Rightarrow> nat \<Rightarrow> nat \<Rightarrow> fault + 'a list" where
  "memmove buf d s n = memcpy buf d buf s n"

text \<open>\<open>memcpy (buf + d, buf + s, n)\<close> inside one allocation; overlapping regions are a fault\<close>

definition memcpy_in :: "'a list \<Rightarrow> nat \<Rightarrow> nat \<Rightarrow> nat \<Rightarrow> fault + 'a list" where
  "memcpy_in buf d s n =
     (if n = 0 \<or> d + n \<le> s \<or> s + n \<le> d then memcpy buf d buf s n else Inl Overlap)"

lemma load_ok [mem_simps]: "i < length buf \<Longrightarrow> load buf i = Inr (buf ! i)"
  by (simp add: load_def)

lemma store_ok [mem_simps]: "i < length buf \<Longrightarrow> store buf i x = Inr (buf[i := x])"
  by (simp add: store_def)

section \<open>Regions of byte strings\<close>

text \<open>
  The abstract edits behind the memory operations: reading \<open>n\<close> elements at \<open>i\<close>, overwriting,
  inserting and deleting.
\<close>

definition region :: "'a list \<Rightarrow> nat \<Rightarrow> nat \<Rightarrow> 'a list" where
  "region xs i n = take n (drop i xs)"

definition put :: "'a list \<Rightarrow> nat \<Rightarrow> 'a list \<Rightarrow> 'a list" where
  "put xs i bs = take i xs @ bs @ drop (i + length bs) xs"

definition insert_at :: "'a list \<Rightarrow> nat \<Rightarrow> 'a list \<Rightarrow> 'a list" where
  "insert_at xs i bs = take i xs @ bs @ drop i xs"

definition delete_at :: "'a list \<Rightarrow> nat \<Rightarrow> nat \<Rightarrow> 'a list" where
  "delete_at xs i n = take i xs @ drop (i + n) xs"

lemma length_region [simp]: "i + n \<le> length xs \<Longrightarrow> length (region xs i n) = n"
  by (simp add: region_def)

lemma length_put [simp]: "i + length bs \<le> length xs \<Longrightarrow> length (put xs i bs) = length xs"
  by (simp add: put_def)

lemma length_insert_at [simp]: "length (insert_at xs i bs) = length xs + length bs"
  by (simp add: insert_at_def)

lemma length_delete_at [simp]: "i + n \<le> length xs \<Longrightarrow> length (delete_at xs i n) = length xs - n"
  by (simp add: delete_at_def)

lemma region_take: "i + n \<le> m \<Longrightarrow> region (take m xs) i n = region xs i n"
  by (simp add: region_def drop_take min_def)

lemma put_region_same: "i + n \<le> length xs \<Longrightarrow> put xs i (region xs i n) = xs"
  by (simp add: put_def) (metis append_assoc append_take_drop_id region_def take_add)

lemma put_prefix: "length bs \<le> length xs \<Longrightarrow> put xs 0 bs = bs @ drop (length bs) xs"
  by (simp add: put_def)

lemma nth_put:
  assumes "i + length bs \<le> length xs" and "k < length xs"
  shows "put xs i bs ! k = (if i \<le> k \<and> k < i + length bs then bs ! (k - i) else xs ! k)"
  using assms by (auto simp: put_def nth_append min_def)

lemma take_put:
  assumes "i + length bs \<le> m" and "i + length bs \<le> length xs"
  shows "take m (put xs i bs) = put (take m xs) i bs"
  using assms by (intro nth_equalityI) (auto simp: nth_put)

lemma nth_region: "i + n \<le> length xs \<Longrightarrow> k < n \<Longrightarrow> region xs i n ! k = xs ! (i + k)"
  by (simp add: region_def)

lemma memset_put [mem_simps]:
  "d + n \<le> length buf \<Longrightarrow> memset buf d x n = Inr (put buf d (replicate n x))"
  by (simp add: memset_def put_def)

lemma memcpy_put [mem_simps]:
  "d + n \<le> length dst \<Longrightarrow> s + n \<le> length src \<Longrightarrow>
   memcpy dst d src s n = Inr (put dst d (region src s n))"
  by (simp add: memcpy_def put_def region_def)

lemma memmove_put [mem_simps]:
  "d + n \<le> length buf \<Longrightarrow> s + n \<le> length buf \<Longrightarrow>
   memmove buf d s n = Inr (put buf d (region buf s n))"
  by (simp add: memmove_def memcpy_put)

lemma memcpy_in_put [mem_simps]:
  "d + n \<le> length buf \<Longrightarrow> s + n \<le> length buf \<Longrightarrow> n = 0 \<or> d + n \<le> s \<or> s + n \<le> d \<Longrightarrow>
   memcpy_in buf d s n = Inr (put buf d (region buf s n))"
  by (simp add: memcpy_in_def memcpy_put)

section \<open>The soundness calculus\<close>

definition sound :: "('s, 'a) comp \<Rightarrow> ('a \<Rightarrow> bool) \<Rightarrow> bool" where
  "sound m Q \<longleftrightarrow> (\<forall>s. case m s of
       None \<Rightarrow> True
     | Some (Inl e) \<Rightarrow> e = Fatal
     | Some (Inr (x, s')) \<Rightarrow> Q x)"

lemma sound_ret [sound_rules]: "Q x \<Longrightarrow> sound (ret x) Q"
  by (simp add: sound_def ret_def)

lemma sound_bnd:
  assumes "sound m P" and "\<And>x. P x \<Longrightarrow> sound (f x) Q"
  shows "sound (bnd m f) Q"
proof -
  have "case bnd m f s of None \<Rightarrow> True | Some (Inl e) \<Rightarrow> e = Fatal | Some (Inr (x, s')) \<Rightarrow> Q x" for s
    using assms unfolding sound_def bnd_def
    by (cases "m s") (auto split: sum.splits dest: spec [of _ s] spec)
  then show ?thesis by (simp add: sound_def)
qed

lemma sound_weaken: "sound m P \<Longrightarrow> (\<And>x. P x \<Longrightarrow> Q x) \<Longrightarrow> sound m Q"
  unfolding sound_def by (fastforce split: option.splits sum.splits)

lemma sound_if [sound_rules]:
  "(b \<Longrightarrow> sound m Q) \<Longrightarrow> (\<not> b \<Longrightarrow> sound m' Q) \<Longrightarrow> sound (if b then m else m') Q"
  by simp

lemma sound_Let [sound_rules]: "(\<And>x. x = a \<Longrightarrow> sound (f x) Q) \<Longrightarrow> sound (let x = a in f x) Q"
  by simp

lemma sound_chk: "r = Inr x \<Longrightarrow> Q x \<Longrightarrow> sound (chk r) Q"
  by (simp add: sound_def chk_def)

lemma sound_Fatal [sound_rules]: "sound (chk (Inl Fatal)) Q"
  by (simp add: sound_def chk_def)

lemma sound_bnd_chk: "r = Inr x \<Longrightarrow> sound (f x) Q \<Longrightarrow> sound (bnd (chk r) f) Q"
  by simp

lemma sound_result: "sound m Q \<Longrightarrow> m s = Some (Inr (x, s')) \<Longrightarrow> Q x"
  by (auto simp: sound_def dest: spec [of _ s])

lemma sound_no_fault: "sound m Q \<Longrightarrow> m s = Some (Inl e) \<Longrightarrow> e = Fatal"
  by (auto simp: sound_def dest: spec [of _ s])

text \<open>
  A computation defined by \<open>partial_function\<close> is sound when every result it returns is a
  good one; this is the shape its induction rule produces.
\<close>

definition good_result :: "('a \<Rightarrow> bool) \<Rightarrow> fault + 'a \<times> 's \<Rightarrow> bool" where
  "good_result Q r = (case r of Inl e \<Rightarrow> e = Fatal | Inr (x, s') \<Rightarrow> Q x)"

lemma soundI_result: "(\<And>s r. m s = Some r \<Longrightarrow> good_result Q r) \<Longrightarrow> sound m Q"
  by (auto simp: sound_def good_result_def split: option.splits)

lemma sound_good: "sound m Q \<Longrightarrow> m s = Some r \<Longrightarrow> good_result Q r"
  by (auto simp: sound_def good_result_def dest: spec [of _ s])

text \<open>
  \<open>returns G m\<close>: from a state in \<open>G\<close> the computation comes back, and a normal return is again in
  \<open>G\<close>.
\<close>

definition returns :: "('s \<Rightarrow> bool) \<Rightarrow> ('s, 'a) comp \<Rightarrow> bool" where
  "returns G m \<longleftrightarrow> (\<forall>s. G s \<longrightarrow> (\<exists>r. m s = Some r \<and> (case r of Inl e \<Rightarrow> True | Inr (x, s') \<Rightarrow> G s')))"

lemma returns_ret [returns_rules]: "returns G (ret x)"
  by (simp add: returns_def ret_def)

lemma returns_chk [returns_rules]: "returns G (chk r)"
  by (auto simp: returns_def chk_def split: sum.splits)

lemma returns_if [returns_rules]:
  "returns G m \<Longrightarrow> returns G m' \<Longrightarrow> returns G (if b then m else m')"
  by simp

lemma returns_Let [returns_rules]: "(\<And>x. returns G (f x)) \<Longrightarrow> returns G (let x = a in f x)"
  by simp

lemma returns_case_prod [returns_rules]:
  "(\<And>x y. returns G (f x y)) \<Longrightarrow> returns G (case p of (x, y) \<Rightarrow> f x y)"
  by (cases p) simp

lemma returns_case_option [returns_rules]:
  "returns G m \<Longrightarrow> (\<And>x. returns G (f x)) \<Longrightarrow> returns G (case a of None \<Rightarrow> m | Some x \<Rightarrow> f x)"
  by (cases a) simp_all

lemma returns_bnd [returns_rules]:
  assumes "returns G m" and "\<And>x. returns G (f x)"
  shows "returns G (bnd m f)"
  unfolding returns_def
proof (intro allI impI)
  fix s assume "G s"
  with assms(1) obtain r where r: "m s = Some r" "case r of Inl e \<Rightarrow> True | Inr (x, s') \<Rightarrow> G s'"
    unfolding returns_def by blast
  then show "\<exists>r. bnd m f s = Some r \<and> (case r of Inl e \<Rightarrow> True | Inr (x, s') \<Rightarrow> G s')"
    using assms(2) unfolding returns_def bnd_def by (cases r) auto
qed

text \<open>
  The interface of a source of bounded random numbers, as the mutators use it: a draw below
  \<open>n\<close> never faults and is smaller than \<open>n\<close>, and it is \<open>0\<close> when \<open>n\<close> is \<open>0\<close>.
\<close>

locale bounded_source =
  fixes draw :: "nat \<Rightarrow> ('s, nat) comp"
  assumes draw_sound: "sound (draw n) (\<lambda>v. v < max 1 n)"
begin

lemma sound_draw:
  assumes "\<And>v. v < max 1 n \<Longrightarrow> sound (f v) Q"
  shows "sound (bnd (draw n) f) Q"
  using draw_sound assms by (rule sound_bnd)

lemma sound_draw_pos:
  assumes "0 < n" and "\<And>v. v < n \<Longrightarrow> sound (f v) Q"
  shows "sound (bnd (draw n) f) Q"
  using assms by (intro sound_draw) (simp add: max_def split: if_splits)

lemma draw_below: "0 < n \<Longrightarrow> draw n s = Some (Inr (v, s')) \<Longrightarrow> v < n"
  using sound_result [OF draw_sound, of n s v s'] by (simp add: max_def split: if_splits)

end

section \<open>Little-endian words in memory\<close>

fun le_word :: "bytes \<Rightarrow> 'a::len word" where
  "le_word [] = 0"
| "le_word (b # bs) = ucast b OR push_bit 8 (le_word bs)"

definition le_bytes :: "nat \<Rightarrow> 'a::len word \<Rightarrow> bytes" where
  "le_bytes n w = map (\<lambda>i. ucast (drop_bit (8 * i) w)) [0..<n]"

lemma length_le_bytes [simp]: "length (le_bytes n w) = n"
  by (simp add: le_bytes_def)

lemma nth_le_bytes [simp]: "i < n \<Longrightarrow> le_bytes n w ! i = ucast (drop_bit (8 * i) w)"
  by (simp add: le_bytes_def)

lemma bit_le_word:
  "bit (le_word bs :: 'a::len word) n \<longleftrightarrow>
     n < LENGTH('a) \<and> n div 8 < length bs \<and> bit (bs ! (n div 8)) (n mod 8)"
proof (induction bs arbitrary: n)
  case Nil
  then show ?case by simp
next
  case (Cons b bs)
  show ?case
  proof (cases "n < 8")
    case True
    then show ?thesis by (auto simp: bit_or_iff bit_ucast_iff bit_push_bit_iff)
  next
    case False
    then have "n div 8 = Suc ((n - 8) div 8)" and "n mod 8 = (n - 8) mod 8"
      by (simp_all add: le_div_geq le_mod_geq)
    moreover have "\<not> bit b n" using False by (auto dest: bit_imp_le_length)
    ultimately show ?thesis
      using False Cons.IH [of "n - 8"]
      by (auto simp: bit_or_iff bit_ucast_iff bit_push_bit_iff)
  qed
qed

lemma le_bytes_le_word:
  assumes "length bs = n" and "8 * n \<le> LENGTH('a::len)"
  shows "le_bytes n (le_word bs :: 'a word) = bs"
proof (rule nth_equalityI)
  fix i assume "i < length (le_bytes n (le_word bs :: 'a word))"
  then have i: "i < n" by simp
  show "le_bytes n (le_word bs :: 'a word) ! i = bs ! i"
  proof (rule bit_word_eqI)
    fix k assume k: "k < LENGTH(8)"
    have "8 * i + k < LENGTH('a)" using assms(2) i k by simp
    then show "bit (le_bytes n (le_word bs :: 'a word) ! i) k = bit (bs ! i) k"
      using i k assms(1) by (simp add: bit_ucast_iff bit_drop_bit_eq bit_le_word)
  qed
qed (simp add: assms(1))

lemma le_word_le_bytes:
  assumes "LENGTH('a::len) \<le> 8 * n"
  shows "le_word (le_bytes n w) = (w :: 'a word)"
proof (rule bit_word_eqI)
  fix k assume k: "k < LENGTH('a)"
  then have "k div 8 < n" using assms by linarith
  with k show "bit (le_word (le_bytes n w) :: 'a word) k = bit w k"
    by (simp add: bit_le_word bit_ucast_iff bit_drop_bit_eq)
qed

end
