(* ===== verification/AFL_Types.thy ===== *)
theory AFL_Types
  imports AFL_Prelude
begin

text \<open>
  The macros of \<open>include/types.h\<close> and the constants of \<open>include/config.h\<close> the fuzzer's core
  uses: byte swaps, unaligned loads and stores, the map size field of the fork server handshake,
  and the tables of interesting integers.
\<close>

section \<open>Byte swaps\<close>

definition SWAP16 :: "u16 \<Rightarrow> u16" where
  "SWAP16 x = push_bit 8 x OR drop_bit 8 x"

definition SWAP32 :: "u32 \<Rightarrow> u32" where
  "SWAP32 x = push_bit 24 x OR drop_bit 24 x OR (push_bit 8 x AND 0x00FF0000)
     OR (drop_bit 8 x AND 0x0000FF00)"

definition SWAP64 :: "u64 \<Rightarrow> u64" where
  "SWAP64 x =
     (let r1 = push_bit 32 (x AND 0x00000000FFFFFFFF) OR drop_bit 32 (x AND 0xFFFFFFFF00000000);
          r2 = push_bit 16 (r1 AND 0x0000FFFF0000FFFF) OR drop_bit 16 (r1 AND 0xFFFF0000FFFF0000)
      in push_bit 8 (r2 AND 0x00FF00FF00FF00FF) OR drop_bit 8 (r2 AND 0xFF00FF00FF00FF00))"

section \<open>Unaligned little-endian access\<close>

definition EXTRACT16 :: "bytes \<Rightarrow> nat \<Rightarrow> fault + u16" where
  "EXTRACT16 buf off =
     fbind (load buf (off + 1)) (\<lambda>s1.
     fbind (load buf off) (\<lambda>s0.
     Inr (push_bit 8 (ucast s1) OR ucast s0)))"

definition EXTRACT32 :: "bytes \<Rightarrow> nat \<Rightarrow> fault + u32" where
  "EXTRACT32 buf off =
     fbind (load buf (off + 3)) (\<lambda>s3.
     fbind (load buf (off + 2)) (\<lambda>s2.
     fbind (load buf (off + 1)) (\<lambda>s1.
     fbind (load buf off) (\<lambda>s0.
     Inr (push_bit 8 (push_bit 8 (push_bit 8 (ucast s3) OR ucast s2) OR ucast s1) OR ucast s0)))))"

definition INSERT16 :: "bytes \<Rightarrow> nat \<Rightarrow> u16 \<Rightarrow> fault + bytes" where
  "INSERT16 buf off x =
     fbind (store buf off (ucast (x AND 0xFF))) (\<lambda>buf.
     store buf (off + 1) (ucast (drop_bit 8 x AND 0xFF)))"

definition INSERT32 :: "bytes \<Rightarrow> nat \<Rightarrow> u32 \<Rightarrow> fault + bytes" where
  "INSERT32 buf off x =
     fbind (store buf off (ucast (x AND 0xFF))) (\<lambda>buf.
     fbind (store buf (off + 1) (ucast (drop_bit 8 x AND 0xFF))) (\<lambda>buf.
     fbind (store buf (off + 2) (ucast (drop_bit 8 (drop_bit 8 x) AND 0xFF))) (\<lambda>buf.
     store buf (off + 3) (ucast (drop_bit 8 (drop_bit 8 (drop_bit 8 x)) AND 0xFF)))))"

section \<open>The map size in the fork server status word\<close>

definition FS_OPT_ENABLED :: u32 where "FS_OPT_ENABLED = 0x80000001"
definition FS_OPT_MAPSIZE :: u32 where "FS_OPT_MAPSIZE = 0x40000000"

definition FS_OPT_MAX_MAPSIZE :: u32 where
  "FS_OPT_MAX_MAPSIZE = drop_bit 1 0x00fffffe + 1"

definition FS_OPT_GET_MAPSIZE :: "u32 \<Rightarrow> u32" where
  "FS_OPT_GET_MAPSIZE x = drop_bit 1 (x AND 0x00fffffe) + 1"

definition FS_OPT_SET_MAPSIZE :: "u32 \<Rightarrow> u32" where
  "FS_OPT_SET_MAPSIZE x =
     (if x \<le> 1 \<or> x > FS_OPT_MAX_MAPSIZE then 0 else push_bit 1 (x - 1))"

definition FS_OPT_GET_ERROR :: "u32 \<Rightarrow> u32" where
  "FS_OPT_GET_ERROR x = drop_bit 8 (x AND 0x00ffff00)"

definition FS_OPT_SET_ERROR :: "u32 \<Rightarrow> u32" where
  "FS_OPT_SET_ERROR x = push_bit 8 (x AND 0x0000ffff)"

section \<open>Constants\<close>

definition INTERESTING_8 :: "int list" where
  "INTERESTING_8 = [-128, -1, 0, 1, 16, 32, 64, 100, 127]"

definition INTERESTING_16 :: "int list" where
  "INTERESTING_16 = [-32768, -129, 128, 255, 256, 512, 1000, 1024, 4096, 32767]"

definition INTERESTING_32 :: "int list" where
  "INTERESTING_32 =
     [-2147483648, -100663046, -32769, 32768, 65535, 65536, 100663045, 2139095040, 2147483647]"

definition interesting_8 :: "int list" where
  "interesting_8 = INTERESTING_8"

definition interesting_16 :: "int list" where
  "interesting_16 = INTERESTING_8 @ INTERESTING_16"

definition interesting_32 :: "int list" where
  "interesting_32 = INTERESTING_8 @ INTERESTING_16 @ INTERESTING_32"

definition MAX_FILE :: nat where "MAX_FILE = 1 * 1024 * 1024"

definition HAVOC_BLK_SMALL :: nat where "HAVOC_BLK_SMALL = 32"
definition HAVOC_BLK_MEDIUM :: nat where "HAVOC_BLK_MEDIUM = 128"
definition HAVOC_BLK_LARGE :: nat where "HAVOC_BLK_LARGE = 1500"
definition HAVOC_BLK_XL :: nat where "HAVOC_BLK_XL = 32768"
definition ARITH_MAX :: nat where "ARITH_MAX = 35"
definition RESEED_RNG :: nat where "RESEED_RNG = 2500000"

lemmas havoc_consts =
  HAVOC_BLK_SMALL_def HAVOC_BLK_MEDIUM_def HAVOC_BLK_LARGE_def HAVOC_BLK_XL_def ARITH_MAX_def

section \<open>Lemmas\<close>

subsection \<open>Loads and stores\<close>

lemma EXTRACT16_ok:
  "off + 1 < length buf \<Longrightarrow> EXTRACT16 buf off = Inr (le_word [buf ! off, buf ! (off + 1)])"
  by (simp add: EXTRACT16_def load_def ac_simps)

lemma EXTRACT32_ok:
  "off + 3 < length buf \<Longrightarrow>
   EXTRACT32 buf off = Inr (le_word [buf ! off, buf ! (off + 1), buf ! (off + 2), buf ! (off + 3)])"
  by (simp add: EXTRACT32_def load_def ac_simps)

lemma ucast_and_byte: "(ucast (x AND 0xFF) :: u8) = ucast (x :: 'a::len word)"
proof (rule bit_word_eqI)
  fix k assume "k < LENGTH(8)"
  then have "bit (0xFF :: 'a word) k \<longleftrightarrow> k < LENGTH('a)"
    using bit_mask_iff [of 8 k, where 'a = "'a word"] by (simp add: mask_eq_exp_minus_1)
  then show "bit (ucast (x AND 0xFF) :: u8) k = bit (ucast x :: u8) k"
    by (auto simp: bit_ucast_iff bit_and_iff dest: bit_imp_le_length)
qed

lemma INSERT16_ok:
  "off + 1 < length buf \<Longrightarrow>
   INSERT16 buf off x = Inr (buf[off := ucast x, off + 1 := ucast (drop_bit 8 x)])"
  by (simp add: INSERT16_def store_def ucast_and_byte)

lemma INSERT32_ok:
  "off + 3 < length buf \<Longrightarrow>
   INSERT32 buf off x =
     Inr (buf[off := ucast x, off + 1 := ucast (drop_bit 8 x),
              off + 2 := ucast (drop_bit 16 x), off + 3 := ucast (drop_bit 24 x)])"
  by (simp add: INSERT32_def store_def ucast_and_byte)

lemma region_2: "i + 2 \<le> length xs \<Longrightarrow> region xs i 2 = [xs ! i, xs ! (i + 1)]"
  by (rule nth_equalityI) (auto simp: nth_region less_2_cases_iff)

lemma region_4:
  "i + 4 \<le> length xs \<Longrightarrow> region xs i 4 = [xs ! i, xs ! (i + 1), xs ! (i + 2), xs ! (i + 3)]"
  by (rule nth_equalityI) (auto simp: nth_region numeral_eq_Suc less_Suc_eq)

lemma EXTRACT16_region [mem_simps]:
  "off + 2 \<le> length buf \<Longrightarrow> EXTRACT16 buf off = Inr (le_word (region buf off 2))"
  by (simp add: EXTRACT16_ok region_2)

lemma EXTRACT32_region [mem_simps]:
  "off + 4 \<le> length buf \<Longrightarrow> EXTRACT32 buf off = Inr (le_word (region buf off 4))"
  by (simp add: EXTRACT32_ok region_4)

lemma INSERT16_put [mem_simps]:
  assumes "off + 2 \<le> length buf"
  shows "INSERT16 buf off x = Inr (put buf off (le_bytes 2 x))"
proof -
  have "buf[off := ucast x, off + 1 := ucast (drop_bit 8 x)] = put buf off (le_bytes 2 x)"
    using assms by (intro nth_equalityI) (auto simp: nth_put nth_list_update less_2_cases_iff)
  with assms show ?thesis by (simp add: INSERT16_ok)
qed

lemma INSERT32_put [mem_simps]:
  assumes "off + 4 \<le> length buf"
  shows "INSERT32 buf off x = Inr (put buf off (le_bytes 4 x))"
proof -
  have "buf[off := ucast x, off + 1 := ucast (drop_bit 8 x), off + 2 := ucast (drop_bit 16 x),
            off + 3 := ucast (drop_bit 24 x)] = put buf off (le_bytes 4 x)"
    using assms by (intro nth_equalityI) (auto simp: nth_put nth_list_update le_bytes_def)
  with assms show ?thesis by (simp add: INSERT32_ok)
qed

subsection \<open>Reasoning bit by bit\<close>

text \<open>Two words are equal when they agree on every bit position, listed explicitly.\<close>

lemma word_eq_upt:
  "list_all (\<lambda>n. bit v n = bit w n) [0..<LENGTH('a)] \<Longrightarrow> v = (w :: 'a::len word)"
  by (rule bit_word_eqI) (simp add: list_all_iff)

lemma byte_bit_high: "8 \<le> n \<Longrightarrow> \<not> bit (b :: u8) n"
  by (auto dest: bit_imp_le_length)

lemma list_all_unfold:
  "list_all P [] = True" "list_all P (x # xs) = (P x \<and> list_all P xs)"
  by simp_all

lemma bit_positions:
  "[0..<LENGTH(8)] = [0, 1, 2, 3, 4, 5, 6, 7]"
  "[0..<LENGTH(16)] = [0, 1, 2, 3, 4, 5, 6, 7, 8, 9, 10, 11, 12, 13, 14, 15]"
  "[0..<LENGTH(32)] = [0, 1, 2, 3, 4, 5, 6, 7, 8, 9, 10, 11, 12, 13, 14, 15, 16, 17, 18, 19,
     20, 21, 22, 23, 24, 25, 26, 27, 28, 29, 30, 31]"
  "[0..<LENGTH(64)] = [0, 1, 2, 3, 4, 5, 6, 7, 8, 9, 10, 11, 12, 13, 14, 15, 16, 17, 18, 19,
     20, 21, 22, 23, 24, 25, 26, 27, 28, 29, 30, 31, 32, 33, 34, 35, 36, 37, 38, 39, 40, 41, 42,
     43, 44, 45, 46, 47, 48, 49, 50, 51, 52, 53, 54, 55, 56, 57, 58, 59, 60, 61, 62, 63]"
  by code_simp+

subsection \<open>Byte swaps reverse the bytes\<close>

lemma SWAP16_le_word: "SWAP16 (le_word [a, b]) = le_word [b, a]"
  by (rule word_eq_upt, simp only: bit_positions list_all_unfold)
    (simp add: SWAP16_def bit_simps byte_bit_high)

lemma SWAP32_le_word: "SWAP32 (le_word [a, b, c, d]) = le_word [d, c, b, a]"
  by (rule word_eq_upt, simp only: bit_positions list_all_unfold)
    (simp add: SWAP32_def bit_simps byte_bit_high)

lemma bit_SWAP64: "bit (SWAP64 x) n \<longleftrightarrow> n < 64 \<and> bit x (8 * (7 - n div 8) + n mod 8)"
proof (cases "n < 64")
  case True
  have "list_all (\<lambda>n. bit (SWAP64 x) n = bit x (8 * (7 - n div 8) + n mod 8)) [0..<LENGTH(64)]"
    unfolding SWAP64_def Let_def
    by (simp only: bit_positions list_all_unfold bit_or_iff bit_push_bit_iff bit_drop_bit_eq
        bit_and_iff possible_bit_word)
      (simp add: bit_simps numeral_2_eq_2 [symmetric]
        del: push_bit_and push_bit_or drop_bit_and drop_bit_or)
  then show ?thesis using True by (simp add: list_all_iff)
next
  case False
  then show ?thesis by (auto dest: bit_imp_le_length)
qed

lemma le_bytes_2: "le_bytes 2 w = [ucast w, ucast (drop_bit 8 w)]"
  by (simp add: le_bytes_def upt_conv_Cons)

lemma le_bytes_4:
  "le_bytes 4 w = [ucast w, ucast (drop_bit 8 w), ucast (drop_bit 16 w), ucast (drop_bit 24 w)]"
  by (simp add: le_bytes_def upt_conv_Cons)

lemma SWAP16_bytes: "le_bytes 2 (SWAP16 w) = rev (le_bytes 2 w)"
proof -
  obtain a b where ab: "le_bytes 2 w = [a, b]" by (simp add: le_bytes_2)
  then have "w = le_word [a, b]" using le_word_le_bytes [of 2 w] by simp
  then have "SWAP16 w = le_word [b, a]" by (simp only: SWAP16_le_word)
  then show ?thesis using le_bytes_le_word [of "[b, a]" 2, where 'a = 16] ab
    by (simp del: le_word.simps)
qed

lemma SWAP32_bytes: "le_bytes 4 (SWAP32 w) = rev (le_bytes 4 w)"
proof -
  obtain a b c d where abcd: "le_bytes 4 w = [a, b, c, d]" by (simp add: le_bytes_4)
  then have "w = le_word [a, b, c, d]" using le_word_le_bytes [of 4 w] by simp
  then have "SWAP32 w = le_word [d, c, b, a]" by (simp only: SWAP32_le_word)
  then show ?thesis using le_bytes_le_word [of "[d, c, b, a]" 4, where 'a = 32] abcd
    by (simp del: le_word.simps)
qed

lemma SWAP64_bytes: "le_bytes 8 (SWAP64 w) = rev (le_bytes 8 w)"
proof (rule nth_equalityI)
  fix i assume "i < length (le_bytes 8 (SWAP64 w))"
  then have i: "i < 8" by simp
  show "le_bytes 8 (SWAP64 w) ! i = rev (le_bytes 8 w) ! i"
  proof (rule bit_word_eqI)
    fix k assume k: "k < LENGTH(8)"
    have "8 * i + k < 64" using i k by simp
    moreover have "(8 * i + k) div 8 = i" and "(8 * i + k) mod 8 = k" using k by simp_all
    moreover have "rev (le_bytes 8 w) ! i = ucast (drop_bit (8 * (7 - i)) w)"
      using i by (subst rev_nth) auto
    ultimately show "bit (le_bytes 8 (SWAP64 w) ! i) k = bit (rev (le_bytes 8 w) ! i) k"
      using i k by (simp only: nth_le_bytes bit_ucast_iff bit_drop_bit_eq bit_SWAP64 o_def) simp
  qed
qed simp

lemma SWAP16_SWAP16 [simp]: "SWAP16 (SWAP16 w) = w"
  using le_word_le_bytes [of 2 "SWAP16 (SWAP16 w)"] le_word_le_bytes [of 2 w]
  by (simp add: SWAP16_bytes)

lemma SWAP32_SWAP32 [simp]: "SWAP32 (SWAP32 w) = w"
  using le_word_le_bytes [of 4 "SWAP32 (SWAP32 w)"] le_word_le_bytes [of 4 w]
  by (simp add: SWAP32_bytes)

subsection \<open>Fields of the status word\<close>

lemma drop_push_field:
  assumes "(y :: u32) AND mask n = y" and "n + k \<le> 32"
  shows "drop_bit k (push_bit k y) = y"
proof (rule bit_word_eqI)
  fix i assume "i < LENGTH(32)"
  have "bit y i \<Longrightarrow> i < n"
    using assms(1) by (metis bit_and_iff bit_mask_iff)
  then show "bit (drop_bit k (push_bit k y)) i = bit y i"
    using assms(2) by (auto simp: bit_simps)
qed

text \<open>Reading back a field that was shifted into place, whatever the other bits hold.\<close>

lemma field_roundtrip:
  assumes "(y :: u32) AND mask n = y" and "n + k \<le> 32" and "r AND push_bit k (mask n) = 0"
  shows "drop_bit k ((push_bit k y OR r) AND push_bit k (mask n)) = y"
proof -
  have "(push_bit k y OR r) AND push_bit k (mask n) = push_bit k y AND push_bit k (mask n)"
    using assms(3) by (simp only: bit.conj_disj_distrib2 bit.disj_zero_right)
  also have "\<dots> = push_bit k y"
    by (simp only: push_bit_and [symmetric] assms(1))
  finally show ?thesis using assms(1,2) by (simp only: drop_push_field)
qed

lemma FS_OPT_ERROR_roundtrip:
  assumes "x < 2 ^ 16"  and "r AND 0x00ffff00 = 0"
  shows "FS_OPT_GET_ERROR (FS_OPT_SET_ERROR x OR r) = x"
proof -
  have f: "(0x00ffff00 :: u32) = push_bit 8 (mask 16)" "(0x0000ffff :: u32) = mask 16"
    by (simp_all add: mask_eq_exp_minus_1)
  have m: "x AND mask 16 = x" using assms(1) by (rule less_mask_eq)
  then show ?thesis
    using field_roundtrip [of x 16 8 r] assms(2)
    by (simp only: FS_OPT_GET_ERROR_def FS_OPT_SET_ERROR_def f)
qed

section \<open>Properties\<close>

text \<open>
  C29. The byte swaps of \<open>types.h\<close> reverse the bytes of a word in memory, at every width.
\<close>

theorem SWAP_reverses_bytes:
  "le_bytes 2 (SWAP16 a) = rev (le_bytes 2 a) \<and>
   le_bytes 4 (SWAP32 b) = rev (le_bytes 4 b) \<and>
   le_bytes 8 (SWAP64 c) = rev (le_bytes 8 c)"
  by (simp add: SWAP16_bytes SWAP32_bytes SWAP64_bytes)

text \<open>
  C30. The map size survives the fork server handshake: for every size from \<open>2\<close> to
  \<open>FS_OPT_MAX_MAPSIZE\<close>, decoding the status word gives the size that was encoded, whatever the
  option bits \<open>r\<close> outside the map size field are.
\<close>

theorem FS_OPT_MAPSIZE_roundtrip:
  assumes "2 \<le> x" and "x \<le> FS_OPT_MAX_MAPSIZE" and "r AND 0x00fffffe = 0"
  shows "FS_OPT_GET_MAPSIZE (FS_OPT_SET_MAPSIZE x OR r) = x"
proof -
  have field: "(0x00fffffe :: u32) = push_bit 1 (mask 23)"
    by (simp add: mask_eq_exp_minus_1)
  have max: "FS_OPT_MAX_MAPSIZE = 2 ^ 23" by (simp add: FS_OPT_MAX_MAPSIZE_def)
  have "\<not> x \<le> 1" using assms(1) by unat_arith
  then have set: "FS_OPT_SET_MAPSIZE x = push_bit 1 (x - 1)"
    using assms(2) by (simp only: FS_OPT_SET_MAPSIZE_def not_less [symmetric] simp_thms if_False)
  have "x - 1 < 2 ^ 23"
    using assms(1,2) unfolding max by unat_arith
  then have "(x - 1) AND mask 23 = x - 1" by (rule less_mask_eq)
  then show ?thesis
    using field_roundtrip [of "x - 1" 23 1 r] assms(3)
    by (simp only: FS_OPT_GET_MAPSIZE_def set field diff_add_cancel)
qed

theorem FS_OPT_MAPSIZE_roundtrip_witness:
  "FS_OPT_GET_MAPSIZE (FS_OPT_SET_MAPSIZE 65536 OR (FS_OPT_ENABLED OR FS_OPT_MAPSIZE)) = 65536"
  by (rule FS_OPT_MAPSIZE_roundtrip)
    (simp_all add: FS_OPT_MAX_MAPSIZE_def FS_OPT_ENABLED_def FS_OPT_MAPSIZE_def)

end
