(* ===== verification/AFL_Mut_Tables.thy ===== *)
theory AFL_Mut_Tables
  imports AFL_Types
begin

text \<open>
  The mutation operators of \<open>include/afl-mutations.h\<close> and its strategy tables. The enum is a
  datatype (the constructors of the subtracting operators, whose C names end in an underscore,
  end in \<open>_SUB\<close>), and each table is a list, written as runs of equal entries in the source's
  order.
\<close>

section \<open>Operators\<close>

datatype mutator =
    MUT_FLIPBIT
  | MUT_INTERESTING8
  | MUT_INTERESTING16
  | MUT_INTERESTING16BE
  | MUT_INTERESTING32
  | MUT_INTERESTING32BE
  | MUT_ARITH8_SUB
  | MUT_ARITH8
  | MUT_ARITH16_SUB
  | MUT_ARITH16BE_SUB
  | MUT_ARITH16
  | MUT_ARITH16BE
  | MUT_ARITH32_SUB
  | MUT_ARITH32BE_SUB
  | MUT_ARITH32
  | MUT_ARITH32BE
  | MUT_RAND8
  | MUT_CLONE_COPY
  | MUT_CLONE_FIXED
  | MUT_OVERWRITE_COPY
  | MUT_OVERWRITE_FIXED
  | MUT_BYTEADD
  | MUT_BYTESUB
  | MUT_FLIP8
  | MUT_SWITCH
  | MUT_DEL
  | MUT_SHUFFLE
  | MUT_DELONE
  | MUT_INSERTONE
  | MUT_ASCIINUM
  | MUT_INSERTASCIINUM
  | MUT_EXTRA_OVERWRITE
  | MUT_EXTRA_INSERT
  | MUT_AUTO_EXTRA_OVERWRITE
  | MUT_AUTO_EXTRA_INSERT
  | MUT_SPLICE_OVERWRITE
  | MUT_SPLICE_INSERT

definition MUT_MAX :: nat where "MUT_MAX = 37"

definition mutators :: "mutator list" where
  "mutators =
     [MUT_FLIPBIT, MUT_INTERESTING8, MUT_INTERESTING16, MUT_INTERESTING16BE,
      MUT_INTERESTING32, MUT_INTERESTING32BE, MUT_ARITH8_SUB, MUT_ARITH8, MUT_ARITH16_SUB,
      MUT_ARITH16BE_SUB, MUT_ARITH16, MUT_ARITH16BE, MUT_ARITH32_SUB, MUT_ARITH32BE_SUB,
      MUT_ARITH32, MUT_ARITH32BE, MUT_RAND8, MUT_CLONE_COPY, MUT_CLONE_FIXED,
      MUT_OVERWRITE_COPY, MUT_OVERWRITE_FIXED, MUT_BYTEADD, MUT_BYTESUB, MUT_FLIP8,
      MUT_SWITCH, MUT_DEL, MUT_SHUFFLE, MUT_DELONE, MUT_INSERTONE, MUT_ASCIINUM,
      MUT_INSERTASCIINUM, MUT_EXTRA_OVERWRITE, MUT_EXTRA_INSERT, MUT_AUTO_EXTRA_OVERWRITE,
      MUT_AUTO_EXTRA_INSERT, MUT_SPLICE_OVERWRITE, MUT_SPLICE_INSERT]"

section \<open>Tables\<close>

definition MUT_TXT_ARRAY_SIZE :: nat where "MUT_TXT_ARRAY_SIZE = 200"
definition MUT_BIN_ARRAY_SIZE :: nat where "MUT_BIN_ARRAY_SIZE = 256"
definition MUT_NORMAL_ARRAY_SIZE :: nat where "MUT_NORMAL_ARRAY_SIZE = 77"
definition MUT_SPLICE_ARRAY_SIZE :: nat where "MUT_SPLICE_ARRAY_SIZE = 81"
definition MUT_STRATEGY_ARRAY_SIZE :: nat where "MUT_STRATEGY_ARRAY_SIZE = 256"

definition text_array :: "mutator list" where
  "text_array =
     replicate 8 MUT_FLIPBIT @ replicate 4 MUT_INTERESTING8 @ replicate 2 MUT_INTERESTING16 @
     replicate 2 MUT_INTERESTING16BE @ replicate 2 MUT_INTERESTING32 @ replicate 2
     MUT_INTERESTING32BE @ replicate 6 MUT_ARITH8_SUB @ replicate 6 MUT_ARITH8 @ replicate 5
     MUT_ARITH16_SUB @ replicate 5 MUT_ARITH16BE_SUB @ replicate 5 MUT_ARITH16 @ replicate 5
     MUT_ARITH16BE @ replicate 5 MUT_ARITH32_SUB @ replicate 5 MUT_ARITH32BE_SUB @ replicate 5
     MUT_ARITH32 @ replicate 5 MUT_ARITH32BE @ replicate 8 MUT_RAND8 @ replicate 16
     MUT_CLONE_COPY @ replicate 8 MUT_CLONE_FIXED @ replicate 10 MUT_OVERWRITE_COPY @ replicate
     5 MUT_OVERWRITE_FIXED @ replicate 5 MUT_BYTEADD @ replicate 5 MUT_BYTESUB @ replicate 4
     MUT_FLIP8 @ replicate 7 MUT_SWITCH @ replicate 10 MUT_DEL @ replicate 7
     MUT_EXTRA_OVERWRITE @ replicate 9 MUT_EXTRA_INSERT @ replicate 4 MUT_AUTO_EXTRA_OVERWRITE
     @ replicate 5 MUT_AUTO_EXTRA_INSERT @ replicate 12 MUT_SPLICE_OVERWRITE @ replicate 13
     MUT_SPLICE_INSERT"

definition binary_array :: "mutator list" where
  "binary_array =
     replicate 11 MUT_FLIPBIT @ replicate 9 MUT_INTERESTING8 @ replicate 6 MUT_INTERESTING16 @
     replicate 6 MUT_INTERESTING16BE @ replicate 6 MUT_INTERESTING32 @ replicate 6
     MUT_INTERESTING32BE @ replicate 9 MUT_ARITH8_SUB @ replicate 10 MUT_ARITH8 @ replicate 6
     MUT_ARITH16_SUB @ replicate 6 MUT_ARITH16BE_SUB @ replicate 6 MUT_ARITH16 @ replicate 6
     MUT_ARITH16BE @ replicate 6 MUT_ARITH32_SUB @ replicate 6 MUT_ARITH32BE_SUB @ replicate 6
     MUT_ARITH32 @ replicate 6 MUT_ARITH32BE @ replicate 9 MUT_RAND8 @ replicate 14
     MUT_CLONE_COPY @ replicate 7 MUT_CLONE_FIXED @ replicate 10 MUT_OVERWRITE_COPY @ replicate
     5 MUT_OVERWRITE_FIXED @ replicate 6 MUT_BYTEADD @ replicate 6 MUT_BYTESUB @ replicate 4
     MUT_FLIP8 @ replicate 6 MUT_SWITCH @ replicate 9 MUT_DEL @ replicate 10
     MUT_EXTRA_OVERWRITE @ replicate 12 MUT_EXTRA_INSERT @ replicate 9 MUT_AUTO_EXTRA_OVERWRITE
     @ replicate 11 MUT_AUTO_EXTRA_INSERT @ replicate 13 MUT_SPLICE_OVERWRITE @ replicate 14
     MUT_SPLICE_INSERT"

definition normal_splice_array :: "mutator list" where
  "normal_splice_array =
     replicate 4 MUT_FLIPBIT @ replicate 4 MUT_INTERESTING8 @ replicate 2 MUT_INTERESTING16 @
     replicate 2 MUT_INTERESTING16BE @ replicate 2 MUT_INTERESTING32 @ replicate 2
     MUT_INTERESTING32BE @ replicate 4 MUT_ARITH8_SUB @ replicate 4 MUT_ARITH8 @ replicate 2
     MUT_ARITH16_SUB @ replicate 2 MUT_ARITH16BE_SUB @ replicate 2 MUT_ARITH16 @ replicate 2
     MUT_ARITH16BE @ replicate 2 MUT_ARITH32_SUB @ replicate 2 MUT_ARITH32BE_SUB @ replicate 2
     MUT_ARITH32 @ replicate 2 MUT_ARITH32BE @ replicate 4 MUT_RAND8 @ replicate 3
     MUT_CLONE_COPY @ replicate 1 MUT_CLONE_FIXED @ replicate 3 MUT_OVERWRITE_COPY @ replicate
     1 MUT_OVERWRITE_FIXED @ replicate 1 MUT_BYTEADD @ replicate 1 MUT_BYTESUB @ replicate 1
     MUT_FLIP8 @ replicate 2 MUT_SWITCH @ replicate 8 MUT_DEL @ replicate 2 MUT_EXTRA_OVERWRITE
     @ replicate 2 MUT_EXTRA_INSERT @ replicate 2 MUT_AUTO_EXTRA_OVERWRITE @ replicate 2
     MUT_AUTO_EXTRA_INSERT @ replicate 2 MUT_SPLICE_OVERWRITE @ replicate 2 MUT_SPLICE_INSERT"

definition full_splice_array :: "mutator list" where
  "full_splice_array =
     replicate 4 MUT_FLIPBIT @ replicate 4 MUT_INTERESTING8 @ replicate 2 MUT_INTERESTING16 @
     replicate 2 MUT_INTERESTING16BE @ replicate 2 MUT_INTERESTING32 @ replicate 2
     MUT_INTERESTING32BE @ replicate 4 MUT_ARITH8_SUB @ replicate 4 MUT_ARITH8 @ replicate 2
     MUT_ARITH16_SUB @ replicate 2 MUT_ARITH16BE_SUB @ replicate 2 MUT_ARITH16 @ replicate 2
     MUT_ARITH16BE @ replicate 2 MUT_ARITH32_SUB @ replicate 2 MUT_ARITH32BE_SUB @ replicate 2
     MUT_ARITH32 @ replicate 2 MUT_ARITH32BE @ replicate 4 MUT_RAND8 @ replicate 3
     MUT_CLONE_COPY @ replicate 1 MUT_CLONE_FIXED @ replicate 3 MUT_OVERWRITE_COPY @ replicate
     1 MUT_OVERWRITE_FIXED @ replicate 1 MUT_BYTEADD @ replicate 1 MUT_BYTESUB @ replicate 1
     MUT_FLIP8 @ replicate 2 MUT_SWITCH @ replicate 8 MUT_DEL @ replicate 2 MUT_EXTRA_OVERWRITE
     @ replicate 2 MUT_EXTRA_INSERT @ replicate 2 MUT_AUTO_EXTRA_OVERWRITE @ replicate 2
     MUT_AUTO_EXTRA_INSERT @ replicate 4 MUT_SPLICE_OVERWRITE @ replicate 4 MUT_SPLICE_INSERT"

definition mutation_strategy_exploration_text :: "mutator list" where
  "mutation_strategy_exploration_text =
     replicate 6 MUT_FLIPBIT @ replicate 5 MUT_INTERESTING8 @ replicate 5 MUT_INTERESTING16 @
     replicate 5 MUT_INTERESTING16BE @ replicate 5 MUT_INTERESTING32 @ replicate 5
     MUT_INTERESTING32BE @ replicate 6 MUT_ARITH8_SUB @ replicate 6 MUT_ARITH8 @ replicate 6
     MUT_ARITH16_SUB @ replicate 6 MUT_ARITH16BE_SUB @ replicate 6 MUT_ARITH16 @ replicate 6
     MUT_ARITH16BE @ replicate 6 MUT_ARITH32_SUB @ replicate 6 MUT_ARITH32BE_SUB @ replicate 6
     MUT_ARITH32 @ replicate 6 MUT_ARITH32BE @ replicate 6 MUT_RAND8 @ replicate 13
     MUT_CLONE_COPY @ replicate 10 MUT_CLONE_FIXED @ replicate 9 MUT_OVERWRITE_COPY @ replicate
     8 MUT_OVERWRITE_FIXED @ replicate 6 MUT_BYTEADD @ replicate 6 MUT_BYTESUB @ replicate 8
     MUT_FLIP8 @ replicate 8 MUT_SWITCH @ replicate 7 MUT_DEL @ replicate 8 MUT_SHUFFLE @
     replicate 7 MUT_DELONE @ replicate 6 MUT_INSERTONE @ replicate 8 MUT_ASCIINUM @ replicate
     8 MUT_INSERTASCIINUM @ replicate 8 MUT_EXTRA_OVERWRITE @ replicate 8 MUT_EXTRA_INSERT @
     replicate 6 MUT_AUTO_EXTRA_OVERWRITE @ replicate 6 MUT_AUTO_EXTRA_INSERT @ replicate 9
     MUT_SPLICE_OVERWRITE @ replicate 10 MUT_SPLICE_INSERT"

definition mutation_strategy_exploration_binary :: "mutator list" where
  "mutation_strategy_exploration_binary =
     replicate 7 MUT_FLIPBIT @ replicate 6 MUT_INTERESTING8 @ replicate 6 MUT_INTERESTING16 @
     replicate 6 MUT_INTERESTING16BE @ replicate 6 MUT_INTERESTING32 @ replicate 6
     MUT_INTERESTING32BE @ replicate 7 MUT_ARITH8_SUB @ replicate 7 MUT_ARITH8 @ replicate 6
     MUT_ARITH16_SUB @ replicate 6 MUT_ARITH16BE_SUB @ replicate 6 MUT_ARITH16 @ replicate 6
     MUT_ARITH16BE @ replicate 6 MUT_ARITH32_SUB @ replicate 6 MUT_ARITH32BE_SUB @ replicate 7
     MUT_ARITH32 @ replicate 6 MUT_ARITH32BE @ replicate 6 MUT_RAND8 @ replicate 14
     MUT_CLONE_COPY @ replicate 9 MUT_CLONE_FIXED @ replicate 9 MUT_OVERWRITE_COPY @ replicate
     7 MUT_OVERWRITE_FIXED @ replicate 7 MUT_BYTEADD @ replicate 7 MUT_BYTESUB @ replicate 10
     MUT_FLIP8 @ replicate 7 MUT_SWITCH @ replicate 6 MUT_DEL @ replicate 6 MUT_SHUFFLE @
     replicate 6 MUT_DELONE @ replicate 6 MUT_INSERTONE @ replicate 6 MUT_ASCIINUM @ replicate
     6 MUT_INSERTASCIINUM @ replicate 7 MUT_EXTRA_OVERWRITE @ replicate 7 MUT_EXTRA_INSERT @
     replicate 6 MUT_AUTO_EXTRA_OVERWRITE @ replicate 6 MUT_AUTO_EXTRA_INSERT @ replicate 8
     MUT_SPLICE_OVERWRITE @ replicate 10 MUT_SPLICE_INSERT"

definition mutation_strategy_exploitation_text :: "mutator list" where
  "mutation_strategy_exploitation_text =
     replicate 7 MUT_FLIPBIT @ replicate 7 MUT_INTERESTING8 @ replicate 7 MUT_INTERESTING16 @
     replicate 7 MUT_INTERESTING16BE @ replicate 8 MUT_INTERESTING32 @ replicate 8
     MUT_INTERESTING32BE @ replicate 6 MUT_ARITH8_SUB @ replicate 7 MUT_ARITH8 @ replicate 6
     MUT_ARITH16_SUB @ replicate 7 MUT_ARITH16BE_SUB @ replicate 7 MUT_ARITH16 @ replicate 7
     MUT_ARITH16BE @ replicate 6 MUT_ARITH32_SUB @ replicate 6 MUT_ARITH32BE_SUB @ replicate 6
     MUT_ARITH32 @ replicate 7 MUT_ARITH32BE @ replicate 7 MUT_RAND8 @ replicate 9
     MUT_CLONE_COPY @ replicate 8 MUT_CLONE_FIXED @ replicate 6 MUT_OVERWRITE_COPY @ replicate
     6 MUT_OVERWRITE_FIXED @ replicate 7 MUT_BYTEADD @ replicate 6 MUT_BYTESUB @ replicate 9
     MUT_FLIP8 @ replicate 7 MUT_SWITCH @ replicate 6 MUT_DEL @ replicate 7 MUT_SHUFFLE @
     replicate 5 MUT_DELONE @ replicate 6 MUT_INSERTONE @ replicate 6 MUT_ASCIINUM @ replicate
     8 MUT_INSERTASCIINUM @ replicate 7 MUT_EXTRA_OVERWRITE @ replicate 7 MUT_EXTRA_INSERT @
     replicate 7 MUT_AUTO_EXTRA_OVERWRITE @ replicate 7 MUT_AUTO_EXTRA_INSERT @ replicate 7
     MUT_SPLICE_OVERWRITE @ replicate 9 MUT_SPLICE_INSERT"

definition mutation_strategy_exploitation_binary :: "mutator list" where
  "mutation_strategy_exploitation_binary =
     replicate 7 MUT_FLIPBIT @ replicate 7 MUT_INTERESTING8 @ replicate 7 MUT_INTERESTING16 @
     replicate 7 MUT_INTERESTING16BE @ replicate 8 MUT_INTERESTING32 @ replicate 8
     MUT_INTERESTING32BE @ replicate 6 MUT_ARITH8_SUB @ replicate 7 MUT_ARITH8 @ replicate 6
     MUT_ARITH16_SUB @ replicate 7 MUT_ARITH16BE_SUB @ replicate 7 MUT_ARITH16 @ replicate 7
     MUT_ARITH16BE @ replicate 6 MUT_ARITH32_SUB @ replicate 7 MUT_ARITH32BE_SUB @ replicate 7
     MUT_ARITH32 @ replicate 7 MUT_ARITH32BE @ replicate 7 MUT_RAND8 @ replicate 9
     MUT_CLONE_COPY @ replicate 8 MUT_CLONE_FIXED @ replicate 6 MUT_OVERWRITE_COPY @ replicate
     6 MUT_OVERWRITE_FIXED @ replicate 7 MUT_BYTEADD @ replicate 6 MUT_BYTESUB @ replicate 10
     MUT_FLIP8 @ replicate 7 MUT_SWITCH @ replicate 6 MUT_DEL @ replicate 6 MUT_SHUFFLE @
     replicate 5 MUT_DELONE @ replicate 6 MUT_INSERTONE @ replicate 5 MUT_ASCIINUM @ replicate
     7 MUT_INSERTASCIINUM @ replicate 7 MUT_EXTRA_OVERWRITE @ replicate 7 MUT_EXTRA_INSERT @
     replicate 7 MUT_AUTO_EXTRA_OVERWRITE @ replicate 7 MUT_AUTO_EXTRA_INSERT @ replicate 7
     MUT_SPLICE_OVERWRITE @ replicate 9 MUT_SPLICE_INSERT"

end
