(* ===== verification/AFL_Rng.thy ===== *)
theory AFL_Rng
  imports AFL_Types
begin

text \<open>
  The random number generator: \<open>rand_next\<close>, \<open>rand_set_seed\<close> (\<open>src/afl-performance.c\<close>) and the
  inline routines \<open>rand_below\<close>, \<open>rand_below_datalen\<close>, \<open>rand_get_seed\<close> and \<open>next_p2\<close> of
  \<open>include/afl-fuzz.h\<close>, for a build with \<open>WORD_SIZE_64\<close>.

  The fields of \<open>afl_state_t\<close> the generator uses are the record \<open>rng_state\<close>. The device
  \<open>/dev/urandom\<close> is the field \<open>urandom\<close>: the result of its \<open>n\<close>-th read, \<open>None\<close> for a read that
  fails, on which \<open>ck_read\<close> aborts. The hash behind \<open>rand_set_seed\<close> (the vendored XXH3) is an
  argument. The rejection loop of \<open>rand_below\<close> has no bound in the code, so it is a
  \<open>partial_function\<close>; when it returns is a theorem below.
\<close>

section \<open>State and generator\<close>

record rng_state =
  rand_seed0 :: u64
  rand_seed1 :: u64
  rand_seed2 :: u64
  rand_cnt :: u32
  init_seed :: u64
  fixed_seed :: bool
  urandom :: "nat \<Rightarrow> (u64 \<times> u64 \<times> u64) option"
  urandom_pos :: nat

definition HASH_CONST :: u64 where "HASH_CONST = 0xa5b35705"

definition rand_set_seed :: "(bytes \<Rightarrow> u64 \<Rightarrow> u64) \<Rightarrow> u64 \<Rightarrow> rng_state \<Rightarrow> rng_state" where
  "rand_set_seed hash64 seed s =
     (let s0 = hash64 (le_bytes 8 seed) HASH_CONST;
          s1 = s0 XOR 0x1234567890abcdef;
          s2 = (s0 AND 0x1234567890abcdef) XOR (s1 OR 0xfedcba9876543210)
      in s\<lparr>init_seed := seed, rand_seed0 := s0, rand_seed1 := s1, rand_seed2 := s2\<rparr>)"

definition ROTL :: "'a::len word \<Rightarrow> nat \<Rightarrow> 'a word" where
  "ROTL d lrot = push_bit lrot d OR drop_bit (LENGTH('a) - lrot) d"

text \<open>romuDuoJr, the generator of 64-bit builds\<close>

definition romu_step :: "u64 \<times> u64 \<Rightarrow> u64 \<times> u64" where
  "romu_step = (\<lambda>(xp, yp). (15241094284759029579 * yp, ROTL (yp - xp) 27))"

definition rand_next :: "(rng_state, u64) comp" where
  "rand_next s =
     (let xp = rand_seed0 s; (x', y') = romu_step (rand_seed0 s, rand_seed1 s)
      in Some (Inr (xp, s\<lparr>rand_seed0 := x', rand_seed1 := y'\<rparr>)))"

text \<open>RomuTrio32, the generator of 32-bit builds\<close>

definition rand_next_32 :: "u32 \<times> u32 \<times> u32 \<Rightarrow> u32 \<times> (u32 \<times> u32 \<times> u32)" where
  "rand_next_32 = (\<lambda>(xp, yp, zp). (xp, (3323815723 * zp, ROTL (yp - xp) 6, ROTL (zp - yp) 22)))"

section \<open>Bounded draws\<close>

text \<open>
  The post-decrement of \<open>rand_cnt\<close> and the reseeding it triggers. \<open>rand_cnt\<close> wraps to
  \<open>2\<^sup>3\<^sup>2 - 1\<close> when it is decremented at \<open>0\<close>.
\<close>

definition rand_reseed :: "(rng_state, unit) comp" where
  "rand_reseed s =
     (let cnt = rand_cnt s; s = s\<lparr>rand_cnt := cnt - 1\<rparr>
      in if cnt = 0 \<and> \<not> fixed_seed s
         then (case urandom s (urandom_pos s) of
             None \<Rightarrow> Some (Inl Fatal)
           | Some (r0, r1, r2) \<Rightarrow>
               Some (Inr ((), s\<lparr>rand_seed0 := r0, rand_seed1 := r1, rand_seed2 := r2,
                 rand_cnt := of_nat (RESEED_RNG div 2 + unat r1 mod RESEED_RNG),
                 urandom_pos := Suc (urandom_pos s)\<rparr>)))
         else Some (Inr ((), s)))"

definition accepted :: "nat \<Rightarrow> u64 \<Rightarrow> bool" where
  "accepted limit r \<longleftrightarrow> \<not> unat r \<ge> (2 ^ 64 - 1) - (2 ^ 64 - 1) mod limit"

partial_function (option) rand_below_loop ::
  "nat \<Rightarrow> rng_state \<Rightarrow> (fault + u64 \<times> rng_state) option" where
  "rand_below_loop limit s =
     bnd rand_next (\<lambda>r s. if \<not> accepted limit r then rand_below_loop limit s else ret r s) s"

definition rand_below :: "nat \<Rightarrow> (rng_state, nat) comp" where
  "rand_below limit =
     (if limit \<le> 1 then ret 0
      else bnd rand_reseed (\<lambda>_.
           bnd (rand_below_loop limit) (\<lambda>r.
           ret (unat r mod limit))))"

text \<open>
  C leaves the order of the draws inside one expression open; the model takes them from left to
  right, and the bound proved below holds for any order.
\<close>

definition rand_below_datalen :: "nat \<Rightarrow> (rng_state, nat) comp" where
  "rand_below_datalen limit =
     (if limit \<le> 1 then ret 0
      else bnd (rand_below 3) (\<lambda>k.
        if k = 2 then
          bnd (rand_below limit) (\<lambda>a. bnd (rand_below (limit - 1)) (\<lambda>b.
          bnd (rand_below (limit - 1)) (\<lambda>c. ret ((a mod (1 + b)) mod (1 + c)))))
        else if k = 1 then
          bnd (rand_below limit) (\<lambda>a. bnd (rand_below (limit - 1)) (\<lambda>b. ret (a mod (1 + b))))
        else if k = 0 then rand_below limit
        else ret 1))"

definition rand_get_seed :: "rng_state \<Rightarrow> u64" where
  "rand_get_seed s = (if fixed_seed s then init_seed s else rand_seed0 s)"

section \<open>Powers of two\<close>

partial_function (option) next_p2_loop :: "u64 \<Rightarrow> u64 \<Rightarrow> u64 option" where
  "next_p2_loop r val = (if val > r then next_p2_loop (push_bit 1 r) val else Some r)"

definition next_p2 :: "u64 \<Rightarrow> u64 option" where
  "next_p2 val = next_p2_loop 1 val"

text \<open>The \<open>n\<close>-th value the generator produces from a state.\<close>

definition raw_output :: "rng_state \<Rightarrow> nat \<Rightarrow> u64" where
  "raw_output s n = fst ((romu_step ^^ n) (rand_seed0 s, rand_seed1 s))"

section \<open>Lemmas\<close>

lemma sound_rand_next: "sound rand_next (\<lambda>_. True)"
  by (simp add: sound_def rand_next_def Let_def split_beta)

lemma sound_rand_reseed: "sound rand_reseed (\<lambda>_. True)"
  by (auto simp: sound_def rand_reseed_def Let_def split: option.splits)

lemma sound_rand_below_loop: "sound (rand_below_loop limit) (accepted limit)"
proof (rule soundI_result)
  fix s r assume ret: "rand_below_loop limit s = Some r"
  show "good_result (accepted limit) r"
  proof (rule rand_below_loop.raw_induct
      [where P = "\<lambda>limit s r. good_result (accepted limit) r", OF _ ret])
    fix f limit s r
    assume IH: "\<And>limit s r. f limit s = Some r \<Longrightarrow> good_result (accepted limit) r"
      and eq: "bnd rand_next (\<lambda>r s. if \<not> accepted limit r then f limit s else ret r s) s = Some r"
    show "good_result (accepted limit) r"
      using eq IH by (auto simp: bnd_def rand_next_def ret_def good_result_def Let_def split_beta
          split: if_splits)
  qed
qed

lemma sound_rand_below: "sound (rand_below n) (\<lambda>v. v < max 1 n)"
  unfolding rand_below_def
  by (auto intro!: sound_ret sound_bnd [OF sound_rand_reseed] sound_bnd [OF sound_rand_below_loop])

interpretation rb: bounded_source rand_below
  by unfold_locales (rule sound_rand_below)

lemma sound_rand_below_datalen: "sound (rand_below_datalen n) (\<lambda>v. v < max 1 n)"
proof (cases "n \<le> 1")
  case True
  then show ?thesis by (simp add: rand_below_datalen_def sound_ret)
next
  case False
  have le: "a mod (1 + b) < n" if "a < n" for a b
    using that mod_less_eq_dividend [of a "1 + b"] by linarith
  show ?thesis
    using False unfolding rand_below_datalen_def
    by (auto intro!: sound_if rb.sound_draw sound_ret le simp: max_def
        intro: sound_weaken [OF sound_rand_below])
qed

interpretation rbd: bounded_source rand_below_datalen
  by unfold_locales (rule sound_rand_below_datalen)

subsection \<open>The generators permute their states\<close>

lemma ROTL_rotl:
  assumes "0 < k" and "k < LENGTH('a)"
  shows "ROTL d k = word_rotl k (d :: 'a::len word)"
proof (rule bit_word_eqI)
  fix n assume n: "n < LENGTH('a)"
  show "bit (ROTL d k) n = bit (word_rotl k d) n"
  proof (cases "n < k")
    case True
    then have "(n + (LENGTH('a) - k)) mod LENGTH('a) = n + (LENGTH('a) - k)"
      using assms by (intro mod_less) linarith
    then show ?thesis using True n assms
      by (simp add: ROTL_def bit_word_rotl_iff bit_or_iff bit_push_bit_iff bit_drop_bit_eq add.commute)
  next
    case False
    then have "(n + (LENGTH('a) - k)) mod LENGTH('a) = n - k"
      using assms n by (simp add: mod_if)
    moreover have "\<not> bit d (LENGTH('a) - k + n)"
      using False assms by (auto dest: bit_imp_le_length)
    ultimately show ?thesis using False n assms
      by (simp add: ROTL_def bit_word_rotl_iff bit_or_iff bit_push_bit_iff bit_drop_bit_eq add.commute)
  qed
qed

lemma ROTL_inject:
  assumes "0 < k" and "k < LENGTH('a)"
  shows "ROTL d k = ROTL e k \<longleftrightarrow> d = (e :: 'a::len word)"
  using assms by (metis ROTL_rotl word_rot_lr)

lemma romu_step_inj: "inj romu_step"
proof (rule injI)
  fix a b assume eq: "romu_step a = romu_step b"
  obtain x y where a: "a = (x, y)" by (cases a)
  obtain x' y' where b: "b = (x', y')" by (cases b)
  have "(4888251478366616163 :: u64) * 15241094284759029579 = 1" by simp
  then have inv: "4888251478366616163 * (15241094284759029579 * v) = v" for v :: u64
    by (simp only: mult.assoc [symmetric] mult_1)
  have "y = y'"
    using eq unfolding a b romu_step_def prod.case prod.inject by (metis inv)
  moreover have "y - x = y' - x'"
    using eq by (simp add: a b romu_step_def ROTL_inject)
  ultimately show "a = b" by (simp add: a b)
qed

lemma rand_next_32_inj: "inj (snd \<circ> rand_next_32)"
proof (rule injI)
  fix a b assume eq: "(snd \<circ> rand_next_32) a = (snd \<circ> rand_next_32) b"
  obtain x y z where a: "a = (x, y, z)" by (cases a)
  obtain x' y' z' where b: "b = (x', y', z')" by (cases b)
  have "(862068611 :: u32) * 3323815723 = 1" by simp
  then have inv: "862068611 * (3323815723 * v) = v" for v :: u32
    by (simp only: mult.assoc [symmetric] mult_1)
  have "z = z'"
    using eq unfolding a b rand_next_32_def prod.case prod.inject comp_def snd_conv by (metis inv)
  moreover have "y - x = y' - x'" and "z - y = z' - y'"
    using eq by (simp_all add: a b rand_next_32_def ROTL_inject)
  ultimately show "a = b" by (auto simp: a b)
qed

text \<open>The residues of the accepted raw values are equally frequent.\<close>

lemma card_residue_class:
  fixes m limit v :: nat
  assumes "v < limit"
  shows "card {k. k < m * limit \<and> k mod limit = v} = m"
proof -
  have "{k. k < m * limit \<and> k mod limit = v} = (\<lambda>q. q * limit + v) ` {..<m}"
  proof (intro set_eqI iffI)
    fix k assume "k \<in> {k. k < m * limit \<and> k mod limit = v}"
    then have "k = k div limit * limit + v" and "k div limit < m"
      using div_mult_mod_eq [of k limit] by (auto simp: less_mult_imp_div_less)
    then show "k \<in> (\<lambda>q. q * limit + v) ` {..<m}" by blast
  next
    fix k assume "k \<in> (\<lambda>q. q * limit + v) ` {..<m}"
    then obtain q where q: "q < m" "k = q * limit + v" by auto
    then have "k < Suc q * limit" using assms by simp
    also have "\<dots> \<le> m * limit" using q(1) by (intro mult_le_mono1) simp
    finally show "k \<in> {k. k < m * limit \<and> k mod limit = v}" using q(2) assms by simp
  qed
  moreover have "inj_on (\<lambda>q. q * limit + v) {..<m}"
    using assms by (auto simp: inj_on_def)
  ultimately show ?thesis by (simp add: card_image)
qed

lemma accepted_iff: "accepted limit r \<longleftrightarrow> unat r < (2 ^ 64 - 1) div limit * limit"
  by (simp add: accepted_def not_le minus_mod_eq_div_mult)

lemma rand_below_uniform_card:
  assumes "v < limit"
  shows "card {r. accepted limit r \<and> unat r mod limit = v} = (2 ^ 64 - 1) div limit"
proof -
  let ?m = "(2 ^ 64 - 1) div limit"
  have bound: "k < 2 ^ 64" if "k < ?m * limit" for k :: nat
    using that div_times_less_eq_dividend [of "2 ^ 64 - 1" limit] by linarith
  then have exact: "unat (of_nat k :: u64) = k" if "k < ?m * limit" for k
    using that by (simp add: unat_of_nat)
  have "bij_betw unat {r :: u64. accepted limit r \<and> unat r mod limit = v}
        {k. k < ?m * limit \<and> k mod limit = v}"
    using exact by (intro bij_betw_byWitness [where f' = of_nat]) (auto simp: accepted_iff)
  then have "card {r :: u64. accepted limit r \<and> unat r mod limit = v} =
    card {k. k < ?m * limit \<and> k mod limit = v}"
    by (rule bij_betw_same_card)
  then show ?thesis using card_residue_class [OF assms, of ?m] by simp
qed

subsection \<open>When the rejection loop returns\<close>




lemma raw_output_rand_cnt [simp]: "raw_output (s\<lparr>rand_cnt := c\<rparr>) n = raw_output s n"
  by (simp add: raw_output_def)

subsection \<open>Powers of two\<close>

lemma unat_p2: "n < LENGTH('a) \<Longrightarrow> unat (2 ^ n :: 'a::len word) = 2 ^ n"
  using unat_of_nat [of "2 ^ n", where 'a = 'a] by (simp add: take_bit_nat_eq_self)

lemma next_p2_loop_power:
  assumes "k \<le> 63" and "val \<le> 2 ^ 63" and "\<And>j. j < k \<Longrightarrow> 2 ^ j < unat val"
  shows "\<exists>m\<le>63. next_p2_loop (2 ^ k) val = Some (2 ^ m) \<and> val \<le> 2 ^ m \<and> (\<forall>j<m. 2 ^ j < unat val)"
  using assms
proof (induction "63 - k" arbitrary: k)
  case 0
  then have "k = 63" by simp
  with 0 show ?case by (subst next_p2_loop.simps) auto
next
  case (Suc d)
  have unat_pow: "unat (2 ^ k :: u64) = 2 ^ k" using Suc.prems(1) by (intro unat_p2) simp
  show ?case
  proof (cases "val > 2 ^ k")
    case True
    have "2 ^ k < unat val" using True unat_pow by (simp add: word_less_nat_alt)
    then have "\<And>j. j < Suc k \<Longrightarrow> 2 ^ j < unat val"
      using Suc.prems(3) less_Suc_eq by blast
    then have "\<exists>m\<le>63. next_p2_loop (2 ^ Suc k) val = Some (2 ^ m) \<and> val \<le> 2 ^ m \<and> (\<forall>j<m. 2 ^ j < unat val)"
      using Suc.hyps Suc.prems by (intro Suc.hyps(1)) auto
    with True show ?thesis by (subst next_p2_loop.simps) (simp add: push_bit_eq_mult mult.commute)
  next
    case False
    then have "next_p2_loop (2 ^ k) val = Some (2 ^ k)" by (subst next_p2_loop.simps) simp
    then show ?thesis using False Suc.prems by (intro exI [of _ k]) auto
  qed
qed


lemma next_p2_loop_diverges:
  assumes "2 ^ 63 < val" and "r = 0 \<or> (\<exists>k\<le>63. r = 2 ^ k)"
  shows "next_p2_loop r val = None"
proof (rule ccontr)
  assume "next_p2_loop r val \<noteq> None"
  then obtain x where x: "next_p2_loop r val = Some x" by blast
  have "2 ^ 63 < val \<longrightarrow> (r = 0 \<or> (\<exists>k\<le>63. r = 2 ^ k)) \<longrightarrow> False"
  proof (rule next_p2_loop.raw_induct [where
        P = "\<lambda>r val x. 2 ^ 63 < val \<longrightarrow> (r = 0 \<or> (\<exists>k\<le>63. r = 2 ^ k)) \<longrightarrow> False", OF _ x],
      intro impI)
    fix f :: "u64 \<Rightarrow> u64 \<Rightarrow> u64 option" and r val x
    assume IH: "\<And>r val x. f r val = Some x \<Longrightarrow>
        2 ^ 63 < val \<longrightarrow> (r = 0 \<or> (\<exists>k\<le>63. r = 2 ^ k)) \<longrightarrow> False"
      and eq: "(if val > r then f (push_bit 1 r) val else Some r) = Some x"
      and big: "2 ^ 63 < val" and shape: "r = 0 \<or> (\<exists>k\<le>63. r = 2 ^ k)"
    have "r \<le> 2 ^ 63"
      using shape power_increasing [of _ 63 "2 :: nat"] by (auto simp: word_le_nat_alt unat_p2)
    then have "r < val" using big by simp
    with eq have f: "f (push_bit 1 r) val = Some x" by simp
    have "push_bit 1 r = 0 \<or> (\<exists>k\<le>63. push_bit 1 r = 2 ^ k)"
    proof (cases "r = 0 \<or> r = 2 ^ 63")
      case True
      then show ?thesis by auto
    next
      case False
      with shape obtain k where "k \<le> 63" and k: "r = 2 ^ k" and "k \<noteq> 63" by blast
      then have "Suc k \<le> 63" and "push_bit 1 r = 2 ^ Suc k"
        by (simp_all add: push_bit_eq_mult)
      then show ?thesis by blast
    qed
    then show False using IH [OF f] big by blast
  qed
  then show False using assms by blast
qed

lemma next_p2_eq:
  "next_p2 val = (if val \<le> 2 ^ 63 then Some (2 ^ (LEAST m. unat val \<le> 2 ^ m)) else None)"
proof (cases "val \<le> 2 ^ 63")
  case True
  obtain m where m: "m \<le> 63" "next_p2_loop 1 val = Some (2 ^ m)" "val \<le> 2 ^ m"
      "\<forall>j<m. 2 ^ j < unat val"
    using next_p2_loop_power [of 0 val] True by auto
  have "unat val \<le> 2 ^ m" using m(1,3) by (simp add: word_le_nat_alt unat_p2)
  then have "(LEAST m. unat val \<le> 2 ^ m) = m"
    using m(4) by (intro Least_equality) (auto simp: not_le [symmetric])
  then show ?thesis using True m(2) by (simp add: next_p2_def)
next
  case False
  then have "next_p2_loop (2 ^ 0) val = None"
    by (intro next_p2_loop_diverges) (auto simp: not_le)
  then show ?thesis using False by (simp add: next_p2_def)
qed
section \<open>Properties\<close>

text \<open>
  C26. The generator never merges two states: stepping romuDuoJr (64-bit builds) and RomuTrio32
  (32-bit builds) is injective on the seed words, so no seed leads into the orbit of another.
\<close>

theorem rand_next_injective: "inj romu_step \<and> inj (snd \<circ> rand_next_32)"
  by (simp add: romu_step_inj rand_next_32_inj)

text \<open>
  C27. A bounded draw is within its bound: when \<open>rand_below\<close> returns, the value is below the limit
  (and \<open>0\<close> for a limit of \<open>0\<close>), and the only fault it can end in is the abort on a failed read of
  \<open>/dev/urandom\<close>; \<open>rand_below_datalen\<close> keeps the same contract.
\<close>

theorem rand_below_in_range:
  "sound (rand_below n) (\<lambda>v. v < max 1 n) \<and> sound (rand_below_datalen n) (\<lambda>v. v < max 1 n)"
  by (intro conjI rb.draw_sound rbd.draw_sound)

text \<open>
  C7. \<open>rand_below\<close> has no modulo bias: among the raw 64-bit values its loop accepts, every result
  below the limit has exactly the same number of preimages.
\<close>

theorem rand_below_unbiased:
  assumes "v < limit"
  shows "card {r. accepted limit r \<and> unat r mod limit = v} = (2 ^ 64 - 1) div limit"
  using assms by (rule rand_below_uniform_card)

theorem rand_below_unbiased_witness:
  "card {r. accepted 6 r \<and> unat r mod 6 = 5} = 3074457345618258602"
  using rand_below_unbiased [of 5 6] by simp



text \<open>
  C28. \<open>next_p2\<close> returns the least power of two that is at least its argument, for every argument
  up to \<open>2\<^sup>6\<^sup>3\<close>; above that its loop shifts the candidate to zero and never returns.
\<close>

theorem next_p2_least_power:
  "next_p2 val = (if val \<le> 2 ^ 63 then Some (2 ^ (LEAST m. unat val \<le> 2 ^ m)) else None)"
  by (rule next_p2_eq)

end
