(* ===== verification/AFL_Mutations.thy ===== *)
theory AFL_Mutations
  imports AFL_Mut_Tables AFL_Rng "HOL-Library.Multiset" "HOL-Library.Signed_Division"
begin

text \<open>
  The havoc mutator of \<open>include/afl-mutations.h\<close>: \<open>choose_block_len\<close> and \<open>afl_mutate\<close>, one
  definition per \<open>case\<close> of its switch.

  \<^item> \<open>mut_env\<close> holds what a call only reads: the fields of \<open>afl_state_t\<close> (\<open>queue_cycle\<close>,
    \<open>run_over10m\<close>, \<open>extras\<close>, \<open>a_extras\<close>) and the arguments \<open>splice_buf\<close>, \<open>splice_len\<close>, \<open>max_len\<close>.
    \<open>mut_state\<close> holds what it changes: the buffer, the length in use and the static \<open>tmp_buf\<close>.
  \<^item> A case ends in \<open>Done\<close> (\<open>break\<close>) or \<open>Retry\<close> (\<open>goto retry_havoc_step\<close>).
  \<^item> The lemmas on these definitions are in \<open>AFL_Mut_Spec\<close> (each case) and \<open>AFL_Havoc\<close> (the loop).
\<close>

section \<open>State\<close>

record extra_data =
  ex_data :: bytes
  ex_len :: nat
  ex_hit_cnt :: nat

record mut_env =
  queue_cycle :: nat
  run_over10m :: bool
  extras :: "extra_data list"
  a_extras :: "extra_data list"
  splice_buf :: "bytes option"
  splice_len :: nat
  max_len :: nat

record mut_state =
  mbuf :: bytes
  mlen :: nat
  tmp_buf :: bytes

datatype outcome = Done mut_state | Retry

section \<open>Block lengths\<close>

definition choose_block_len :: "mut_env \<Rightarrow> nat \<Rightarrow> (rng_state, nat) comp" where
  "choose_block_len env limit =
     (let rlim = min (queue_cycle env) 3;
          rlim = (if \<not> run_over10m env then 1 else rlim)
      in bnd (rand_below rlim) (\<lambda>k.
         bnd (if k = 0 then ret (1, HAVOC_BLK_SMALL)
              else if k = 1 then ret (HAVOC_BLK_SMALL, HAVOC_BLK_MEDIUM)
              else bnd (rand_below 10) (\<lambda>c.
                if c \<noteq> 0 then ret (HAVOC_BLK_MEDIUM, HAVOC_BLK_LARGE)
                else ret (HAVOC_BLK_LARGE, HAVOC_BLK_XL)))
         (\<lambda>(min_value, max_value).
           let min_value = (if min_value \<ge> limit then 1 else min_value)
           in bnd (rand_below (u32_add (u32_sub (min max_value limit) min_value) 1)) (\<lambda>r.
              ret (u32_add min_value r)))))"

section \<open>Single bytes and words\<close>

text \<open>A read-modify-write of one byte at a random offset.\<close>

definition mut_byte :: "nat \<Rightarrow> (u8 \<Rightarrow> u8) \<Rightarrow> mut_state \<Rightarrow> (rng_state, outcome) comp" where
  "mut_byte off f m =
     bnd (chk (load (mbuf m) off)) (\<lambda>b.
     bnd (chk (store (mbuf m) off (f b))) (\<lambda>buf.
     ret (Done (m\<lparr>mbuf := buf\<rparr>))))"

definition mut_flipbit :: "mut_state \<Rightarrow> (rng_state, outcome) comp" where
  "mut_flipbit m =
     bnd (rand_below 8) (\<lambda>b.
     bnd (rand_below (mlen m)) (\<lambda>off.
     mut_byte off (\<lambda>x. x XOR push_bit b 1) m))"

definition mut_interesting8 :: "mut_state \<Rightarrow> (rng_state, outcome) comp" where
  "mut_interesting8 m =
     bnd (rand_below (length interesting_8)) (\<lambda>item.
     bnd (rand_below (mlen m)) (\<lambda>off.
     bnd (chk (load interesting_8 item)) (\<lambda>v.
     bnd (chk (store (mbuf m) off (word_of_int v))) (\<lambda>buf.
     ret (Done (m\<lparr>mbuf := buf\<rparr>))))))"

definition mut_interesting16 :: "(u16 \<Rightarrow> u16) \<Rightarrow> mut_state \<Rightarrow> (rng_state, outcome) comp" where
  "mut_interesting16 swap m =
     (if mlen m < 2 then ret (Done m)
      else bnd (rand_below (length interesting_16)) (\<lambda>item.
           bnd (rand_below (u32_sub (mlen m) 1)) (\<lambda>pos.
           bnd (chk (load interesting_16 item)) (\<lambda>v.
           bnd (chk (INSERT16 (mbuf m) pos (swap (word_of_int v)))) (\<lambda>buf.
           ret (Done (m\<lparr>mbuf := buf\<rparr>)))))))"

definition mut_interesting32 :: "(u32 \<Rightarrow> u32) \<Rightarrow> mut_state \<Rightarrow> (rng_state, outcome) comp" where
  "mut_interesting32 swap m =
     (if mlen m < 4 then ret (Done m)
      else bnd (rand_below (length interesting_32)) (\<lambda>item.
           bnd (rand_below (u32_sub (mlen m) 3)) (\<lambda>pos.
           bnd (chk (load interesting_32 item)) (\<lambda>v.
           bnd (chk (INSERT32 (mbuf m) pos (swap (word_of_int v)))) (\<lambda>buf.
           ret (Done (m\<lparr>mbuf := buf\<rparr>)))))))"

definition mut_arith8_sub :: "mut_state \<Rightarrow> (rng_state, outcome) comp" where
  "mut_arith8_sub m =
     bnd (rand_below ARITH_MAX) (\<lambda>r. let item = 1 + r in
     bnd (rand_below (mlen m)) (\<lambda>off.
     mut_byte off (\<lambda>x. x - of_nat item) m))"

definition mut_arith8 :: "mut_state \<Rightarrow> (rng_state, outcome) comp" where
  "mut_arith8 m =
     bnd (rand_below ARITH_MAX) (\<lambda>r. let item = 1 + r in
     bnd (rand_below (mlen m)) (\<lambda>off.
     mut_byte off (\<lambda>x. x + of_nat item) m))"

text \<open>The four 16-bit and the four 32-bit arithmetic cases differ in what they write back.\<close>

definition mut_arith16 :: "(u16 \<Rightarrow> u16 \<Rightarrow> u16) \<Rightarrow> mut_state \<Rightarrow> (rng_state, outcome) comp" where
  "mut_arith16 f m =
     (if mlen m < 2 then ret (Done m)
      else bnd (rand_below (u32_sub (mlen m) 1)) (\<lambda>pos.
           bnd (rand_below ARITH_MAX) (\<lambda>r. let item = 1 + r in
           bnd (chk (EXTRACT16 (mbuf m) pos)) (\<lambda>x.
           bnd (chk (INSERT16 (mbuf m) pos (f x (of_nat item)))) (\<lambda>buf.
           ret (Done (m\<lparr>mbuf := buf\<rparr>)))))))"

definition mut_arith32 :: "(u32 \<Rightarrow> u32 \<Rightarrow> u32) \<Rightarrow> mut_state \<Rightarrow> (rng_state, outcome) comp" where
  "mut_arith32 f m =
     (if mlen m < 4 then ret (Done m)
      else bnd (rand_below (u32_sub (mlen m) 3)) (\<lambda>pos.
           bnd (rand_below ARITH_MAX) (\<lambda>r. let item = 1 + r in
           bnd (chk (EXTRACT32 (mbuf m) pos)) (\<lambda>x.
           bnd (chk (INSERT32 (mbuf m) pos (f x (of_nat item)))) (\<lambda>buf.
           ret (Done (m\<lparr>mbuf := buf\<rparr>)))))))"

definition arith16_sub :: "u16 \<Rightarrow> u16 \<Rightarrow> u16" where "arith16_sub x item = x - item"
definition arith16be_sub :: "u16 \<Rightarrow> u16 \<Rightarrow> u16" where
  "arith16be_sub x item = SWAP16 (SWAP16 x - item)"
definition arith16_add :: "u16 \<Rightarrow> u16 \<Rightarrow> u16" where "arith16_add x item = x + item"
definition arith16be_add :: "u16 \<Rightarrow> u16 \<Rightarrow> u16" where
  "arith16be_add x item = SWAP16 (SWAP16 x + item)"
definition arith32_sub :: "u32 \<Rightarrow> u32 \<Rightarrow> u32" where "arith32_sub x item = x - item"
definition arith32be_sub :: "u32 \<Rightarrow> u32 \<Rightarrow> u32" where
  "arith32be_sub x item = SWAP32 (SWAP32 x - item)"
definition arith32_add :: "u32 \<Rightarrow> u32 \<Rightarrow> u32" where "arith32_add x item = x + item"

text \<open>The source's parentheses put the addition inside both swaps.\<close>

definition arith32be_add :: "u32 \<Rightarrow> u32 \<Rightarrow> u32" where
  "arith32be_add x item = SWAP32 (SWAP32 (x + item))"

definition mut_rand8 :: "mut_state \<Rightarrow> (rng_state, outcome) comp" where
  "mut_rand8 m =
     bnd (rand_below (mlen m)) (\<lambda>pos.
     bnd (rand_below 255) (\<lambda>r. let item = 1 + r in
     mut_byte pos (\<lambda>x. x XOR of_nat item) m))"

definition mut_byteadd :: "mut_state \<Rightarrow> (rng_state, outcome) comp" where
  "mut_byteadd m = bnd (rand_below (mlen m)) (\<lambda>off. mut_byte off (\<lambda>x. x + 1) m)"

definition mut_bytesub :: "mut_state \<Rightarrow> (rng_state, outcome) comp" where
  "mut_bytesub m = bnd (rand_below (mlen m)) (\<lambda>off. mut_byte off (\<lambda>x. x - 1) m)"

definition mut_flip8 :: "mut_state \<Rightarrow> (rng_state, outcome) comp" where
  "mut_flip8 m = bnd (rand_below (mlen m)) (\<lambda>off. mut_byte off (\<lambda>x. x XOR 0xff) m)"

section \<open>Blocks\<close>

text \<open>
  The sequence head, inserted part, tail, new length, copy back of the inserting cases. The
  inserted part is written by \<open>ins\<close>, a \<open>memcpy\<close> or a \<open>memset\<close> into \<open>tmp_buf\<close>.
\<close>

definition insert_block ::
  "mut_state \<Rightarrow> nat \<Rightarrow> nat \<Rightarrow> (bytes \<Rightarrow> fault + bytes) \<Rightarrow> fault + mut_state" where
  "insert_block m clone_to clone_len ins =
     fbind (memcpy (tmp_buf m) 0 (mbuf m) 0 clone_to) (\<lambda>tmp.
     fbind (ins tmp) (\<lambda>tmp.
     fbind (memcpy tmp (clone_to + clone_len) (mbuf m) clone_to (u32_sub (mlen m) clone_to)) (\<lambda>tmp.
     let len = u32_add (mlen m) clone_len in
     fbind (memcpy (mbuf m) 0 tmp 0 len) (\<lambda>buf.
     Inr (m\<lparr>mbuf := buf, mlen := len, tmp_buf := tmp\<rparr>)))))"

definition mut_clone_copy :: "mut_env \<Rightarrow> mut_state \<Rightarrow> (rng_state, outcome) comp" where
  "mut_clone_copy env m =
     (if u32_add (mlen m) HAVOC_BLK_XL < max_len env then
        bnd (choose_block_len env (mlen m)) (\<lambda>clone_len.
        bnd (rand_below (u32_add (u32_sub (mlen m) clone_len) 1)) (\<lambda>clone_from.
        bnd (rand_below (mlen m)) (\<lambda>clone_to.
        bnd (chk (insert_block m clone_to clone_len
                   (\<lambda>tmp. memcpy tmp clone_to (mbuf m) clone_from clone_len))) (\<lambda>m.
        ret (Done m)))))
      else if mlen m < 8 then ret (Done m)
      else ret Retry)"

definition mut_clone_fixed :: "mut_env \<Rightarrow> mut_state \<Rightarrow> (rng_state, outcome) comp" where
  "mut_clone_fixed env m =
     (if u32_add (mlen m) HAVOC_BLK_XL < max_len env then
        bnd (choose_block_len env HAVOC_BLK_XL) (\<lambda>clone_len.
        bnd (rand_below (mlen m)) (\<lambda>clone_to.
        bnd (rand_below 2) (\<lambda>strat.
        let clone_from = (if clone_to \<noteq> 0 then clone_to - 1 else 0) in
        bnd (if strat \<noteq> 0 then bnd (rand_below 256) (\<lambda>r. ret (of_nat r))
             else chk (load (mbuf m) clone_from)) (\<lambda>item.
        bnd (chk (insert_block m clone_to clone_len
                   (\<lambda>tmp. memset tmp clone_to item clone_len))) (\<lambda>m.
        ret (Done m))))))
      else if mlen m < 8 then ret (Done m)
      else ret Retry)"

definition mut_overwrite_copy :: "mut_env \<Rightarrow> mut_state \<Rightarrow> (rng_state, outcome) comp" where
  "mut_overwrite_copy env m =
     (if mlen m < 2 then ret (Done m)
      else bnd (choose_block_len env (u32_sub (mlen m) 1)) (\<lambda>copy_len.
           bnd (rand_below (u32_add (u32_sub (mlen m) copy_len) 1)) (\<lambda>copy_from.
           bnd (rand_below (u32_add (u32_sub (mlen m) copy_len) 1)) (\<lambda>copy_to.
           if copy_from \<noteq> copy_to then
             bnd (chk (memmove (mbuf m) copy_to copy_from copy_len)) (\<lambda>buf.
             ret (Done (m\<lparr>mbuf := buf\<rparr>)))
           else ret (Done m)))))"

definition mut_overwrite_fixed :: "mut_env \<Rightarrow> mut_state \<Rightarrow> (rng_state, outcome) comp" where
  "mut_overwrite_fixed env m =
     (if mlen m < 2 then ret (Done m)
      else bnd (choose_block_len env (u32_sub (mlen m) 1)) (\<lambda>copy_len.
           bnd (rand_below (u32_add (u32_sub (mlen m) copy_len) 1)) (\<lambda>copy_to.
           bnd (rand_below 2) (\<lambda>strat.
           let copy_from = (if copy_to \<noteq> 0 then copy_to - 1 else 0) in
           bnd (if strat \<noteq> 0 then bnd (rand_below 256) (\<lambda>r. ret (of_nat r))
                else chk (load (mbuf m) copy_from)) (\<lambda>item.
           bnd (chk (memset (mbuf m) copy_to item copy_len)) (\<lambda>buf.
           ret (Done (m\<lparr>mbuf := buf\<rparr>))))))))"

text \<open>\<open>do { j = rand_below(afl, n); } while (i == j);\<close>\<close>

partial_function (option) draw_other ::
  "nat \<Rightarrow> nat \<Rightarrow> rng_state \<Rightarrow> (fault + nat \<times> rng_state) option" where
  "draw_other n i s =
     bnd (rand_below n) (\<lambda>j s. if i = j then draw_other n i s else ret j s) s"

definition mut_switch :: "mut_env \<Rightarrow> mut_state \<Rightarrow> (rng_state, outcome) comp" where
  "mut_switch env m =
     (if mlen m < 4 then ret (Done m)
      else bnd (rand_below (mlen m)) (\<lambda>switch_from.
           bnd (draw_other (mlen m) switch_from) (\<lambda>switch_to.
           let (switch_len, to_end) =
             (if switch_from < switch_to
              then (u32_sub switch_to switch_from, u32_sub (mlen m) switch_to)
              else (u32_sub switch_from switch_to, u32_sub (mlen m) switch_from)) in
           bnd (choose_block_len env (min switch_len to_end)) (\<lambda>switch_len.
           bnd (chk (memcpy (tmp_buf m) 0 (mbuf m) switch_from switch_len)) (\<lambda>tmp.
           bnd (chk (memcpy_in (mbuf m) switch_from switch_to switch_len)) (\<lambda>buf.
           bnd (chk (memcpy buf switch_to tmp 0 switch_len)) (\<lambda>buf.
           ret (Done (m\<lparr>mbuf := buf, tmp_buf := tmp\<rparr>)))))))))"

text \<open>\<open>memmove(buf + del_from, buf + del_from + del_len, len - del_from - del_len); len -= del_len;\<close>\<close>

definition del_block :: "mut_state \<Rightarrow> nat \<Rightarrow> nat \<Rightarrow> fault + mut_state" where
  "del_block m del_from del_len =
     fbind (memmove (mbuf m) del_from (del_from + del_len)
              (u32_sub (u32_sub (mlen m) del_from) del_len)) (\<lambda>buf.
     Inr (m\<lparr>mbuf := buf, mlen := u32_sub (mlen m) del_len\<rparr>))"

definition mut_del :: "mut_env \<Rightarrow> mut_state \<Rightarrow> (rng_state, outcome) comp" where
  "mut_del env m =
     (if mlen m < 2 then ret (Done m)
      else bnd (choose_block_len env (u32_sub (mlen m) 1)) (\<lambda>del_len.
           bnd (rand_below (u32_add (u32_sub (mlen m) del_len) 1)) (\<lambda>del_from.
           bnd (chk (del_block m del_from del_len)) (\<lambda>m. ret (Done m)))))"

fun shuffle_loop :: "nat \<Rightarrow> nat \<Rightarrow> bytes \<Rightarrow> (rng_state, bytes) comp" where
  "shuffle_loop off 0 buf = ret buf"
| "shuffle_loop off (Suc i) buf =
     bnd (draw_other (Suc i + 1) (Suc i)) (\<lambda>j.
     bnd (chk (load buf (off + Suc i))) (\<lambda>temp.
     bnd (chk (load buf (off + j))) (\<lambda>x.
     bnd (chk (store buf (off + Suc i) x)) (\<lambda>buf.
     bnd (chk (store buf (off + j) temp)) (\<lambda>buf.
     shuffle_loop off i buf)))))"

definition mut_shuffle :: "mut_env \<Rightarrow> mut_state \<Rightarrow> (rng_state, outcome) comp" where
  "mut_shuffle env m =
     (if mlen m < 4 then ret (Done m)
      else bnd (choose_block_len env (u32_sub (mlen m) 1)) (\<lambda>blen.
           bnd (rand_below (u32_add (u32_sub (mlen m) blen) 1)) (\<lambda>off.
           bnd (shuffle_loop off (u32_sub blen 1) (mbuf m)) (\<lambda>buf.
           ret (Done (m\<lparr>mbuf := buf\<rparr>))))))"

definition mut_delone :: "mut_state \<Rightarrow> (rng_state, outcome) comp" where
  "mut_delone m =
     (if mlen m < 2 then ret (Done m)
      else let del_len = 1 in
           bnd (rand_below (u32_add (u32_sub (mlen m) del_len) 1)) (\<lambda>del_from.
           bnd (chk (del_block m del_from del_len)) (\<lambda>m. ret (Done m))))"

definition mut_insertone :: "mut_env \<Rightarrow> mut_state \<Rightarrow> (rng_state, outcome) comp" where
  "mut_insertone env m =
     (if mlen m < 2 then ret (Done m)
      else let clone_len = 1 in
        if u32_add (mlen m) clone_len > max_len env then ret Retry
        else
          bnd (rand_below (mlen m)) (\<lambda>clone_to.
          bnd (rand_below 2) (\<lambda>strat.
          let clone_from = (if clone_to \<noteq> 0 then clone_to - 1 else 0) in
          bnd (if strat \<noteq> 0 then bnd (rand_below 256) (\<lambda>r. ret (of_nat r))
               else chk (load (mbuf m) clone_from)) (\<lambda>item.
          bnd (chk (insert_block m clone_to clone_len
                     (\<lambda>tmp. memset tmp clone_to item clone_len))) (\<lambda>m.
          ret (Done m))))))"

section \<open>Decimal numbers\<close>

definition isdigit :: "u8 \<Rightarrow> bool" where
  "isdigit b \<longleftrightarrow> 48 \<le> b \<and> b \<le> 57"

definition INT64_MAX :: int where "INT64_MAX = 2 ^ 63 - 1"
definition INT64_MIN :: int where "INT64_MIN = - (2 ^ 63)"

text \<open>The result of a signed 64-bit operation; leaving the range is a fault.\<close>

definition s64 :: "int \<Rightarrow> fault + int" where
  "s64 v = (if INT64_MIN \<le> v \<and> v \<le> INT64_MAX then Inr v else Inl Signed_overflow)"

text \<open>Decimal output of \<open>printf\<close>, cut to the \<open>31\<close> characters that fit \<open>numbuf\<close>.\<close>

fun dec_nat :: "nat \<Rightarrow> bytes" where
  "dec_nat n = (if n < 10 then [of_nat (48 + n)] else dec_nat (n div 10) @ [of_nat (48 + n mod 10)])"

definition dec_int :: "int \<Rightarrow> bytes" where
  "dec_int v = (if v < 0 then 45 # dec_nat (nat (- v)) else dec_nat (nat v))"

definition snprintf_dec :: "int \<Rightarrow> bytes" where
  "snprintf_dec v = take 31 (dec_int v)"

text \<open>The scanning loops; the loop variable is \<open>off2 + cnt\<close> and \<open>off2\<close> respectively.\<close>

function skip_nondigits :: "bytes \<Rightarrow> nat \<Rightarrow> nat \<Rightarrow> fault + nat" where
  "skip_nondigits buf i stop =
     (if i < stop then
        fbind (load buf i) (\<lambda>b. if \<not> isdigit b then skip_nondigits buf (Suc i) stop else Inr i)
      else Inr i)"
  by pat_completeness auto
termination by (relation "measure (\<lambda>(buf, i, stop). stop - i)") auto

function skip_digits :: "bytes \<Rightarrow> nat \<Rightarrow> nat \<Rightarrow> fault + nat" where
  "skip_digits buf i stop =
     (if i < stop then
        fbind (load buf i) (\<lambda>b. if isdigit b then skip_digits buf (Suc i) stop else Inr i)
      else Inr i)"
  by pat_completeness auto
termination by (relation "measure (\<lambda>(buf, i, stop). stop - i)") auto

text \<open>The parsing loop: the value so far and the end of the digits it stands for.\<close>

function parse_loop :: "bytes \<Rightarrow> nat \<Rightarrow> nat \<Rightarrow> int \<Rightarrow> fault + int \<times> nat" where
  "parse_loop buf i off2 val =
     (if i < off2 then
        fbind (load buf i) (\<lambda>b.
        let digit = uint (b - 48) in
        if val > INT64_MAX sdiv 10 then Inr (val, i)
        else fbind (s64 (val * 10)) (\<lambda>valx10.
          if valx10 > INT64_MAX - digit then Inr (val, i)
          else fbind (s64 (valx10 + digit)) (\<lambda>val. parse_loop buf (Suc i) off2 val)))
      else Inr (val, off2))"
  by pat_completeness auto
termination by (relation "measure (\<lambda>(buf, i, off2, val). off2 - i)") auto

text \<open>The eight strategies: new value and new end.\<close>

definition asciinum_strat :: "nat \<Rightarrow> int \<Rightarrow> nat \<Rightarrow> (rng_state, int \<times> nat) comp" where
  "asciinum_strat strat val off2 =
     (if strat = 0 then
        let (val, off2) = (if val = INT64_MAX then (val sdiv 10, u32_sub off2 1) else (val, off2)) in
        bnd (chk (s64 (val + 1))) (\<lambda>v. ret (v, off2))
      else if strat = 1 then
        let (val, off2) = (if val = INT64_MIN then (val sdiv 10, u32_sub off2 1) else (val, off2)) in
        bnd (chk (s64 (val - 1))) (\<lambda>v. ret (v, off2))
      else if strat = 2 then
        let (val, off2) =
          (if val > INT64_MAX sdiv 2 \<or> val < INT64_MIN sdiv 2 then (val sdiv 10, u32_sub off2 1)
           else (val, off2)) in
        bnd (chk (s64 (val * 2))) (\<lambda>v. ret (v, off2))
      else if strat = 3 then ret (val sdiv 2, off2)
      else if strat = 4 then
        if val \<noteq> 0 \<and> (word_of_int val :: u64) < 0x19999999
        then bnd rand_next (\<lambda>r. ret (sint (r mod (word_of_int val * 10)), off2))
        else bnd (rand_below 256) (\<lambda>r. ret (int r, off2))
      else if strat = 5 then
        let (val, off2) =
          (if val > INT64_MAX - 256 then (val sdiv 10, u32_sub off2 1) else (val, off2)) in
        bnd (rand_below 256) (\<lambda>r. bnd (chk (s64 (val + int r))) (\<lambda>v. ret (v, off2)))
      else if strat = 6 then
        let (val, off2) =
          (if val < INT64_MIN + 256 then (val sdiv 10, u32_sub off2 1) else (val, off2)) in
        bnd (rand_below 256) (\<lambda>r. bnd (chk (s64 (val - int r))) (\<lambda>v. ret (v, off2)))
      else if strat = 7 then ret (NOT val, off2)
      else ret (val, off2))"

text \<open>The digits in \<open>[off, off2)\<close> are replaced by the printed value.\<close>

definition asciinum_store ::
  "mut_env \<Rightarrow> mut_state \<Rightarrow> nat \<Rightarrow> int \<Rightarrow> nat \<Rightarrow> (rng_state, outcome) comp" where
  "asciinum_store env m off val off2 =
     (let numbuf = snprintf_dec val; old_len = u32_sub off2 off; new_len = length numbuf in
      if old_len = new_len then
        bnd (chk (memcpy (mbuf m) off numbuf 0 new_len)) (\<lambda>buf. ret (Done (m\<lparr>mbuf := buf\<rparr>)))
      else if u32_sub (u32_add (u32_add off new_len) (mlen m)) off2 > max_len env then ret Retry
      else
        bnd (chk (memcpy (tmp_buf m) 0 (mbuf m) 0 off)) (\<lambda>tmp.
        bnd (chk (memcpy tmp off numbuf 0 new_len)) (\<lambda>tmp.
        bnd (chk (memcpy tmp (off + new_len) (mbuf m) off2 (u32_sub (mlen m) off2))) (\<lambda>tmp.
        let len = u32_add (mlen m) (u32_sub new_len old_len) in
        bnd (chk (memcpy (mbuf m) 0 tmp 0 len)) (\<lambda>buf.
        ret (Done (m\<lparr>mbuf := buf, mlen := len, tmp_buf := tmp\<rparr>)))))))"

text \<open>The number found at \<open>off\<close> is parsed, changed and written back.\<close>

definition asciinum_at :: "mut_env \<Rightarrow> mut_state \<Rightarrow> nat \<Rightarrow> (rng_state, outcome) comp" where
  "asciinum_at env m off =
     bnd (chk (skip_digits (mbuf m) (u32_add off 1) (mlen m))) (\<lambda>off2.
     bnd (chk (load (mbuf m) off)) (\<lambda>b.
     bnd (chk (parse_loop (mbuf m) (u32_add off 1) off2 (uint b - 48))) (\<lambda>(val, off2).
     bnd (if off \<noteq> 0 then chk (load (mbuf m) (u32_sub off 1)) else ret 0) (\<lambda>p.
     bnd (if off \<noteq> 0 \<and> p = 45 then chk (s64 (- val)) else ret val) (\<lambda>val.
     bnd (rand_below 8) (\<lambda>strat.
     bnd (asciinum_strat strat val off2) (\<lambda>(val, off2).
     asciinum_store env m off val off2)))))))"

definition mut_asciinum :: "mut_env \<Rightarrow> mut_state \<Rightarrow> (rng_state, outcome) comp" where
  "mut_asciinum env m =
     (if mlen m < 4 then ret (Done m)
      else bnd (rand_below (mlen m)) (\<lambda>off.
           bnd (chk (skip_nondigits (mbuf m) off (mlen m))) (\<lambda>i.
           if i = mlen m then
             bnd (chk (skip_nondigits (mbuf m) 0 off)) (\<lambda>i.
             if i = off then (if mlen m < 8 then ret (Done m) else ret Retry)
             else asciinum_at env m i)
           else asciinum_at env m i)))"

definition mut_insertasciinum :: "mut_state \<Rightarrow> (rng_state, outcome) comp" where
  "mut_insertasciinum m =
     bnd (rand_below 8) (\<lambda>r. let ins_len = 1 + r in
     bnd (rand_below (mlen m)) (\<lambda>pos.
     if mlen m < u32_add pos ins_len then
       if mlen m < 8 then ret (Done m) else ret Retry
     else
       bnd rand_next (\<lambda>val.
       let numbuf = snprintf_dec (uint val); val_len = length numbuf;
           (ins_len, off) = (if ins_len > val_len then (val_len, 0) else (ins_len, val_len - ins_len))
       in bnd (chk (memcpy (mbuf m) pos numbuf off ins_len)) (\<lambda>buf.
          ret (Done (m\<lparr>mbuf := buf\<rparr>))))))"

section \<open>Dictionary and splicing\<close>

definition mut_extra_overwrite :: "extra_data list \<Rightarrow> mut_state \<Rightarrow> (rng_state, outcome) comp" where
  "mut_extra_overwrite dict m =
     (if length dict = 0 then ret Retry
      else bnd (rand_below (length dict)) (\<lambda>use_extra.
           bnd (chk (load dict use_extra)) (\<lambda>e. let extra_len = ex_len e in
           if extra_len > mlen m then ret Retry
           else bnd (rand_below (u32_add (u32_sub (mlen m) extra_len) 1)) (\<lambda>insert_at.
                bnd (chk (memcpy (mbuf m) insert_at (ex_data e) 0 extra_len)) (\<lambda>buf.
                ret (Done (m\<lparr>mbuf := buf\<rparr>)))))))"

definition mut_extra_insert ::
  "mut_env \<Rightarrow> extra_data list \<Rightarrow> mut_state \<Rightarrow> (rng_state, outcome) comp" where
  "mut_extra_insert env dict m =
     (if length dict = 0 then ret Retry
      else bnd (rand_below (length dict)) (\<lambda>use_extra.
           bnd (chk (load dict use_extra)) (\<lambda>e. let extra_len = ex_len e in
           if u32_add (mlen m) extra_len > max_len env then ret Retry
           else bnd (rand_below (u32_add (mlen m) 1)) (\<lambda>insert_at.
                bnd (chk (memmove (mbuf m) (insert_at + extra_len) insert_at
                           (u32_sub (mlen m) insert_at))) (\<lambda>buf.
                bnd (chk (memcpy buf insert_at (ex_data e) 0 extra_len)) (\<lambda>buf.
                ret (Done (m\<lparr>mbuf := buf, mlen := u32_add (mlen m) extra_len\<rparr>))))))))"

definition mut_splice_overwrite :: "mut_env \<Rightarrow> mut_state \<Rightarrow> (rng_state, outcome) comp" where
  "mut_splice_overwrite env m =
     (case splice_buf env of
        None \<Rightarrow> ret Retry
      | Some sp \<Rightarrow>
          if splice_len env = 0 then ret Retry
          else bnd (choose_block_len env (u32_sub (splice_len env) 1)) (\<lambda>copy_len.
               let copy_len = (if copy_len > mlen m then mlen m else copy_len) in
               bnd (rand_below (u32_add (u32_sub (splice_len env) copy_len) 1)) (\<lambda>copy_from.
               bnd (rand_below (u32_add (u32_sub (mlen m) copy_len) 1)) (\<lambda>copy_to.
               bnd (chk (memcpy (mbuf m) copy_to sp copy_from copy_len)) (\<lambda>buf.
               ret (Done (m\<lparr>mbuf := buf\<rparr>)))))))"

definition mut_splice_insert :: "mut_env \<Rightarrow> mut_state \<Rightarrow> (rng_state, outcome) comp" where
  "mut_splice_insert env m =
     (case splice_buf env of
        None \<Rightarrow> ret Retry
      | Some sp \<Rightarrow>
          if splice_len env = 0 then ret Retry
          else if u32_add (mlen m) HAVOC_BLK_XL > max_len env then ret Retry
          else bnd (choose_block_len env (splice_len env)) (\<lambda>clone_len.
               bnd (rand_below (u32_add (u32_sub (splice_len env) clone_len) 1)) (\<lambda>clone_from.
               bnd (rand_below (u32_add (mlen m) 1)) (\<lambda>clone_to.
               bnd (chk (insert_block m clone_to clone_len
                          (\<lambda>tmp. memcpy tmp clone_to sp clone_from clone_len))) (\<lambda>m.
               ret (Done m))))))"

section \<open>The havoc loop\<close>

fun mut_apply :: "mut_env \<Rightarrow> mutator \<Rightarrow> mut_state \<Rightarrow> (rng_state, outcome) comp" where
  "mut_apply env MUT_FLIPBIT m = mut_flipbit m"
| "mut_apply env MUT_INTERESTING8 m = mut_interesting8 m"
| "mut_apply env MUT_INTERESTING16 m = mut_interesting16 id m"
| "mut_apply env MUT_INTERESTING16BE m = mut_interesting16 SWAP16 m"
| "mut_apply env MUT_INTERESTING32 m = mut_interesting32 id m"
| "mut_apply env MUT_INTERESTING32BE m = mut_interesting32 SWAP32 m"
| "mut_apply env MUT_ARITH8_SUB m = mut_arith8_sub m"
| "mut_apply env MUT_ARITH8 m = mut_arith8 m"
| "mut_apply env MUT_ARITH16_SUB m = mut_arith16 arith16_sub m"
| "mut_apply env MUT_ARITH16BE_SUB m = mut_arith16 arith16be_sub m"
| "mut_apply env MUT_ARITH16 m = mut_arith16 arith16_add m"
| "mut_apply env MUT_ARITH16BE m = mut_arith16 arith16be_add m"
| "mut_apply env MUT_ARITH32_SUB m = mut_arith32 arith32_sub m"
| "mut_apply env MUT_ARITH32BE_SUB m = mut_arith32 arith32be_sub m"
| "mut_apply env MUT_ARITH32 m = mut_arith32 arith32_add m"
| "mut_apply env MUT_ARITH32BE m = mut_arith32 arith32be_add m"
| "mut_apply env MUT_RAND8 m = mut_rand8 m"
| "mut_apply env MUT_CLONE_COPY m = mut_clone_copy env m"
| "mut_apply env MUT_CLONE_FIXED m = mut_clone_fixed env m"
| "mut_apply env MUT_OVERWRITE_COPY m = mut_overwrite_copy env m"
| "mut_apply env MUT_OVERWRITE_FIXED m = mut_overwrite_fixed env m"
| "mut_apply env MUT_BYTEADD m = mut_byteadd m"
| "mut_apply env MUT_BYTESUB m = mut_bytesub m"
| "mut_apply env MUT_FLIP8 m = mut_flip8 m"
| "mut_apply env MUT_SWITCH m = mut_switch env m"
| "mut_apply env MUT_DEL m = mut_del env m"
| "mut_apply env MUT_SHUFFLE m = mut_shuffle env m"
| "mut_apply env MUT_DELONE m = mut_delone m"
| "mut_apply env MUT_INSERTONE m = mut_insertone env m"
| "mut_apply env MUT_ASCIINUM m = mut_asciinum env m"
| "mut_apply env MUT_INSERTASCIINUM m = mut_insertasciinum m"
| "mut_apply env MUT_EXTRA_OVERWRITE m = mut_extra_overwrite (extras env) m"
| "mut_apply env MUT_EXTRA_INSERT m = mut_extra_insert env (extras env) m"
| "mut_apply env MUT_AUTO_EXTRA_OVERWRITE m = mut_extra_overwrite (a_extras env) m"
| "mut_apply env MUT_AUTO_EXTRA_INSERT m = mut_extra_insert env (a_extras env) m"
| "mut_apply env MUT_SPLICE_OVERWRITE m = mut_splice_overwrite env m"
| "mut_apply env MUT_SPLICE_INSERT m = mut_splice_insert env m"

partial_function (option) havoc_step ::
  "mut_env \<Rightarrow> mutator list \<Rightarrow> mut_state \<Rightarrow> rng_state \<Rightarrow> (fault + mut_state \<times> rng_state) option" where
  "havoc_step env mutation_array m s =
     bnd (rand_below MUT_STRATEGY_ARRAY_SIZE) (\<lambda>r.
     bnd (chk (load mutation_array r)) (\<lambda>op.
     bnd (mut_apply env op m) (\<lambda>out s.
       case out of Done m' \<Rightarrow> ret m' s | Retry \<Rightarrow> havoc_step env mutation_array m s))) s"

fun havoc_loop :: "mut_env \<Rightarrow> mutator list \<Rightarrow> nat \<Rightarrow> mut_state \<Rightarrow> (rng_state, mut_state) comp" where
  "havoc_loop env mutation_array 0 m = ret m"
| "havoc_loop env mutation_array (Suc steps) m =
     bnd (havoc_step env mutation_array m) (\<lambda>m. havoc_loop env mutation_array steps m)"

definition mutation_array :: "bool \<Rightarrow> bool \<Rightarrow> mutator list" where
  "mutation_array is_text is_exploration =
     (if is_text then
        if is_exploration then mutation_strategy_exploration_text
        else mutation_strategy_exploitation_text
      else
        if is_exploration then mutation_strategy_exploration_binary
        else mutation_strategy_exploitation_binary)"

text \<open>
  \<open>realloc\<close> stands for \<open>realloc\<close> and, on the empty list that a null \<open>tmp_buf\<close> is, \<open>malloc\<close>; \<open>None\<close>
  is a failed allocation. \<open>tmp_buf_size\<close> is the length of \<open>tmp_buf\<close>. The result is the buffer, the
  returned length and the new \<open>tmp_buf\<close>.
\<close>

definition afl_mutate ::
  "(bytes \<Rightarrow> nat \<Rightarrow> bytes option) \<Rightarrow> mut_env \<Rightarrow> bytes \<Rightarrow> bytes option \<Rightarrow> nat \<Rightarrow> nat \<Rightarrow> bool \<Rightarrow> bool \<Rightarrow>
     (rng_state, bytes option \<times> nat \<times> bytes) comp" where
  "afl_mutate realloc env tmp buf len steps is_text is_exploration =
     (case buf of
        None \<Rightarrow> ret (None, 0, tmp)
      | Some b \<Rightarrow>
          if len = 0 then ret (Some b, 0, tmp)
          else
            let grown = (if max_len env > length tmp then realloc tmp (max_len env) else Some tmp)
            in (case grown of
                 None \<Rightarrow> ret (Some b, 0, tmp)
               | Some tmp \<Rightarrow>
                   bnd (havoc_loop env (mutation_array is_text is_exploration) steps
                          \<lparr>mbuf = b, mlen = len, tmp_buf = tmp\<rparr>) (\<lambda>m.
                   ret (Some (mbuf m), mlen m, tmp_buf m))))"

end
