(* ===== verification/AFL_Mut_Spec.thy ===== *)
theory AFL_Mut_Spec
  imports AFL_Mutations
begin

text \<open>
  The abstract specification of the havoc operators and the proof that every case of
  \<open>afl_mutate\<close> implements it. \<open>havoc_edit\<close> relates the bytes of the input before and after one
  operator; \<open>env_ok\<close> and \<open>mut_ok\<close> are the guarantees of the caller and the invariant of the loop.
  Each lemma \<open>sound_x\<close> shows of one case that it stays inside its buffers, keeps the invariant and
  the sizes of the allocations, and performs its edit.
\<close>

section \<open>Abstract specification\<close>

text \<open>Operators that leave an input shorter than this bound unchanged instead of retrying.\<close>

fun skip_below :: "mutator \<Rightarrow> nat" where
  "skip_below op =
     (if op \<in> {MUT_INTERESTING16, MUT_INTERESTING16BE, MUT_ARITH16_SUB, MUT_ARITH16BE_SUB,
               MUT_ARITH16, MUT_ARITH16BE, MUT_OVERWRITE_COPY, MUT_OVERWRITE_FIXED, MUT_DEL,
               MUT_DELONE, MUT_INSERTONE} then 2
      else if op \<in> {MUT_INTERESTING32, MUT_INTERESTING32BE, MUT_ARITH32_SUB, MUT_ARITH32BE_SUB,
                    MUT_ARITH32, MUT_ARITH32BE, MUT_SWITCH, MUT_SHUFFLE} then 4
      else if op \<in> {MUT_CLONE_COPY, MUT_CLONE_FIXED, MUT_ASCIINUM, MUT_INSERTASCIINUM} then 8
      else 0)"

text \<open>
  \<open>havoc_edit env op xs ys\<close>: one application of \<open>op\<close> may turn the input \<open>xs\<close> into \<open>ys\<close>. The rule
  \<open>arith32be\<close> states what the code does, which is a little-endian addition.
\<close>

inductive havoc_edit :: "mut_env \<Rightarrow> mutator \<Rightarrow> bytes \<Rightarrow> bytes \<Rightarrow> bool" for env where
  skip: "length xs < skip_below op \<Longrightarrow> havoc_edit env op xs xs"
| flipbit: "i < length xs \<Longrightarrow> b < 8 \<Longrightarrow>
    havoc_edit env MUT_FLIPBIT xs (xs[i := xs ! i XOR push_bit b 1])"
| interesting8: "i < length xs \<Longrightarrow> v \<in> set interesting_8 \<Longrightarrow>
    havoc_edit env MUT_INTERESTING8 xs (xs[i := word_of_int v])"
| interesting16: "i + 2 \<le> length xs \<Longrightarrow> v \<in> set interesting_16 \<Longrightarrow>
    havoc_edit env MUT_INTERESTING16 xs (put xs i (le_bytes 2 (word_of_int v :: u16)))"
| interesting16be: "i + 2 \<le> length xs \<Longrightarrow> v \<in> set interesting_16 \<Longrightarrow>
    havoc_edit env MUT_INTERESTING16BE xs (put xs i (rev (le_bytes 2 (word_of_int v :: u16))))"
| interesting32: "i + 4 \<le> length xs \<Longrightarrow> v \<in> set interesting_32 \<Longrightarrow>
    havoc_edit env MUT_INTERESTING32 xs (put xs i (le_bytes 4 (word_of_int v :: u32)))"
| interesting32be: "i + 4 \<le> length xs \<Longrightarrow> v \<in> set interesting_32 \<Longrightarrow>
    havoc_edit env MUT_INTERESTING32BE xs (put xs i (rev (le_bytes 4 (word_of_int v :: u32))))"
| arith8_sub: "i < length xs \<Longrightarrow> 1 \<le> d \<Longrightarrow> d \<le> ARITH_MAX \<Longrightarrow>
    havoc_edit env MUT_ARITH8_SUB xs (xs[i := xs ! i - of_nat d])"
| arith8: "i < length xs \<Longrightarrow> 1 \<le> d \<Longrightarrow> d \<le> ARITH_MAX \<Longrightarrow>
    havoc_edit env MUT_ARITH8 xs (xs[i := xs ! i + of_nat d])"
| arith16_sub: "i + 2 \<le> length xs \<Longrightarrow> 1 \<le> d \<Longrightarrow> d \<le> ARITH_MAX \<Longrightarrow>
    havoc_edit env MUT_ARITH16_SUB xs
      (put xs i (le_bytes 2 (le_word (region xs i 2) - of_nat d :: u16)))"
| arith16be_sub: "i + 2 \<le> length xs \<Longrightarrow> 1 \<le> d \<Longrightarrow> d \<le> ARITH_MAX \<Longrightarrow>
    havoc_edit env MUT_ARITH16BE_SUB xs
      (put xs i (rev (le_bytes 2 (le_word (rev (region xs i 2)) - of_nat d :: u16))))"
| arith16: "i + 2 \<le> length xs \<Longrightarrow> 1 \<le> d \<Longrightarrow> d \<le> ARITH_MAX \<Longrightarrow>
    havoc_edit env MUT_ARITH16 xs
      (put xs i (le_bytes 2 (le_word (region xs i 2) + of_nat d :: u16)))"
| arith16be: "i + 2 \<le> length xs \<Longrightarrow> 1 \<le> d \<Longrightarrow> d \<le> ARITH_MAX \<Longrightarrow>
    havoc_edit env MUT_ARITH16BE xs
      (put xs i (rev (le_bytes 2 (le_word (rev (region xs i 2)) + of_nat d :: u16))))"
| arith32_sub: "i + 4 \<le> length xs \<Longrightarrow> 1 \<le> d \<Longrightarrow> d \<le> ARITH_MAX \<Longrightarrow>
    havoc_edit env MUT_ARITH32_SUB xs
      (put xs i (le_bytes 4 (le_word (region xs i 4) - of_nat d :: u32)))"
| arith32be_sub: "i + 4 \<le> length xs \<Longrightarrow> 1 \<le> d \<Longrightarrow> d \<le> ARITH_MAX \<Longrightarrow>
    havoc_edit env MUT_ARITH32BE_SUB xs
      (put xs i (rev (le_bytes 4 (le_word (rev (region xs i 4)) - of_nat d :: u32))))"
| arith32: "i + 4 \<le> length xs \<Longrightarrow> 1 \<le> d \<Longrightarrow> d \<le> ARITH_MAX \<Longrightarrow>
    havoc_edit env MUT_ARITH32 xs
      (put xs i (le_bytes 4 (le_word (region xs i 4) + of_nat d :: u32)))"
| arith32be: "i + 4 \<le> length xs \<Longrightarrow> 1 \<le> d \<Longrightarrow> d \<le> ARITH_MAX \<Longrightarrow>
    havoc_edit env MUT_ARITH32BE xs
      (put xs i (le_bytes 4 (le_word (region xs i 4) + of_nat d :: u32)))"
| rand8: "i < length xs \<Longrightarrow> x \<noteq> 0 \<Longrightarrow> havoc_edit env MUT_RAND8 xs (xs[i := xs ! i XOR x])"
| clone_copy: "i + n \<le> length xs \<Longrightarrow> j < length xs \<Longrightarrow> 1 \<le> n \<Longrightarrow> n \<le> HAVOC_BLK_XL \<Longrightarrow>
    havoc_edit env MUT_CLONE_COPY xs (insert_at xs j (region xs i n))"
| clone_fixed: "j < length xs \<Longrightarrow> 1 \<le> n \<Longrightarrow> n \<le> HAVOC_BLK_XL \<Longrightarrow>
    havoc_edit env MUT_CLONE_FIXED xs (insert_at xs j (replicate n v))"
| overwrite_copy: "i + n \<le> length xs \<Longrightarrow> j + n \<le> length xs \<Longrightarrow> 1 \<le> n \<Longrightarrow>
    havoc_edit env MUT_OVERWRITE_COPY xs (put xs j (region xs i n))"
| overwrite_fixed: "j + n \<le> length xs \<Longrightarrow> 1 \<le> n \<Longrightarrow>
    havoc_edit env MUT_OVERWRITE_FIXED xs (put xs j (replicate n v))"
| byteadd: "i < length xs \<Longrightarrow> havoc_edit env MUT_BYTEADD xs (xs[i := xs ! i + 1])"
| bytesub: "i < length xs \<Longrightarrow> havoc_edit env MUT_BYTESUB xs (xs[i := xs ! i - 1])"
| flip8: "i < length xs \<Longrightarrow> havoc_edit env MUT_FLIP8 xs (xs[i := NOT (xs ! i)])"
| switch: "i + n \<le> j \<or> j + n \<le> i \<Longrightarrow> i + n \<le> length xs \<Longrightarrow> j + n \<le> length xs \<Longrightarrow> 1 \<le> n \<Longrightarrow>
    havoc_edit env MUT_SWITCH xs (put (put xs i (region xs j n)) j (region xs i n))"
| del: "i + n \<le> length xs \<Longrightarrow> 1 \<le> n \<Longrightarrow> n < length xs \<Longrightarrow>
    havoc_edit env MUT_DEL xs (delete_at xs i n)"
| shuffle: "i + n \<le> length xs \<Longrightarrow> mset bs = mset (region xs i n) \<Longrightarrow>
    havoc_edit env MUT_SHUFFLE xs (put xs i bs)"
| delone: "i < length xs \<Longrightarrow> 1 < length xs \<Longrightarrow>
    havoc_edit env MUT_DELONE xs (delete_at xs i 1)"
| insertone: "j < length xs \<Longrightarrow> havoc_edit env MUT_INSERTONE xs (insert_at xs j [v])"
| asciinum: "i < length xs \<Longrightarrow> isdigit (xs ! i) \<Longrightarrow> i \<le> j \<Longrightarrow> j \<le> length xs \<Longrightarrow>
    list_all isdigit (region xs i (j - i)) \<Longrightarrow> INT64_MIN \<le> v \<Longrightarrow> v \<le> INT64_MAX \<Longrightarrow>
    havoc_edit env MUT_ASCIINUM xs (take i xs @ dec_int v @ drop j xs)"
| insertasciinum: "i + length bs \<le> length xs \<Longrightarrow> bs \<noteq> [] \<Longrightarrow> bs = drop k (dec_nat v) \<Longrightarrow>
    havoc_edit env MUT_INSERTASCIINUM xs (put xs i bs)"
| extra_overwrite: "e \<in> set (extras env) \<Longrightarrow> i + ex_len e \<le> length xs \<Longrightarrow>
    havoc_edit env MUT_EXTRA_OVERWRITE xs (put xs i (take (ex_len e) (ex_data e)))"
| extra_insert: "e \<in> set (extras env) \<Longrightarrow> i \<le> length xs \<Longrightarrow>
    havoc_edit env MUT_EXTRA_INSERT xs (insert_at xs i (take (ex_len e) (ex_data e)))"
| auto_extra_overwrite: "e \<in> set (a_extras env) \<Longrightarrow> i + ex_len e \<le> length xs \<Longrightarrow>
    havoc_edit env MUT_AUTO_EXTRA_OVERWRITE xs (put xs i (take (ex_len e) (ex_data e)))"
| auto_extra_insert: "e \<in> set (a_extras env) \<Longrightarrow> i \<le> length xs \<Longrightarrow>
    havoc_edit env MUT_AUTO_EXTRA_INSERT xs (insert_at xs i (take (ex_len e) (ex_data e)))"
| splice_overwrite: "splice_buf env = Some sp \<Longrightarrow> i + n \<le> splice_len env \<Longrightarrow> j + n \<le> length xs \<Longrightarrow>
    1 \<le> n \<Longrightarrow> havoc_edit env MUT_SPLICE_OVERWRITE xs (put xs j (region sp i n))"
| splice_insert: "splice_buf env = Some sp \<Longrightarrow> i + n \<le> splice_len env \<Longrightarrow> j \<le> length xs \<Longrightarrow>
    1 \<le> n \<Longrightarrow> n \<le> HAVOC_BLK_XL \<Longrightarrow> havoc_edit env MUT_SPLICE_INSERT xs (insert_at xs j (region sp i n))"

text \<open>The bytes of the input in use.\<close>

definition live :: "mut_state \<Rightarrow> bytes" where
  "live m = take (mlen m) (mbuf m)"

text \<open>
  What the callers guarantee: the lengths are far from the 32-bit limit (\<open>MAX_FILE\<close> is one
  megabyte), and dictionary entries and the splice input have the length they claim.
\<close>

definition env_ok :: "mut_env \<Rightarrow> bool" where
  "env_ok env \<longleftrightarrow>
     max_len env + HAVOC_BLK_XL \<le> 2 ^ 31 \<and>
     list_all (\<lambda>e. ex_len e \<le> length (ex_data e) \<and> ex_len e < 2 ^ 31) (extras env @ a_extras env) \<and>
     (case splice_buf env of None \<Rightarrow> True
      | Some sp \<Rightarrow> splice_len env \<le> length sp \<and> splice_len env < 2 ^ 31)"

definition mut_ok :: "mut_env \<Rightarrow> mut_state \<Rightarrow> bool" where
  "mut_ok env m \<longleftrightarrow> 0 < mlen m \<and> mlen m \<le> max_len env \<and>
     max_len env \<le> length (mbuf m) \<and> max_len env \<le> length (tmp_buf m)"

definition same_size :: "mut_state \<Rightarrow> mut_state \<Rightarrow> bool" where
  "same_size m m' \<longleftrightarrow>
     length (mbuf m') = length (mbuf m) \<and> length (tmp_buf m') = length (tmp_buf m)"

definition refines_edit :: "mut_env \<Rightarrow> mutator \<Rightarrow> mut_state \<Rightarrow> outcome \<Rightarrow> bool" where
  "refines_edit env op m out = (case out of
       Retry \<Rightarrow> True
     | Done m' \<Rightarrow> mut_ok env m' \<and> same_size m m' \<and> havoc_edit env op (live m) (live m'))"

section \<open>Lemmas\<close>

subsection \<open>Block lengths\<close>

lemma sound_choose_block_len:
  assumes "limit < 2 ^ 32"
  shows "sound (choose_block_len env limit)
           (\<lambda>n. 1 \<le> n \<and> n \<le> max 1 limit \<and> n \<le> HAVOC_BLK_XL)"
  (is "sound _ ?Q")
proof -
  have draw: "sound (bnd (rand_below (u32_add (u32_sub (min hi limit) lo) 1)) (\<lambda>r. ret (u32_add lo r))) ?Q"
    if lo: "1 \<le> lo" "lo < limit \<or> lo = 1" and hi: "lo \<le> hi" "hi \<le> HAVOC_BLK_XL" for lo hi
  proof (cases "limit = 0")
    case True
    then have "lo = 1" using lo by simp
    then have "u32_add (u32_sub (min hi limit) lo) 1 = 0"
      using True by (simp add: u32_add_def u32_sub_def)
    then show ?thesis
      using \<open>lo = 1\<close> by (intro rb.sound_draw sound_ret) (simp add: u32_add_def havoc_consts)
  next
    case False
    then have "lo \<le> min hi limit" using lo hi by auto
    then have "u32_add (u32_sub (min hi limit) lo) 1 = min hi limit - lo + 1"
      using assms lo(1) by (simp add: wrap_simps)
    then show ?thesis
      using lo hi assms \<open>lo \<le> min hi limit\<close> False
      by (auto intro!: rb.sound_draw sound_ret simp: wrap_simps)
  qed
  have step: "sound (case p of (lo, hi) \<Rightarrow>
       let lo = (if lo \<ge> limit then 1 else lo)
       in bnd (rand_below (u32_add (u32_sub (min hi limit) lo) 1)) (\<lambda>r. ret (u32_add lo r))) ?Q"
    if "1 \<le> fst p" "fst p \<le> snd p" "snd p \<le> HAVOC_BLK_XL" for p
    using that draw [of 1 "snd p"] draw [of "fst p" "snd p"]
    by (auto simp: Let_def split_beta not_le)
  show ?thesis
    unfolding choose_block_len_def Let_def
    by (intro rb.sound_draw sound_bnd [where P = "\<lambda>p. 1 \<le> fst p \<and> fst p \<le> snd p \<and> snd p \<le> HAVOC_BLK_XL"]
        sound_if sound_ret step [unfolded Let_def]) (auto simp: havoc_consts)
qed

subsection \<open>Writes in place\<close>

lemma length_live: "mut_ok env m \<Longrightarrow> length (live m) = mlen m"
  by (simp add: mut_ok_def live_def)

lemma live_region: "i + n \<le> mlen m \<Longrightarrow> region (mbuf m) i n = region (live m) i n"
  by (simp add: live_def region_take)

lemma mut_bounds:
  assumes "env_ok env" and "mut_ok env m"
  shows "mlen m + HAVOC_BLK_XL \<le> 2 ^ 31" and "0 < mlen m" and "mlen m \<le> max_len env"
    and "mlen m \<le> length (mbuf m)" and "mlen m \<le> length (tmp_buf m)"
    and "max_len env \<le> length (mbuf m)" and "max_len env \<le> length (tmp_buf m)"
    and "max_len env + HAVOC_BLK_XL \<le> 2 ^ 31"
  using assms by (auto simp: env_ok_def mut_ok_def)

lemma refines_same:
  "mut_ok env m \<Longrightarrow> mlen m < skip_below op \<Longrightarrow> refines_edit env op m (Done m)"
  using havoc_edit.skip [of "live m" op env]
  by (simp add: refines_edit_def same_size_def length_live del: skip_below.simps)

lemma refines_Retry [simp]: "refines_edit env op m Retry"
  by (simp add: refines_edit_def)

lemma refines_put:
  assumes "mut_ok env m" and "i + length bs \<le> mlen m"
    and "havoc_edit env op (live m) (put (live m) i bs)"
  shows "refines_edit env op m (Done (m\<lparr>mbuf := put (mbuf m) i bs\<rparr>))"
proof -
  have "i + length bs \<le> length (mbuf m)" using assms(1,2) by (simp add: mut_ok_def)
  with assms show ?thesis
    by (simp add: refines_edit_def same_size_def mut_ok_def live_def take_put)
qed

lemma sound_mut_byte:
  assumes "mut_ok env m" and "off < mlen m"
    and "havoc_edit env op (live m) ((live m)[off := f (live m ! off)])"
  shows "sound (mut_byte off f m) (refines_edit env op m)"
proof -
  have "off < length (mbuf m)" and "live m ! off = mbuf m ! off"
    using assms(1,2) by (simp_all add: mut_ok_def live_def)
  with assms show ?thesis
    by (auto simp: mut_byte_def mem_simps intro!: sound_ret)
      (simp add: refines_edit_def same_size_def mut_ok_def live_def take_update_swap)
qed

lemma of_nat_byte_nonzero: "n < 255 \<Longrightarrow> 1 + (of_nat n :: u8) \<noteq> 0"
  using word_of_nat_eq_0_iff [of "Suc n", where 'a = 8] by (auto dest: dvd_imp_le)

lemma sound_byte_ops:
  assumes "mut_ok env m"
  shows "sound (mut_flipbit m) (refines_edit env MUT_FLIPBIT m)"
    and "sound (mut_arith8_sub m) (refines_edit env MUT_ARITH8_SUB m)"
    and "sound (mut_arith8 m) (refines_edit env MUT_ARITH8 m)"
    and "sound (mut_rand8 m) (refines_edit env MUT_RAND8 m)"
    and "sound (mut_byteadd m) (refines_edit env MUT_BYTEADD m)"
    and "sound (mut_bytesub m) (refines_edit env MUT_BYTESUB m)"
    and "sound (mut_flip8 m) (refines_edit env MUT_FLIP8 m)"
proof -
  have pos: "0 < mlen m" using assms by (simp add: mut_ok_def)
  note rules = rb.sound_draw_pos sound_Let sound_mut_byte [OF assms]
  show "sound (mut_flipbit m) (refines_edit env MUT_FLIPBIT m)"
    unfolding mut_flipbit_def
    by (intro rules havoc_edit.flipbit) (simp_all add: pos length_live [OF assms])
  show "sound (mut_arith8_sub m) (refines_edit env MUT_ARITH8_SUB m)"
    unfolding mut_arith8_sub_def
    by (intro rules havoc_edit.arith8_sub) (simp_all add: pos length_live [OF assms] ARITH_MAX_def)
  show "sound (mut_arith8 m) (refines_edit env MUT_ARITH8 m)"
    unfolding mut_arith8_def
    by (intro rules havoc_edit.arith8) (simp_all add: pos length_live [OF assms] ARITH_MAX_def)
  show "sound (mut_rand8 m) (refines_edit env MUT_RAND8 m)"
    unfolding mut_rand8_def
    by (intro rules havoc_edit.rand8)
      (simp_all add: pos length_live [OF assms] of_nat_byte_nonzero)
  show "sound (mut_byteadd m) (refines_edit env MUT_BYTEADD m)"
    unfolding mut_byteadd_def
    by (intro rules havoc_edit.byteadd) (simp_all add: pos length_live [OF assms])
  show "sound (mut_bytesub m) (refines_edit env MUT_BYTESUB m)"
    unfolding mut_bytesub_def
    by (intro rules havoc_edit.bytesub) (simp_all add: pos length_live [OF assms])
  have "(0xff :: u8) = - 1" by simp
  then have "x XOR 0xff = NOT x" for x :: u8
    by (simp only: bit.xor_one_right)
  then show "sound (mut_flip8 m) (refines_edit env MUT_FLIP8 m)"
    unfolding mut_flip8_def
    by (intro rules) (simp_all add: pos length_live [OF assms] havoc_edit.flip8)
qed

lemma sound_interesting8:
  assumes "mut_ok env m"
  shows "sound (mut_interesting8 m) (refines_edit env MUT_INTERESTING8 m)"
proof -
  have "0 < mlen m" and "\<And>off. off < mlen m \<Longrightarrow> off < length (mbuf m)"
    using assms by (auto simp: mut_ok_def)
  moreover have "refines_edit env MUT_INTERESTING8 m (Done (m\<lparr>mbuf := (mbuf m)[off := word_of_int v]\<rparr>))"
    if "off < mlen m" "v \<in> set interesting_8" for off v
    using that assms havoc_edit.interesting8 [of off "live m" v env]
    by (simp add: refines_edit_def same_size_def mut_ok_def live_def take_update_swap)
  moreover have "0 < length interesting_8" by (simp add: interesting_8_def INTERESTING_8_def)
  ultimately show ?thesis
    unfolding mut_interesting8_def
    by (auto simp: mem_simps intro!: rb.sound_draw_pos sound_ret)
qed

text \<open>A 16-bit or 32-bit field written at a random offset.\<close>

lemma sound_interesting16:
  assumes ok: "env_ok env" "mut_ok env m" and skip: "skip_below op = 2"
    and edit: "\<And>i v. i + 2 \<le> mlen m \<Longrightarrow> v \<in> set interesting_16 \<Longrightarrow>
      havoc_edit env op (live m) (put (live m) i (le_bytes 2 (swap (word_of_int v))))"
  shows "sound (mut_interesting16 swap m) (refines_edit env op m)"
proof -
  note bounds = mut_bounds [OF ok]
  have "0 < length interesting_16"
    by (simp add: interesting_16_def INTERESTING_8_def)
  then show ?thesis
    unfolding mut_interesting16_def
    using bounds ok(2) skip
    by (auto simp: mem_simps wrap_simps intro!: sound_ret rb.sound_draw_pos refines_put
        refines_same edit simp del: skip_below.simps)
qed

lemma sound_interesting32:
  assumes ok: "env_ok env" "mut_ok env m" and skip: "skip_below op = 4"
    and edit: "\<And>i v. i + 4 \<le> mlen m \<Longrightarrow> v \<in> set interesting_32 \<Longrightarrow>
      havoc_edit env op (live m) (put (live m) i (le_bytes 4 (swap (word_of_int v))))"
  shows "sound (mut_interesting32 swap m) (refines_edit env op m)"
proof -
  note bounds = mut_bounds [OF ok]
  have "0 < length interesting_32"
    by (simp add: interesting_32_def INTERESTING_8_def)
  then show ?thesis
    unfolding mut_interesting32_def
    using bounds ok(2) skip
    by (auto simp: mem_simps wrap_simps intro!: sound_ret rb.sound_draw_pos refines_put
        refines_same edit simp del: skip_below.simps)
qed

lemma sound_arith16:
  assumes ok: "env_ok env" "mut_ok env m" and skip: "skip_below op = 2"
    and edit: "\<And>i d. i + 2 \<le> mlen m \<Longrightarrow> 1 \<le> d \<Longrightarrow> d \<le> ARITH_MAX \<Longrightarrow>
      havoc_edit env op (live m)
        (put (live m) i (le_bytes 2 (f (le_word (region (live m) i 2)) (of_nat d))))"
  shows "sound (mut_arith16 f m) (refines_edit env op m)"
proof -
  note bounds = mut_bounds [OF ok]
  have "0 < ARITH_MAX" by (simp add: ARITH_MAX_def)
  then show ?thesis
    unfolding mut_arith16_def Let_def
    using bounds ok(2) skip
    by (auto simp: mem_simps wrap_simps live_region intro!: sound_ret rb.sound_draw_pos refines_put
        refines_same edit simp del: skip_below.simps of_nat_Suc)
qed

lemma sound_arith32:
  assumes ok: "env_ok env" "mut_ok env m" and skip: "skip_below op = 4"
    and edit: "\<And>i d. i + 4 \<le> mlen m \<Longrightarrow> 1 \<le> d \<Longrightarrow> d \<le> ARITH_MAX \<Longrightarrow>
      havoc_edit env op (live m)
        (put (live m) i (le_bytes 4 (f (le_word (region (live m) i 4)) (of_nat d))))"
  shows "sound (mut_arith32 f m) (refines_edit env op m)"
proof -
  note bounds = mut_bounds [OF ok]
  have "0 < ARITH_MAX" by (simp add: ARITH_MAX_def)
  then show ?thesis
    unfolding mut_arith32_def Let_def
    using bounds ok(2) skip
    by (auto simp: mem_simps wrap_simps live_region intro!: sound_ret rb.sound_draw_pos refines_put
        refines_same edit simp del: skip_below.simps of_nat_Suc)
qed

subsection \<open>Blocks\<close>

lemma sound_block:
  assumes "limit < 2 ^ 32"
    and "\<And>n. 1 \<le> n \<Longrightarrow> n \<le> max 1 limit \<Longrightarrow> n \<le> HAVOC_BLK_XL \<Longrightarrow> sound (f n) Q"
  shows "sound (bnd (choose_block_len env limit) f) Q"
  using sound_choose_block_len [OF assms(1)] assms(2) by (rule sound_bnd) auto

lemma take_three_puts:
  assumes "c + length bs + length zs \<le> length t" and "length ys = c"
  shows "take (c + length bs + length zs) (put (put (put t 0 ys) c bs) (c + length bs) zs)
           = ys @ bs @ zs"
  using assms by (simp add: put_def)

lemma insert_block_ok:
  assumes ok: "env_ok env" "mut_ok env m" and c: "c \<le> mlen m"
    and len: "mlen m + length bs \<le> max_len env"
    and ins: "\<And>tmp. length tmp = length (tmp_buf m) \<Longrightarrow> ins tmp = Inr (put tmp c bs)"
    and edit: "havoc_edit env op (live m) (insert_at (live m) c bs)"
    and n: "n = length bs"
  shows "\<exists>m'. insert_block m c n ins = Inr m' \<and> refines_edit env op m (Done m')"
proof -
  note bounds = mut_bounds [OF ok]
  define tmp where "tmp = put (put (put (tmp_buf m) 0 (region (mbuf m) 0 c)) c bs)
     (c + length bs) (region (mbuf m) c (mlen m - c))"
  have ltmp: "length tmp = length (tmp_buf m)"
    using c len bounds by (simp add: tmp_def)
  have "take (c + length bs + (mlen m - c)) tmp = region (mbuf m) 0 c @ bs @ region (mbuf m) c (mlen m - c)"
    unfolding tmp_def using c len bounds
    take_three_puts [of c bs "region (mbuf m) c (mlen m - c)" "tmp_buf m" "region (mbuf m) 0 c"]
    by simp
  moreover have "c + length bs + (mlen m - c) = mlen m + length bs" using c by simp
  ultimately have pre: "take (mlen m + length bs) tmp = insert_at (live m) c bs"
    using c by (simp add: live_def insert_at_def region_def min_def drop_take)
  have res: "insert_block m c n ins =
      Inr (m\<lparr>mbuf := put (mbuf m) 0 (region tmp 0 (mlen m + length bs)),
             mlen := mlen m + length bs, tmp_buf := tmp\<rparr>)"
    using c len bounds ltmp
    by (simp add: insert_block_def mem_simps wrap_simps ins n tmp_def Let_def)
  have "refines_edit env op m (Done (m\<lparr>mbuf := put (mbuf m) 0 (region tmp 0 (mlen m + length bs)),
             mlen := mlen m + length bs, tmp_buf := tmp\<rparr>))"
    using ok(2) len bounds ltmp pre edit
    by (simp add: refines_edit_def same_size_def mut_ok_def live_def put_prefix region_def)
  with res show ?thesis by blast
qed

lemma sound_insert_block:
  assumes "\<exists>m'. insert_block m c n ins = Inr m' \<and> refines_edit env op m (Done m')"
  shows "sound (bnd (chk (insert_block m c n ins)) (\<lambda>m. ret (Done m))) (refines_edit env op m)"
  using assms by (auto intro: sound_ret)

lemma sound_item:
  assumes "i < length buf" and "\<And>v. sound (f v) Q"
  shows "sound (bnd (if strat \<noteq> (0 :: nat) then bnd (rand_below 256) (\<lambda>r. ret (of_nat r))
                     else chk (load buf i)) f) Q"
  using assms by (auto simp: mem_simps bnd_assoc intro!: rb.sound_draw)

lemma sound_clone_copy:
  assumes ok: "env_ok env" "mut_ok env m"
  shows "sound (mut_clone_copy env m) (refines_edit env MUT_CLONE_COPY m)"
proof -
  note bounds = mut_bounds [OF ok]
  have ins: "\<exists>m'. insert_block m j n (\<lambda>tmp. memcpy tmp j (mbuf m) i n) = Inr m' \<and>
      refines_edit env MUT_CLONE_COPY m (Done m')"
    if "1 \<le> n" "n \<le> mlen m" "n \<le> HAVOC_BLK_XL" "i \<le> mlen m - n" "j < mlen m"
      "mlen m + HAVOC_BLK_XL < max_len env" for i j n
    using that bounds
    by (intro insert_block_ok [OF ok, where bs = "region (mbuf m) i n"])
      (auto simp: mem_simps live_region length_live [OF ok(2)] intro!: havoc_edit.clone_copy)
  show ?thesis
    unfolding mut_clone_copy_def
    using bounds ok(2)
    by (intro sound_if sound_block rb.sound_draw_pos sound_insert_block ins sound_ret refines_same)
      (auto simp: wrap_simps max_def split: if_splits)
qed

lemma sound_clone_fixed:
  assumes ok: "env_ok env" "mut_ok env m"
  shows "sound (mut_clone_fixed env m) (refines_edit env MUT_CLONE_FIXED m)"
proof -
  note bounds = mut_bounds [OF ok]
  have ins: "\<exists>m'. insert_block m j n (\<lambda>tmp. memset tmp j v n) = Inr m' \<and>
      refines_edit env MUT_CLONE_FIXED m (Done m')"
    if "1 \<le> n" "n \<le> HAVOC_BLK_XL" "j < mlen m" "mlen m + HAVOC_BLK_XL < max_len env" for j n v
    using that bounds
    by (intro insert_block_ok [OF ok, where bs = "replicate n v"])
      (auto simp: mem_simps length_live [OF ok(2)] intro!: havoc_edit.clone_fixed)
  show ?thesis
    unfolding mut_clone_fixed_def
    using bounds ok(2)
    by (intro sound_if sound_Let sound_block rb.sound_draw_pos sound_item sound_insert_block ins
        sound_ret refines_same)
      (auto simp: wrap_simps HAVOC_BLK_XL_def split: if_splits)
qed

lemma sound_insertone:
  assumes ok: "env_ok env" "mut_ok env m"
  shows "sound (mut_insertone env m) (refines_edit env MUT_INSERTONE m)"
proof -
  note bounds = mut_bounds [OF ok]
  have ins: "\<exists>m'. insert_block m j n (\<lambda>tmp. memset tmp j v n) = Inr m' \<and>
      refines_edit env MUT_INSERTONE m (Done m')"
    if "n = 1" "j < mlen m" "mlen m + 1 \<le> max_len env" for j n v
    using that bounds
    by (intro insert_block_ok [OF ok, where bs = "[v]"])
      (auto simp: mem_simps length_live [OF ok(2)] intro!: havoc_edit.insertone)
  show ?thesis
    unfolding mut_insertone_def
    using bounds ok(2)
    by (intro sound_if sound_Let rb.sound_draw_pos sound_item sound_insert_block ins
        sound_ret refines_same)
      (auto simp: wrap_simps split: if_splits)
qed

lemma sound_overwrite_copy:
  assumes ok: "env_ok env" "mut_ok env m"
  shows "sound (mut_overwrite_copy env m) (refines_edit env MUT_OVERWRITE_COPY m)"
proof -
  note bounds = mut_bounds [OF ok]
  have edit: "refines_edit env MUT_OVERWRITE_COPY m (Done (m\<lparr>mbuf := put (mbuf m) j (region (mbuf m) i n)\<rparr>))"
    if "i + n \<le> mlen m" "j + n \<le> mlen m" "1 \<le> n" for i j n
    using that bounds by (intro refines_put [OF ok(2)])
      (auto simp: live_region length_live [OF ok(2)] intro!: havoc_edit.overwrite_copy)
  have body: "sound (if i \<noteq> j then bnd (chk (memmove (mbuf m) j i n)) (\<lambda>buf. ret (Done (m\<lparr>mbuf := buf\<rparr>)))
      else ret (Done m)) (refines_edit env MUT_OVERWRITE_COPY m)"
    if "1 \<le> n" "n \<le> mlen m" "i \<le> mlen m - n" "j \<le> mlen m - n" for i j n
    using that edit [of i n j] bounds by (auto simp: mem_simps put_region_same intro!: sound_ret)
  show ?thesis
    unfolding mut_overwrite_copy_def
    using bounds ok(2)
    by (intro sound_if [where b = "mlen m < 2"] sound_block rb.sound_draw_pos sound_ret refines_same body)
      (auto simp: wrap_simps max_def split: if_splits)
qed

lemma sound_overwrite_fixed:
  assumes ok: "env_ok env" "mut_ok env m"
  shows "sound (mut_overwrite_fixed env m) (refines_edit env MUT_OVERWRITE_FIXED m)"
proof -
  note bounds = mut_bounds [OF ok]
  have body: "sound (bnd (chk (memset (mbuf m) j v n)) (\<lambda>buf. ret (Done (m\<lparr>mbuf := buf\<rparr>))))
      (refines_edit env MUT_OVERWRITE_FIXED m)"
    if "j \<le> mlen m - n" "n \<le> mlen m" "1 \<le> n" for j n v
    using that bounds
    by (auto simp: mem_simps length_live [OF ok(2)] intro!: sound_ret refines_put [OF ok(2)]
        havoc_edit.overwrite_fixed)
  show ?thesis
    unfolding mut_overwrite_fixed_def
    using bounds ok(2)
    by (intro sound_if [where b = "mlen m < 2"] sound_Let sound_block rb.sound_draw_pos sound_item
        sound_ret refines_same body)
      (auto simp: wrap_simps max_def split: if_splits)
qed

lemma take_delete:
  assumes "i + n \<le> l" and "l \<le> length buf"
  shows "take (l - n) (put buf i (region buf (i + n) (l - (i + n)))) = delete_at (take l buf) i n"
proof -
  have "put buf i (region buf (i + n) (l - (i + n)))
      = (take i buf @ region buf (i + n) (l - (i + n))) @ drop (l - n) buf"
    using assms by (simp add: put_def)
  moreover have "length (take i buf @ region buf (i + n) (l - (i + n))) = l - n"
    using assms by simp
  ultimately have "take (l - n) (put buf i (region buf (i + n) (l - (i + n))))
      = take i buf @ region buf (i + n) (l - (i + n))"
    by (metis append_eq_conv_conj)
  then show ?thesis
    using assms by (simp add: delete_at_def region_def drop_take min_def)
qed

lemma del_block_ok:
  assumes ok: "env_ok env" "mut_ok env m" and i: "i + n \<le> mlen m" and n: "n < mlen m"
    and edit: "havoc_edit env op (live m) (delete_at (live m) i n)"
  shows "sound (bnd (chk (del_block m i n)) (\<lambda>m. ret (Done m))) (refines_edit env op m)"
proof -
  note bounds = mut_bounds [OF ok]
  have res: "del_block m i n = Inr (m\<lparr>mbuf := put (mbuf m) i (region (mbuf m) (i + n) (mlen m - (i + n))),
      mlen := mlen m - n\<rparr>)"
    using i n bounds by (simp add: del_block_def mem_simps wrap_simps)
  show ?thesis
    using i n bounds ok(2) edit unfolding res
    by (auto intro!: sound_ret simp: refines_edit_def same_size_def mut_ok_def live_def take_delete)
qed

lemma sound_del:
  assumes ok: "env_ok env" "mut_ok env m"
  shows "sound (mut_del env m) (refines_edit env MUT_DEL m)"
  unfolding mut_del_def
  using mut_bounds [OF ok] ok(2)
  by (intro sound_if sound_block rb.sound_draw_pos sound_ret refines_same del_block_ok [OF ok]
      havoc_edit.del)
    (auto simp: wrap_simps max_def length_live [OF ok(2)] split: if_splits)

lemma sound_delone:
  assumes ok: "env_ok env" "mut_ok env m"
  shows "sound (mut_delone m) (refines_edit env MUT_DELONE m)"
  unfolding mut_delone_def Let_def
  using mut_bounds [OF ok] ok(2)
  by (intro sound_if rb.sound_draw_pos sound_ret refines_same del_block_ok [OF ok]
      havoc_edit.delone)
    (auto simp: wrap_simps length_live [OF ok(2)] split: if_splits)

lemma sound_draw_other: "sound (draw_other n i) (\<lambda>j. j < max 1 n \<and> j \<noteq> i)"
proof (rule soundI_result)
  fix s r assume ret: "draw_other n i s = Some r"
  show "good_result (\<lambda>j. j < max 1 n \<and> j \<noteq> i) r"
  proof (rule draw_other.raw_induct
      [where P = "\<lambda>n i s r. good_result (\<lambda>j. j < max 1 n \<and> j \<noteq> i) r", OF _ ret])
    fix f n i s r
    assume IH: "\<And>n i s r. f n i s = Some r \<Longrightarrow> good_result (\<lambda>j. j < max 1 n \<and> j \<noteq> i) r"
      and eq: "bnd (rand_below n) (\<lambda>j s. if i = j then f n i s else ret j s) s = Some r"
    have "sound (bnd (rand_below n) (\<lambda>j s. if i = j then f n i s else ret j s))
        (\<lambda>j. j < max 1 n \<and> j \<noteq> i)"
      using IH by (intro rb.sound_draw soundI_result)
        (auto simp: ret_def good_result_def split: if_splits)
    then show "good_result (\<lambda>j. j < max 1 n \<and> j \<noteq> i) r"
      using eq by (rule sound_good)
  qed
qed

lemma sound_other:
  assumes "0 < n" and "\<And>j. j < n \<Longrightarrow> j \<noteq> i \<Longrightarrow> sound (f j) Q"
  shows "sound (bnd (draw_other n i) f) Q"
  using sound_draw_other by (rule sound_bnd) (use assms in \<open>auto simp: max_def split: if_splits\<close>)

lemma switch_region:
  fixes i j l :: nat
  assumes "i < l" and "j < l" and "i \<noteq> j" and "l \<le> 2 ^ 31"
  shows "(if i < j then (u32_sub j i, u32_sub l j) else (u32_sub i j, u32_sub l i))
       = (if i < j then (j - i, l - j) else (i - j, l - i))"
  using assms by (simp add: wrap_simps)

lemma sound_switch:
  assumes ok: "env_ok env" "mut_ok env m"
  shows "sound (mut_switch env m) (refines_edit env MUT_SWITCH m)"
proof -
  note bounds = mut_bounds [OF ok]
  have body: "sound
      (bnd (chk (memcpy (tmp_buf m) 0 (mbuf m) i n)) (\<lambda>tmp.
       bnd (chk (memcpy_in (mbuf m) i j n)) (\<lambda>buf.
       bnd (chk (memcpy buf j tmp 0 n)) (\<lambda>buf.
       ret (Done (m\<lparr>mbuf := buf, tmp_buf := tmp\<rparr>)))))) (refines_edit env MUT_SWITCH m)"
    if apart: "i + n \<le> j \<or> j + n \<le> i" and le: "i + n \<le> mlen m" "j + n \<le> mlen m" and n: "1 \<le> n"
    for i j n
  proof -
    have "n \<le> length (tmp_buf m)" "i + n \<le> length (mbuf m)" "j + n \<le> length (mbuf m)"
      using le bounds by auto
    then have tmp: "region (put (tmp_buf m) 0 (region (mbuf m) i n)) 0 n = region (mbuf m) i n"
      by (simp add: put_def region_def)
    have edit: "havoc_edit env MUT_SWITCH (live m)
        (put (put (live m) i (region (live m) j n)) j (region (live m) i n))"
      using apart le n by (intro havoc_edit.switch) (simp_all add: length_live [OF ok(2)])
    have "refines_edit env MUT_SWITCH m (Done (m\<lparr>mbuf :=
        put (put (mbuf m) i (region (mbuf m) j n)) j (region (mbuf m) i n),
        tmp_buf := put (tmp_buf m) 0 (region (mbuf m) i n)\<rparr>))"
      using edit le bounds ok(2)
      by (simp add: refines_edit_def same_size_def mut_ok_def live_def take_put region_take)
    then show ?thesis
      using apart le n bounds by (simp add: mem_simps tmp sound_ret)
  qed
  have blk: "sound (bnd (choose_block_len env (min d e)) (\<lambda>n.
       bnd (chk (memcpy (tmp_buf m) 0 (mbuf m) i n)) (\<lambda>tmp.
       bnd (chk (memcpy_in (mbuf m) i j n)) (\<lambda>buf.
       bnd (chk (memcpy buf j tmp 0 n)) (\<lambda>buf.
       ret (Done (m\<lparr>mbuf := buf, tmp_buf := tmp\<rparr>))))))) (refines_edit env MUT_SWITCH m)"
    if "i < mlen m" "j < mlen m" "i \<noteq> j"
      "(d, e) = (if i < j then (j - i, mlen m - j) else (i - j, mlen m - i))" for i j d e
    using that bounds
    by (intro sound_block body) (auto simp: max_def min_def split: if_splits)
  show ?thesis
    unfolding mut_switch_def
    using bounds ok(2)
    by (auto intro!: sound_ret refines_same rb.sound_draw_pos sound_other
        simp: switch_region split_beta simp del: skip_below.simps)
      (auto intro!: blk)
qed

lemma sound_shuffle_loop:
  assumes "off + i < length buf"
  shows "sound (shuffle_loop off i buf) (\<lambda>buf'. length buf' = length buf \<and> mset buf' = mset buf \<and>
           (\<forall>k. k < off \<or> off + i < k \<longrightarrow> buf' ! k = buf ! k))"
  using assms
proof (induction i arbitrary: buf)
  case 0
  then show ?case by (simp add: sound_ret)
next
  case (Suc i)
  have "sound (shuffle_loop off i (buf[off + Suc i := buf ! (off + j), off + j := buf ! (off + Suc i)]))
      (\<lambda>buf'. length buf' = length buf \<and> mset buf' = mset buf \<and>
           (\<forall>k. k < off \<or> off + Suc i < k \<longrightarrow> buf' ! k = buf ! k))" if "j < Suc i" for j
    using Suc.prems that mset_swap [of "off + j" buf "off + Suc i"]
    by (intro sound_weaken [OF Suc.IH]) (auto simp: nth_list_update)
  then show ?case
    using Suc.prems by (auto simp: mem_simps intro!: sound_other)
qed

lemma sound_shuffle:
  assumes ok: "env_ok env" "mut_ok env m"
  shows "sound (mut_shuffle env m) (refines_edit env MUT_SHUFFLE m)"
proof -
  note bounds = mut_bounds [OF ok]
  have edit: "refines_edit env MUT_SHUFFLE m (Done (m\<lparr>mbuf := buf'\<rparr>))"
    if len: "length buf' = length (mbuf m)" and ms: "mset buf' = mset (mbuf m)"
      and eq: "\<forall>k. k < off \<or> off + (n - 1) < k \<longrightarrow> buf' ! k = mbuf m ! k"
      and le: "off + n \<le> mlen m" and n: "1 \<le> n" for buf' off n
  proof -
    have parts: "mset xs = mset (take off xs) + mset (region xs off n) + mset (drop (off + n) xs)"
      for xs :: bytes
      by (metis append_take_drop_id mset_append region_def take_add)
    have "take off buf' = take off (mbuf m)" "drop (off + n) buf' = drop (off + n) (mbuf m)"
      using len eq le n bounds by (auto intro!: nth_equalityI)
    then have mset_region: "mset (region buf' off n) = mset (region (mbuf m) off n)"
      using ms parts [of buf'] parts [of "mbuf m"] by simp
    have put: "buf' = put (mbuf m) off (region buf' off n)"
      using len eq le n bounds by (intro nth_equalityI) (auto simp: nth_put nth_region)
    have "refines_edit env MUT_SHUFFLE m (Done (m\<lparr>mbuf := put (mbuf m) off (region buf' off n)\<rparr>))"
      using le n bounds len mset_region
      by (intro refines_put [OF ok(2)] havoc_edit.shuffle [where n = n])
        (simp_all add: length_live [OF ok(2)] live_region)
    with put show ?thesis by simp
  qed
  have body: "sound (bnd (shuffle_loop off (u32_sub n 1) (mbuf m)) (\<lambda>buf. ret (Done (m\<lparr>mbuf := buf\<rparr>))))
      (refines_edit env MUT_SHUFFLE m)" if "off \<le> mlen m - n" "n \<le> mlen m" "1 \<le> n" for off n
  proof -
    have n1: "u32_sub n 1 = n - 1" using that bounds by (simp add: wrap_simps)
    have "sound (shuffle_loop off (n - 1) (mbuf m)) (\<lambda>buf'. length buf' = length (mbuf m) \<and>
        mset buf' = mset (mbuf m) \<and> (\<forall>k. k < off \<or> off + (n - 1) < k \<longrightarrow> buf' ! k = mbuf m ! k))"
      using that bounds by (intro sound_shuffle_loop) auto
    then show ?thesis
      unfolding n1 by (rule sound_bnd) (use that in \<open>auto intro!: sound_ret edit\<close>)
  qed
  show ?thesis
    unfolding mut_shuffle_def
    using bounds ok(2)
    by (intro sound_if [where b = "mlen m < 4"] sound_block rb.sound_draw_pos sound_ret refines_same body)
      (auto simp: wrap_simps max_def split: if_splits)
qed

subsection \<open>Decimal numbers\<close>

declare dec_nat.simps [simp del] skip_nondigits.simps [simp del] skip_digits.simps [simp del]
  parse_loop.simps [simp del]

lemma length_dec_nat: "n < 10 ^ Suc k \<Longrightarrow> length (dec_nat n) \<le> Suc k"
proof (induction k arbitrary: n)
  case 0
  then show ?case by (simp add: dec_nat.simps)
next
  case (Suc k)
  then have "length (dec_nat (n div 10)) \<le> Suc k" by (intro Suc.IH) (simp add: less_mult_imp_div_less)
  then show ?case by (subst dec_nat.simps) simp
qed

lemma dec_nat_nonempty [simp]: "dec_nat n \<noteq> []"
  by (subst dec_nat.simps) simp

lemma length_dec_int: "\<bar>v\<bar> < 10 ^ Suc k \<Longrightarrow> length (dec_int v) \<le> Suc (Suc k)"
  using length_dec_nat [of "nat \<bar>v\<bar>" k] by (auto simp: dec_int_def nat_less_iff)

lemma snprintf_dec_s64:
  assumes "INT64_MIN \<le> v" and "v \<le> INT64_MAX"
  shows "snprintf_dec v = dec_int v"
proof -
  have "\<bar>v\<bar> < 10 ^ Suc 18" using assms by (simp add: INT64_MIN_def INT64_MAX_def abs_less_iff)
  from length_dec_int [OF this] show ?thesis by (simp add: snprintf_dec_def)
qed

lemma snprintf_dec_u64: "snprintf_dec (uint (w :: u64)) = dec_nat (unat w)"
proof -
  have "unat w < 2 ^ 64" using unsigned_less [of w, where 'a = nat] by simp
  also have "(2 :: nat) ^ 64 \<le> 10 ^ Suc 19" by simp
  finally have "unat w < 10 ^ Suc 19" .
  then have "length (dec_nat (unat w)) \<le> Suc 19" by (rule length_dec_nat)
  moreover have "dec_int (uint w) = dec_nat (unat w)"
    by (simp add: dec_int_def not_less)
  ultimately show ?thesis by (simp add: snprintf_dec_def)
qed

lemma skip_nondigits_ok:
  "i \<le> stop \<Longrightarrow> stop \<le> length buf \<Longrightarrow>
   \<exists>k. skip_nondigits buf i stop = Inr k \<and> i \<le> k \<and> k \<le> stop \<and> (k < stop \<longrightarrow> isdigit (buf ! k))"
proof (induction buf i stop rule: skip_nondigits.induct)
  case (1 buf i stop)
  show ?case
  proof (cases "i < stop \<and> \<not> isdigit (buf ! i)")
    case True
    then obtain k where "skip_nondigits buf (Suc i) stop = Inr k" "Suc i \<le> k" "k \<le> stop"
      "k < stop \<longrightarrow> isdigit (buf ! k)"
      using 1 by auto
    with True 1(3) show ?thesis
      by (subst skip_nondigits.simps) (simp add: load_def)
  next
    case False
    with 1(2,3) show ?thesis by (subst skip_nondigits.simps) (auto simp: load_def)
  qed
qed

lemma skip_digits_ok:
  "i \<le> stop \<Longrightarrow> stop \<le> length buf \<Longrightarrow>
   \<exists>k. skip_digits buf i stop = Inr k \<and> i \<le> k \<and> k \<le> stop \<and> (\<forall>j. i \<le> j \<and> j < k \<longrightarrow> isdigit (buf ! j))"
proof (induction buf i stop rule: skip_digits.induct)
  case (1 buf i stop)
  show ?case
  proof (cases "i < stop \<and> isdigit (buf ! i)")
    case True
    then obtain k where "skip_digits buf (Suc i) stop = Inr k" "Suc i \<le> k" "k \<le> stop"
      "\<forall>j. Suc i \<le> j \<and> j < k \<longrightarrow> isdigit (buf ! j)"
      using 1 by auto
    moreover from this have "isdigit (buf ! j)" if "i \<le> j" "j < k" for j
      using True that by (cases "j = i") auto
    ultimately show ?thesis
      using True 1(3) by (subst skip_digits.simps) (simp add: load_def)
  next
    case False
    with 1(2,3) show ?thesis by (subst skip_digits.simps) (auto simp: load_def)
  qed
qed

lemma s64_ok [mem_simps]: "INT64_MIN \<le> v \<Longrightarrow> v \<le> INT64_MAX \<Longrightarrow> s64 v = Inr v"
  by (simp add: s64_def)

lemma int64_consts:
  "INT64_MAX sdiv 10 = 922337203685477580" "INT64_MAX sdiv 2 = 4611686018427387903"
  "INT64_MIN sdiv 2 = - 4611686018427387904"
  "INT64_MAX = 9223372036854775807" "INT64_MIN = - 9223372036854775808"
  by (simp_all add: INT64_MAX_def INT64_MIN_def signed_divide_int_def)

lemma parse_loop_ok:
  "i \<le> off2 \<Longrightarrow> off2 \<le> length buf \<Longrightarrow> 0 \<le> val \<Longrightarrow> val \<le> INT64_MAX \<Longrightarrow>
   \<exists>v k. parse_loop buf i off2 val = Inr (v, k) \<and> i \<le> k \<and> k \<le> off2 \<and> 0 \<le> v \<and> v \<le> INT64_MAX"
proof (induction buf i off2 val rule: parse_loop.induct)
  case (1 buf i off2 val)
  define d where "d = uint (buf ! i - 48)"
  have d: "0 \<le> d" by (simp add: d_def)
  show ?case
  proof (cases "i < off2 \<and> \<not> val > INT64_MAX sdiv 10 \<and> \<not> val * 10 > INT64_MAX - d")
    case True
    then have s1: "s64 (val * 10) = Inr (val * 10)" and s2: "s64 (val * 10 + d) = Inr (val * 10 + d)"
      using 1(4) d by (auto simp: s64_def int64_consts)
    have l: "load buf i = Inr (buf ! i)" using True 1(3) by (simp add: load_def)
    have "\<exists>v k. parse_loop buf (Suc i) off2 (val * 10 + d) = Inr (v, k) \<and> Suc i \<le> k \<and> k \<le> off2 \<and>
        0 \<le> v \<and> v \<le> INT64_MAX"
      using True 1(3-5) d by (intro 1(1)) (auto simp: d_def)
    with True show ?thesis
      by (subst parse_loop.simps) (auto simp: l s1 s2 Let_def simp flip: d_def)
  next
    case False
    have r: "s64 (val * 10) = Inr (val * 10)" if "val \<le> INT64_MAX sdiv 10"
      using that 1(4) by (simp add: s64_def int64_consts)
    have "parse_loop buf i off2 val = Inr (val, if i < off2 then i else off2)"
      using False 1(3) by (subst parse_loop.simps) (auto simp: load_def Let_def d_def r not_less)
    then show ?thesis using 1(2,4,5) by simp
  qed
qed

lemma sdiv_10_range: "\<bar>v sdiv 10\<bar> \<le> \<bar>v :: int\<bar> div 10"
  by (auto simp: signed_divide_int_def abs_mult sgn_if)

lemma sdiv_2_range: "\<bar>v sdiv 2\<bar> \<le> \<bar>v :: int\<bar> div 2"
  by (auto simp: signed_divide_int_def abs_mult sgn_if)

lemma sound_case_if:
  "(c \<Longrightarrow> sound (f a b) Q) \<Longrightarrow> (\<not> c \<Longrightarrow> sound (f a' b') Q) \<Longrightarrow>
   sound (case (if c then (a, b) else (a', b')) of (x, y) \<Rightarrow> f x y) Q"
  by simp

lemma sound_asciinum_strat:
  assumes "INT64_MIN \<le> val" and "val \<le> INT64_MAX" and "1 \<le> off2" and "off2 < 2 ^ 32"
  shows "sound (asciinum_strat strat val off2)
           (\<lambda>(v, k). INT64_MIN \<le> v \<and> v \<le> INT64_MAX \<and> off2 - 1 \<le> k \<and> k \<le> off2)"
proof -
  have dec: "u32_sub off2 1 = off2 - 1" using assms by (simp add: wrap_simps)
  have half: "INT64_MIN \<le> val sdiv 2" "val sdiv 2 \<le> INT64_MAX"
    using sdiv_2_range [of val] assms by (auto simp: int64_consts)
  have tenth: "- 922337203685477580 \<le> val sdiv 10" "val sdiv 10 \<le> 922337203685477580"
    using sdiv_10_range [of val] assms by (auto simp: int64_consts)
  have word: "INT64_MIN \<le> sint w" "sint w \<le> INT64_MAX" for w :: u64
    using sint_ge [of w] sint_lt [of w] by (simp_all add: INT64_MIN_def INT64_MAX_def)
  have not: "INT64_MIN \<le> NOT val" "NOT val \<le> INT64_MAX"
    using assms by (simp_all add: not_int_def int64_consts)
  show ?thesis
    unfolding asciinum_strat_def Let_def dec
    by (intro sound_if sound_case_if rb.sound_draw_pos sound_bnd [OF sound_rand_next]
        sound_bnd_chk [OF s64_ok] sound_ret)
      (use assms half tenth word not in \<open>auto simp: int64_consts\<close>)
qed

lemma isdigit_value: "isdigit b \<Longrightarrow> 0 \<le> uint b - 48 \<and> uint b - 48 \<le> 9"
  by (auto simp: isdigit_def word_le_def)

lemma u32_regrow:
  assumes "b \<le> l + a" and "b < 2 ^ 32" and "l + a < 2 ^ 32"
  shows "u32_add l (u32_sub a b) = l + a - b"
proof -
  have "u32_add l (u32_sub a b) = (l + (a + 2 ^ 32 - b)) mod 2 ^ 32"
    by (simp only: u32_add_def u32_sub_def mod_add_right_eq)
  also have "l + (a + 2 ^ 32 - b) = (l + a - b) + 2 ^ 32"
    using assms by linarith
  also have "\<dots> mod 2 ^ 32 = (l + a - b) mod 2 ^ 32" by (rule mod_add_self2)
  also have "\<dots> = l + a - b" using assms by (intro mod_less) linarith
  finally show ?thesis .
qed

lemma asciinum_replace:
  assumes ok: "env_ok env" "mut_ok env m" and i: "i \<le> j" "j \<le> mlen m"
    and len: "mlen m + length bs - (j - i) \<le> max_len env" and bs: "bs \<noteq> []"
    and edit: "havoc_edit env op (live m) (take i (live m) @ bs @ drop j (live m))"
    and tmp: "tmp = put (put (put (tmp_buf m) 0 (region (mbuf m) 0 i)) i bs)
                 (i + length bs) (region (mbuf m) j (mlen m - j))"
    and l: "l = mlen m + length bs - (j - i)"
  shows "refines_edit env op m (Done (m\<lparr>mbuf := put (mbuf m) 0 (region tmp 0 l), mlen := l, tmp_buf := tmp\<rparr>))"
proof -
  note bounds = mut_bounds [OF ok]
  have ltmp: "length tmp = length (tmp_buf m)" using i len bounds by (simp add: tmp)
  have sum: "l = i + length bs + (mlen m - j)" using i l by simp
  have "take l tmp = region (mbuf m) 0 i @ bs @ region (mbuf m) j (mlen m - j)"
    unfolding tmp sum using i len bounds
    take_three_puts [of i bs "region (mbuf m) j (mlen m - j)" "tmp_buf m" "region (mbuf m) 0 i"]
    by simp
  then have pre: "take l tmp = take i (live m) @ bs @ drop j (live m)"
    using i by (simp add: live_def region_def min_def drop_take)
  have "0 < l" using bs by (simp add: sum)
  moreover have "l \<le> max_len env" using len l by simp
  moreover from this have "take l (put (mbuf m) 0 (region tmp 0 l)) = take l tmp"
    using ltmp bounds by (simp add: put_prefix region_def)
  ultimately show ?thesis
    using bounds ltmp pre edit
    by (simp add: refines_edit_def same_size_def mut_ok_def live_def)
qed

lemma sound_asciinum_store:
  assumes ok: "env_ok env" "mut_ok env m" and off: "off < mlen m" "isdigit (live m ! off)"
    and k: "off \<le> k" "k \<le> mlen m" and dig: "list_all isdigit (region (live m) off (k - off))"
    and v: "INT64_MIN \<le> v" "v \<le> INT64_MAX"
  shows "sound (asciinum_store env m off v k) (refines_edit env MUT_ASCIINUM m)"
proof -
  note bounds = mut_bounds [OF ok]
  define bs where "bs = dec_int v"
  have num: "snprintf_dec v = bs" using snprintf_dec_s64 [OF v] by (simp add: bs_def)
  have bs: "bs \<noteq> []" "length bs \<le> 20"
    using length_dec_int [of v 18] v by (auto simp: bs_def dec_int_def int64_consts)
  have reg: "region bs 0 (length bs) = bs" by (simp add: region_def)
  have edit: "havoc_edit env MUT_ASCIINUM (live m) (take off (live m) @ bs @ drop k (live m))"
    unfolding bs_def using off k dig v
    by (intro havoc_edit.asciinum) (simp_all add: length_live [OF ok(2)])
  have old: "u32_sub k off = k - off" using k bounds by (simp add: wrap_simps)
  have room: "u32_sub (u32_add (u32_add off (length bs)) (mlen m)) k = off + length bs + mlen m - k"
    using k off bs bounds by (simp add: wrap_simps HAVOC_BLK_XL_def)
  have grow: "u32_add (mlen m) (u32_sub (length bs) (k - off)) = mlen m + length bs - (k - off)"
    using k off bs bounds by (intro u32_regrow) (auto simp: HAVOC_BLK_XL_def)
  have same: "refines_edit env MUT_ASCIINUM m (Done (m\<lparr>mbuf := put (mbuf m) off bs\<rparr>))"
    if "k - off = length bs"
  proof -
    have "k = off + length bs" using k that by simp
    then show ?thesis using edit k by (intro refines_put [OF ok(2)]) (simp_all add: put_def)
  qed
  show ?thesis
    unfolding asciinum_store_def num old Let_def room grow
    apply (intro sound_if)
    subgoal using k same bounds by (simp add: mem_simps reg sound_ret)
    subgoal by (simp add: sound_ret)
    subgoal
      using k off bs bounds asciinum_replace [OF ok k _ bs(1) edit refl refl]
      by (simp add: mem_simps wrap_simps reg sound_ret)
    done
qed

lemma sound_asciinum_at:
  assumes ok: "env_ok env" "mut_ok env m" and off: "off < mlen m" "isdigit (mbuf m ! off)"
  shows "sound (asciinum_at env m off) (refines_edit env MUT_ASCIINUM m)"
proof -
  note bounds = mut_bounds [OF ok]
  have dig0: "isdigit (live m ! off)" using off by (simp add: live_def)
  have next_off: "u32_add off 1 = Suc off" using off bounds by (simp add: wrap_simps)
  obtain e where e: "skip_digits (mbuf m) (Suc off) (mlen m) = Inr e" "Suc off \<le> e" "e \<le> mlen m"
    "\<forall>j. Suc off \<le> j \<and> j < e \<longrightarrow> isdigit (mbuf m ! j)"
    using skip_digits_ok [of "Suc off" "mlen m" "mbuf m"] off bounds by auto
  have digits: "list_all isdigit (region (live m) off (k - off))" if "k \<le> e" for k
    using that e off dig0
    by (auto simp: list_all_length region_def live_def)
      (metis le_add1 le_neq_implies_less less_diff_conv less_le_trans add.commute Suc_leI)
  have b: "0 \<le> uint (mbuf m ! off) - 48" "uint (mbuf m ! off) - 48 \<le> INT64_MAX"
    using isdigit_value [OF off(2)] by (auto simp: int64_consts)
  obtain v k where vk: "parse_loop (mbuf m) (Suc off) e (uint (mbuf m ! off) - 48) = Inr (v, k)"
    "Suc off \<le> k" "k \<le> e" "0 \<le> v" "v \<le> INT64_MAX"
    using parse_loop_ok [OF e(2) _ b] e bounds by (meson order_trans)
  have wr: "sound (asciinum_store env m off w k') (refines_edit env MUT_ASCIINUM m)"
    if "INT64_MIN \<le> w" "w \<le> INT64_MAX" "k - 1 \<le> k'" "k' \<le> k" for w k'
    using that vk e off dig0 digits by (intro sound_asciinum_store [OF ok]) auto
  have neg: "INT64_MIN \<le> v" "INT64_MIN \<le> - v" "- v \<le> INT64_MAX" "1 \<le> k" "k < 2 ^ 32"
    using vk e bounds by (auto simp: int64_consts)
  have strat: "sound (bnd (rand_below 8) (\<lambda>strat. bnd (asciinum_strat strat w k)
      (\<lambda>(v, k'). asciinum_store env m off v k'))) (refines_edit env MUT_ASCIINUM m)"
    if "INT64_MIN \<le> w" "w \<le> INT64_MAX" for w
    using that neg by (intro rb.sound_draw sound_bnd [OF sound_asciinum_strat]) (auto intro: wr)
  have "load (mbuf m) off = Inr (mbuf m ! off)"
    "load (mbuf m) (off - 1) = Inr (mbuf m ! (off - 1))"
    "off \<noteq> 0 \<Longrightarrow> u32_sub off 1 = off - 1"
    using off bounds by (auto simp: load_def wrap_simps)
  then show ?thesis
    unfolding asciinum_at_def next_off e(1)
    using vk(1,4,5) neg strat by (cases "off = 0") (simp_all add: s64_ok)
qed

lemma sound_asciinum:
  assumes ok: "env_ok env" "mut_ok env m"
  shows "sound (mut_asciinum env m) (refines_edit env MUT_ASCIINUM m)"
proof -
  note bounds = mut_bounds [OF ok]
  have body: "sound (bnd (chk (skip_nondigits (mbuf m) off (mlen m))) (\<lambda>i.
           if i = mlen m then
             bnd (chk (skip_nondigits (mbuf m) 0 off)) (\<lambda>i.
             if i = off then (if mlen m < 8 then ret (Done m) else ret Retry)
             else asciinum_at env m i)
           else asciinum_at env m i)) (refines_edit env MUT_ASCIINUM m)" if off: "off < mlen m" for off
  proof -
    obtain i where i: "skip_nondigits (mbuf m) off (mlen m) = Inr i" "i \<le> mlen m"
      "i < mlen m \<longrightarrow> isdigit (mbuf m ! i)"
      using skip_nondigits_ok [of off "mlen m" "mbuf m"] off bounds by auto
    obtain j where j: "skip_nondigits (mbuf m) 0 off = Inr j" "j \<le> off"
      "j < off \<longrightarrow> isdigit (mbuf m ! j)"
      using skip_nondigits_ok [of 0 off "mbuf m"] off bounds by auto
    show ?thesis
      using i j off by (auto simp: i(1) j(1) intro!: sound_ret refines_same [OF ok(2)]
          sound_asciinum_at [OF ok])
  qed
  show ?thesis
    unfolding mut_asciinum_def
    using bounds ok(2)
    by (intro sound_if [where b = "mlen m < 4"] rb.sound_draw_pos sound_ret refines_same body) auto
qed

lemma sound_insertasciinum:
  assumes ok: "env_ok env" "mut_ok env m"
  shows "sound (mut_insertasciinum m) (refines_edit env MUT_INSERTASCIINUM m)"
proof -
  note bounds = mut_bounds [OF ok]
  have body: "sound (bnd rand_next (\<lambda>val.
       let numbuf = snprintf_dec (uint val); val_len = length numbuf;
           (ins_len, off) = (if n > val_len then (val_len, 0) else (n, val_len - n))
       in bnd (chk (memcpy (mbuf m) pos numbuf off ins_len)) (\<lambda>buf.
          ret (Done (m\<lparr>mbuf := buf\<rparr>))))) (refines_edit env MUT_INSERTASCIINUM m)"
    if le: "pos + n \<le> mlen m" and n: "1 \<le> n" for pos n
  proof (rule sound_bnd [OF sound_rand_next])
    fix val :: u64
    define bs where "bs = dec_nat (unat val)"
    have num: "snprintf_dec (uint val) = bs" by (simp add: snprintf_dec_u64 bs_def)
    have wr: "sound (bnd (chk (memcpy (mbuf m) pos bs off k)) (\<lambda>buf. ret (Done (m\<lparr>mbuf := buf\<rparr>))))
        (refines_edit env MUT_INSERTASCIINUM m)"
      if "off + k = length bs" "k \<le> n" "1 \<le> k" for off k
    proof -
      have r: "region bs off k = drop off bs" using that by (simp add: region_def)
      have "refines_edit env MUT_INSERTASCIINUM m (Done (m\<lparr>mbuf := put (mbuf m) pos (drop off bs)\<rparr>))"
        using that le
        by (intro refines_put [OF ok(2)] havoc_edit.insertasciinum [where k = off and v = "unat val"])
          (auto simp: length_live [OF ok(2)] bs_def)
      then show ?thesis using that le bounds by (simp add: mem_simps r sound_ret)
    qed
    have "1 \<le> length bs" by (simp add: bs_def Suc_le_eq)
    then show "sound (let numbuf = snprintf_dec (uint val); val_len = length numbuf;
           (ins_len, off) = (if n > val_len then (val_len, 0) else (n, val_len - n))
       in bnd (chk (memcpy (mbuf m) pos numbuf off ins_len)) (\<lambda>buf.
          ret (Done (m\<lparr>mbuf := buf\<rparr>)))) (refines_edit env MUT_INSERTASCIINUM m)"
      unfolding num Let_def using n by (auto intro!: wr)
  qed
  show ?thesis
    unfolding mut_insertasciinum_def
    using bounds ok(2)
    by (intro rb.sound_draw_pos sound_Let sound_if [where b = "mlen m < u32_add _ _"]
        sound_if [where b = "mlen m < 8"] sound_ret refines_same refines_Retry body)
      (auto simp: wrap_simps HAVOC_BLK_XL_def)
qed

subsection \<open>Dictionary and splicing\<close>

lemma env_ok_extra:
  assumes "env_ok env" and "dict = extras env \<or> dict = a_extras env" and "i < length dict"
  shows "ex_len (dict ! i) \<le> length (ex_data (dict ! i))" and "ex_len (dict ! i) < 2 ^ 31"
proof -
  have "dict ! i \<in> set (extras env @ a_extras env)" using assms(2,3) by auto
  then show "ex_len (dict ! i) \<le> length (ex_data (dict ! i))" and "ex_len (dict ! i) < 2 ^ 31"
    using assms(1) by (auto simp: env_ok_def list_all_iff)
qed

lemma sound_extra_overwrite:
  assumes ok: "env_ok env" "mut_ok env m" and dict: "dict = extras env \<or> dict = a_extras env"
    and edit: "\<And>e i. e \<in> set dict \<Longrightarrow> i + ex_len e \<le> mlen m \<Longrightarrow>
      havoc_edit env op (live m) (put (live m) i (take (ex_len e) (ex_data e)))"
  shows "sound (mut_extra_overwrite dict m) (refines_edit env op m)"
proof -
  note bounds = mut_bounds [OF ok]
  have body: "sound (bnd (chk (memcpy (mbuf m) i (ex_data (dict ! u)) 0 (ex_len (dict ! u))))
      (\<lambda>buf. ret (Done (m\<lparr>mbuf := buf\<rparr>)))) (refines_edit env op m)"
    if "u < length dict" "ex_len (dict ! u) \<le> mlen m" "i < mlen m - ex_len (dict ! u) + 1" for u i
    using that env_ok_extra [OF ok(1) dict that(1)] bounds edit [of "dict ! u" i]
      refines_put [OF ok(2), of i "take (ex_len (dict ! u)) (ex_data (dict ! u))" op]
    by (simp add: mem_simps region_def sound_ret)
  show ?thesis
    unfolding mut_extra_overwrite_def Let_def
    using bounds
    by (intro sound_if rb.sound_draw_pos sound_ret refines_Retry sound_bnd_chk [OF load_ok] body)
      (auto simp: wrap_simps)
qed

lemma extra_insert_live:
  assumes "i \<le> l" and "l + length bs \<le> length buf"
  shows "take (l + length bs) (put (put buf (i + length bs) (region buf i (l - i))) i bs)
           = insert_at (take l buf) i bs"
  using assms
  by (intro nth_equalityI)
    (auto simp: nth_put nth_region insert_at_def nth_append)

lemma sound_extra_insert:
  assumes ok: "env_ok env" "mut_ok env m" and dict: "dict = extras env \<or> dict = a_extras env"
    and edit: "\<And>e i. e \<in> set dict \<Longrightarrow> i \<le> mlen m \<Longrightarrow>
      havoc_edit env op (live m) (insert_at (live m) i (take (ex_len e) (ex_data e)))"
  shows "sound (mut_extra_insert env dict m) (refines_edit env op m)"
proof -
  note bounds = mut_bounds [OF ok]
  have body: "sound (bnd (chk (memmove (mbuf m) (i + n) i (u32_sub (mlen m) i))) (\<lambda>buf.
      bnd (chk (memcpy buf i (ex_data e) 0 n)) (\<lambda>buf.
      ret (Done (m\<lparr>mbuf := buf, mlen := u32_add (mlen m) n\<rparr>))))) (refines_edit env op m)"
    if e: "e \<in> set dict" "n = ex_len e" "n \<le> length (ex_data e)" and n: "mlen m + n \<le> max_len env"
      and i: "i \<le> mlen m" for e i n
  proof -
    define bs where "bs = take n (ex_data e)"
    have bs: "length bs = n" "region (ex_data e) 0 n = bs" using e by (simp_all add: bs_def region_def)
    have "refines_edit env op m (Done (m\<lparr>mbuf := put (put (mbuf m) (i + n) (region (mbuf m) i (mlen m - i))) i bs,
        mlen := mlen m + n\<rparr>))"
      using extra_insert_live [of i "mlen m" bs "mbuf m"] edit [OF e(1) i] n i bounds bs e(2)
      by (simp add: refines_edit_def same_size_def mut_ok_def live_def bs_def)
    then show ?thesis
      using n i bounds bs e by (simp add: mem_simps wrap_simps sound_ret)
  qed
  have sum: "u32_add (mlen m) (ex_len (dict ! v)) = mlen m + ex_len (dict ! v)" if "v < length dict" for v
    using env_ok_extra(2) [OF ok(1) dict that] bounds by (intro u32_add_exact) simp
  have one: "u32_add (mlen m) 1 = mlen m + 1" using bounds by (simp add: wrap_simps)
  show ?thesis
    unfolding mut_extra_insert_def Let_def
    by (intro sound_if rb.sound_draw_pos sound_ret refines_Retry sound_bnd_chk [OF load_ok] body)
      (use bounds env_ok_extra [OF ok(1) dict] in \<open>auto simp: sum one [simplified]\<close>)
qed

lemma sound_splice_overwrite:
  assumes ok: "env_ok env" "mut_ok env m"
  shows "sound (mut_splice_overwrite env m) (refines_edit env MUT_SPLICE_OVERWRITE m)"
proof (cases "splice_buf env")
  case None
  then show ?thesis by (simp add: mut_splice_overwrite_def sound_ret)
next
  case (Some sp)
  note bounds = mut_bounds [OF ok]
  have sp: "splice_len env \<le> length sp" "splice_len env < 2 ^ 31"
    using ok(1) Some by (simp_all add: env_ok_def)
  have body: "sound (bnd (chk (memcpy (mbuf m) j sp i n)) (\<lambda>buf. ret (Done (m\<lparr>mbuf := buf\<rparr>))))
      (refines_edit env MUT_SPLICE_OVERWRITE m)"
    if "i + n \<le> splice_len env" "j + n \<le> mlen m" "1 \<le> n" for i j n
    using that sp bounds Some
    by (auto simp: mem_simps length_live [OF ok(2)] intro!: sound_ret refines_put [OF ok(2)]
        havoc_edit.splice_overwrite)
  show ?thesis
    unfolding mut_splice_overwrite_def Some option.case
    by (intro sound_if [where b = "splice_len env = 0"] sound_block rb.sound_draw_pos sound_Let
        sound_ret refines_Retry body)
      (use sp bounds in \<open>auto simp: wrap_simps max_def split: if_splits\<close>)
qed

lemma sound_splice_insert:
  assumes ok: "env_ok env" "mut_ok env m"
  shows "sound (mut_splice_insert env m) (refines_edit env MUT_SPLICE_INSERT m)"
proof (cases "splice_buf env")
  case None
  then show ?thesis by (simp add: mut_splice_insert_def sound_ret)
next
  case (Some sp)
  note bounds = mut_bounds [OF ok]
  have sp: "splice_len env \<le> length sp" "splice_len env < 2 ^ 31"
    using ok(1) Some by (simp_all add: env_ok_def)
  have ins: "\<exists>m'. insert_block m j n (\<lambda>tmp. memcpy tmp j sp i n) = Inr m' \<and>
      refines_edit env MUT_SPLICE_INSERT m (Done m')"
    if "1 \<le> n" "n \<le> HAVOC_BLK_XL" "i + n \<le> splice_len env" "j \<le> mlen m"
      "mlen m + HAVOC_BLK_XL \<le> max_len env" for i j n
    using that sp bounds Some
    by (intro insert_block_ok [OF ok, where bs = "region sp i n"])
      (auto simp: mem_simps length_live [OF ok(2)] intro!: havoc_edit.splice_insert)
  show ?thesis
    unfolding mut_splice_insert_def Some option.case
    by (intro sound_if sound_block rb.sound_draw_pos sound_ret refines_Retry sound_insert_block ins)
      (use sp bounds in \<open>auto simp: wrap_simps max_def split: if_splits\<close>)
qed

lemma swapped_16:
  "i + 2 \<le> length xs \<Longrightarrow> SWAP16 (le_word (region xs i 2)) = le_word (rev (region xs i 2))"
  by (simp add: region_2 SWAP16_le_word del: le_word.simps)

lemma swapped_32:
  "i + 4 \<le> length xs \<Longrightarrow> SWAP32 (le_word (region xs i 4)) = le_word (rev (region xs i 4))"
  by (simp add: region_4 SWAP32_le_word del: le_word.simps)

lemma sound_mut_apply:
  assumes ok: "env_ok env" "mut_ok env m"
  shows "sound (mut_apply env op m) (refines_edit env op m)"
proof -
  note l = length_live [OF ok(2)]
  note swaps = SWAP16_bytes SWAP32_bytes swapped_16 swapped_32 l
    arith16_sub_def arith16be_sub_def arith16_add_def arith16be_add_def
    arith32_sub_def arith32be_sub_def arith32_add_def arith32be_add_def
  have i16: "sound (mut_interesting16 id m) (refines_edit env MUT_INTERESTING16 m)"
    "sound (mut_interesting16 SWAP16 m) (refines_edit env MUT_INTERESTING16BE m)"
    by (rule sound_interesting16 [OF ok]; simp add: swaps havoc_edit.intros(4,5))+
  have i32: "sound (mut_interesting32 id m) (refines_edit env MUT_INTERESTING32 m)"
    "sound (mut_interesting32 SWAP32 m) (refines_edit env MUT_INTERESTING32BE m)"
    by (rule sound_interesting32 [OF ok]; simp add: swaps havoc_edit.intros(6,7))+
  have a16: "sound (mut_arith16 arith16_sub m) (refines_edit env MUT_ARITH16_SUB m)"
    "sound (mut_arith16 arith16be_sub m) (refines_edit env MUT_ARITH16BE_SUB m)"
    "sound (mut_arith16 arith16_add m) (refines_edit env MUT_ARITH16 m)"
    "sound (mut_arith16 arith16be_add m) (refines_edit env MUT_ARITH16BE m)"
    by (rule sound_arith16 [OF ok]; simp add: swaps havoc_edit.arith16_sub havoc_edit.arith16be_sub
        havoc_edit.arith16 havoc_edit.arith16be)+
  have a32: "sound (mut_arith32 arith32_sub m) (refines_edit env MUT_ARITH32_SUB m)"
    "sound (mut_arith32 arith32be_sub m) (refines_edit env MUT_ARITH32BE_SUB m)"
    "sound (mut_arith32 arith32_add m) (refines_edit env MUT_ARITH32 m)"
    "sound (mut_arith32 arith32be_add m) (refines_edit env MUT_ARITH32BE m)"
    by (rule sound_arith32 [OF ok]; simp add: swaps havoc_edit.arith32_sub havoc_edit.arith32be_sub
        havoc_edit.arith32 havoc_edit.arith32be)+
  have extra: "sound (mut_extra_overwrite (extras env) m) (refines_edit env MUT_EXTRA_OVERWRITE m)"
    "sound (mut_extra_overwrite (a_extras env) m) (refines_edit env MUT_AUTO_EXTRA_OVERWRITE m)"
    "sound (mut_extra_insert env (extras env) m) (refines_edit env MUT_EXTRA_INSERT m)"
    "sound (mut_extra_insert env (a_extras env) m) (refines_edit env MUT_AUTO_EXTRA_INSERT m)"
    by (auto intro!: sound_extra_overwrite [OF ok] sound_extra_insert [OF ok] simp: l
        intro: havoc_edit.intros)
  show ?thesis
    by (cases op) (simp_all add: i16 i32 a16 a32 extra sound_byte_ops [OF ok(2)]
        sound_interesting8 [OF ok(2)] sound_clone_copy [OF ok] sound_clone_fixed [OF ok]
        sound_overwrite_copy [OF ok] sound_overwrite_fixed [OF ok] sound_switch [OF ok]
        sound_del [OF ok] sound_shuffle [OF ok] sound_delone [OF ok] sound_insertone [OF ok]
        sound_asciinum [OF ok] sound_insertasciinum [OF ok] sound_splice_overwrite [OF ok]
        sound_splice_insert [OF ok])
qed

end
