(* ===== verification/AFL_Havoc.thy ===== *)
theory AFL_Havoc
  imports AFL_Mut_Spec
begin

text \<open>
  Theorems about the havoc loop of \<open>afl_mutate\<close> and about single operators, as consequences of
  the refinement proved in \<open>AFL_Mut_Spec\<close>.
\<close>

text \<open>One round of the loop may apply any operator of the strategy table.\<close>

definition havoc_rel :: "mut_env \<Rightarrow> mutator list \<Rightarrow> bytes \<Rightarrow> bytes \<Rightarrow> bool" where
  "havoc_rel env tbl xs ys \<longleftrightarrow> (\<exists>op \<in> set tbl. havoc_edit env op xs ys)"



text \<open>A small configuration for the witnesses below.\<close>

definition sample_env :: mut_env where
  "sample_env = \<lparr>queue_cycle = 1, run_over10m = True, extras = [], a_extras = [],
     splice_buf = None, splice_len = 0, max_len = 6\<rparr>"

definition sample_realloc :: "bytes \<Rightarrow> nat \<Rightarrow> bytes option" where
  "sample_realloc t n = Some (take n t @ replicate (n - length t) 0)"

definition zero_seeds :: "rng_state \<Rightarrow> bool" where
  "zero_seeds s \<longleftrightarrow> rand_seed0 s = 0 \<and> rand_seed1 s = 0 \<and> fixed_seed s"

text \<open>A generator state whose first two outputs are \<open>0\<close> and \<open>3\<close>.\<close>

definition switch_seed :: rng_state where
  "switch_seed = \<lparr>rand_seed0 = 0, rand_seed1 = 14664754435099848489, rand_seed2 = 0,
     rand_cnt = 0, init_seed = 0, fixed_seed = True, urandom = (\<lambda>_. None), urandom_pos = 0\<rparr>"

lemma sample_ok: "env_ok sample_env" "max_len sample_env = 6"
  by (simp_all add: sample_env_def env_ok_def HAVOC_BLK_XL_def)

section \<open>The loop\<close>

lemma table_lengths:
  "length (mutation_array is_text is_exploration) = MUT_STRATEGY_ARRAY_SIZE"
  by (simp add: mutation_array_def MUT_STRATEGY_ARRAY_SIZE_def
      mutation_strategy_exploration_text_def mutation_strategy_exploration_binary_def
      mutation_strategy_exploitation_text_def mutation_strategy_exploitation_binary_def)

lemma sound_havoc_step:
  assumes ok: "env_ok env" "mut_ok env m" and tbl: "length tbl = MUT_STRATEGY_ARRAY_SIZE"
  shows "sound (havoc_step env tbl m)
    (\<lambda>m'. mut_ok env m' \<and> same_size m m' \<and> havoc_rel env tbl (live m) (live m'))"
    (is "sound _ (?Q env tbl m)")
proof (rule soundI_result)
  fix s r assume ret: "havoc_step env tbl m s = Some r"
  have "env_ok env \<and> mut_ok env m \<and> length tbl = MUT_STRATEGY_ARRAY_SIZE \<longrightarrow>
      good_result (?Q env tbl m) r"
  proof (rule havoc_step.raw_induct [where P = "\<lambda>env tbl m s r.
        env_ok env \<and> mut_ok env m \<and> length tbl = MUT_STRATEGY_ARRAY_SIZE \<longrightarrow>
        good_result (?Q env tbl m) r", OF _ ret], intro impI, elim conjE)
    fix f env tbl m s r
    assume IH: "\<And>env tbl m s r. f env tbl m s = Some r \<Longrightarrow>
        env_ok env \<and> mut_ok env m \<and> length tbl = MUT_STRATEGY_ARRAY_SIZE \<longrightarrow>
        good_result (?Q env tbl m) r"
      and eq: "bnd (rand_below MUT_STRATEGY_ARRAY_SIZE) (\<lambda>r.
         bnd (chk (load tbl r)) (\<lambda>op. bnd (mut_apply env op m) (\<lambda>out s.
         case out of Done m' \<Rightarrow> ret m' s | Retry \<Rightarrow> f env tbl m s))) s = Some r"
      and ok: "env_ok env" "mut_ok env m" and tbl: "length tbl = MUT_STRATEGY_ARRAY_SIZE"
    have retry: "sound (f env tbl m) (?Q env tbl m)"
      using IH ok tbl by (intro soundI_result) blast
    have step: "sound (bnd (mut_apply env op m) (\<lambda>out s.
         case out of Done m' \<Rightarrow> ret m' s | Retry \<Rightarrow> f env tbl m s)) (?Q env tbl m)"
      if "op \<in> set tbl" for op
    proof (rule sound_bnd [OF sound_mut_apply [OF ok]])
      fix out assume "refines_edit env op m out"
      then show "sound (\<lambda>s. case out of Done m' \<Rightarrow> ret m' s | Retry \<Rightarrow> f env tbl m s) (?Q env tbl m)"
        using that retry by (cases out) (auto simp: refines_edit_def havoc_rel_def intro: sound_ret)
    qed
    have "sound (bnd (rand_below MUT_STRATEGY_ARRAY_SIZE) (\<lambda>r.
         bnd (chk (load tbl r)) (\<lambda>op. bnd (mut_apply env op m) (\<lambda>out s.
         case out of Done m' \<Rightarrow> ret m' s | Retry \<Rightarrow> f env tbl m s)))) (?Q env tbl m)"
      using tbl by (intro rb.sound_draw_pos sound_bnd_chk [OF load_ok] step)
        (auto simp: MUT_STRATEGY_ARRAY_SIZE_def)
    then show "good_result (?Q env tbl m) r" using eq by (rule sound_good)
  qed
  with assms show "good_result (?Q env tbl m) r" by blast
qed

lemma sound_havoc_loop:
  assumes "env_ok env" and "mut_ok env m" and "length tbl = MUT_STRATEGY_ARRAY_SIZE"
  shows "sound (havoc_loop env tbl steps m)
    (\<lambda>m'. mut_ok env m' \<and> same_size m m' \<and> (havoc_rel env tbl ^^ steps) (live m) (live m'))"
  using assms
proof (induction steps arbitrary: m)
  case 0
  then show ?case by (auto simp: same_size_def intro!: sound_ret)
next
  case (Suc steps)
  show ?case
    unfolding havoc_loop.simps
  proof (rule sound_bnd [OF sound_havoc_step [OF Suc.prems]])
    fix m' assume "mut_ok env m' \<and> same_size m m' \<and> havoc_rel env tbl (live m) (live m')"
    then show "sound (havoc_loop env tbl steps m')
      (\<lambda>m''. mut_ok env m'' \<and> same_size m m'' \<and> (havoc_rel env tbl ^^ Suc steps) (live m) (live m''))"
      using Suc.prems
      by (intro sound_weaken [OF Suc.IH]) (auto simp: same_size_def simp del: relpowp.simps intro: relpowp_Suc_I2)
  qed
qed

text \<open>
  C1. Havoc is memory safe and does only what its operators specify: for an input of length \<open>len\<close>
  in a buffer of at least \<open>max_len\<close> bytes, \<open>afl_mutate\<close> never accesses memory outside its buffers,
  never copies between overlapping regions with \<open>memcpy\<close> and never overflows a signed integer.
  When it returns, the buffer has its old size and either the returned length is \<open>0\<close> and nothing
  was changed (an empty input or a failed allocation), or it lies between \<open>1\<close> and \<open>max_len\<close> and the
  new input is the result of exactly \<open>steps\<close> edits by operators of the chosen strategy table.
\<close>

theorem afl_mutate_safe:
  assumes "env_ok env" and "len \<le> max_len env" and "max_len env \<le> length buf"
    and "\<forall>t n t'. realloc t n = Some t' \<longrightarrow> length t' = n"
  shows "sound (afl_mutate realloc env tmp (Some buf) len steps is_text is_exploration)
    (\<lambda>(buf', len', tmp'). \<exists>b'. buf' = Some b' \<and> length b' = length buf \<and>
       (if len = 0 \<or> length tmp < max_len env \<and> realloc tmp (max_len env) = None
        then len' = 0 \<and> b' = buf
        else 0 < len' \<and> len' \<le> max_len env \<and>
          (havoc_rel env (mutation_array is_text is_exploration) ^^ steps)
            (take len buf) (take len' b')))"
proof (cases "len = 0 \<or> length tmp < max_len env \<and> realloc tmp (max_len env) = None")
  case True
  then have "afl_mutate realloc env tmp (Some buf) len steps is_text is_exploration
      = ret (Some buf, 0, tmp)"
    by (auto simp: afl_mutate_def Let_def)
  with True show ?thesis by (simp add: sound_ret)
next
  case False
  define grown where "grown = (if max_len env > length tmp then realloc tmp (max_len env) else Some tmp)"
  obtain t where t: "grown = Some t" "max_len env \<le> length t"
  proof (cases "max_len env > length tmp")
    case True
    with False obtain t where "realloc tmp (max_len env) = Some t" by auto
    with True assms(4) show thesis by (intro that [of t]) (auto simp: grown_def)
  next
    case False
    then show thesis by (intro that [of tmp]) (auto simp: grown_def)
  qed
  have ok: "mut_ok env \<lparr>mbuf = buf, mlen = len, tmp_buf = t\<rparr>"
    using False assms t by (simp add: mut_ok_def)
  have run: "afl_mutate realloc env tmp (Some buf) len steps is_text is_exploration =
      bnd (havoc_loop env (mutation_array is_text is_exploration) steps
             \<lparr>mbuf = buf, mlen = len, tmp_buf = t\<rparr>) (\<lambda>m. ret (Some (mbuf m), mlen m, tmp_buf m))"
    using False t(1) by (simp add: afl_mutate_def grown_def [symmetric])
  show ?thesis
    unfolding run using False
    by (intro sound_bnd [OF sound_havoc_loop [OF assms(1) ok table_lengths]] sound_ret)
      (auto simp: mut_ok_def same_size_def live_def)
qed

theorem afl_mutate_safe_witness:
  "sound (afl_mutate sample_realloc sample_env [] (Some [1, 2, 3, 4, 0, 0]) 4 2 True True)
    (\<lambda>(buf', len', tmp'). \<exists>b'. buf' = Some b' \<and> length b' = length [1, 2, 3, 4, 0, 0 :: u8] \<and>
       (if 4 = (0 :: nat) \<or> length ([] :: bytes) < max_len sample_env \<and> sample_realloc [] (max_len sample_env) = None
        then len' = 0 \<and> b' = [1, 2, 3, 4, 0, 0]
        else 0 < len' \<and> len' \<le> max_len sample_env \<and>
          (havoc_rel sample_env (mutation_array True True) ^^ 2)
            (take 4 [1, 2, 3, 4, 0, 0]) (take len' b')))"
  by (rule afl_mutate_safe) (auto simp: sample_ok sample_realloc_def)

section \<open>Termination\<close>








lemma zero_draw:
  assumes "rand_seed0 s = 0" and "rand_seed1 s = 0" and "fixed_seed s" and n: "n < 2 ^ 32"
  shows "\<exists>s'. rand_below n s = Some (Inr (0, s')) \<and> rand_seed0 s' = 0 \<and> rand_seed1 s' = 0 \<and> fixed_seed s'"
proof (cases "n \<le> 1")
  case True
  then show ?thesis using assms by (simp add: rand_below_def ret_def)
next
  case False
  have acc: "accepted n 0"
  proof -
    have "(2 ^ 64 - 1) mod n < n" using False by simp
    then show ?thesis using n by (simp add: accepted_def)
  qed
  have rot: "ROTL (0 :: u64) 27 = 0" by (simp add: ROTL_def)
  define t where "t = s\<lparr>rand_cnt := rand_cnt s - 1\<rparr>"
  have "rand_below_loop n t = Some (Inr (0, t\<lparr>rand_seed0 := 0, rand_seed1 := 0\<rparr>))"
    using assms acc
    by (subst rand_below_loop.simps) (simp add: bnd_def rand_next_def ret_def romu_step_def rot t_def)
  then have "rand_below n s = Some (Inr (0, t\<lparr>rand_seed0 := 0, rand_seed1 := 0\<rparr>))"
    using assms False by (simp add: rand_below_def bnd_def ret_def rand_reseed_def t_def)
  then show ?thesis using assms by (simp add: t_def)
qed



section \<open>Single operators\<close>

text \<open>
  C23. \<open>choose_block_len\<close> returns a length that a block operation may use: at least \<open>1\<close>, at most the
  limit (or \<open>1\<close> for the limit \<open>0\<close>) and at most \<open>HAVOC_BLK_XL\<close>.
\<close>

theorem choose_block_len_bounds:
  assumes "limit < 2 ^ 32" and "choose_block_len env limit s = Some (Inr (n, s'))"
  shows "1 \<le> n \<and> n \<le> max 1 limit \<and> n \<le> HAVOC_BLK_XL"
  using sound_result [OF sound_choose_block_len [OF assms(1)] assms(2)] .

lemma choose_block_len_zero_seed:
  assumes zero: "zero_seeds s"
  shows "\<exists>s'. choose_block_len sample_env 5 s = Some (Inr (1, s'))"
proof -
  obtain s1 where s1: "rand_below 1 s = Some (Inr (0, s1))" "zero_seeds s1"
    using zero_draw [of s 1] zero by (auto simp: zero_seeds_def)
  obtain s2 where s2: "rand_below 5 s1 = Some (Inr (0, s2))"
    using zero_draw [of s1 5] s1 by (auto simp: zero_seeds_def)
  show ?thesis
    using s1(1) s2 by (simp add: choose_block_len_def sample_env_def bnd_def ret_def havoc_consts
        u32_sub_def u32_add_def)
qed

theorem choose_block_len_bounds_witness:
  "\<exists>s s' n. choose_block_len sample_env 5 s = Some (Inr (n, s')) \<and> 1 \<le> n \<and> n \<le> 5"
proof -
  obtain s where "zero_seeds s"
    by (rule that [of "\<lparr>rand_seed0 = 0, rand_seed1 = 0, rand_seed2 = 0, rand_cnt = 0, init_seed = 0,
         fixed_seed = True, urandom = (\<lambda>_. None), urandom_pos = 0\<rparr>"]) (simp add: zero_seeds_def)
  then obtain s' where r: "choose_block_len sample_env 5 s = Some (Inr (1, s'))"
    using choose_block_len_zero_seed by blast
  have "1 \<le> (1 :: nat) \<and> 1 \<le> max 1 (5 :: nat) \<and> 1 \<le> HAVOC_BLK_XL"
    by (rule choose_block_len_bounds [OF _ r]) simp
  with r show ?thesis by (intro exI [of _ s] exI [of _ s'] exI [of _ 1]) simp
qed

lemma mset_put:
  "i + length bs \<le> length xs \<Longrightarrow> mset (put xs i bs) + mset (region xs i (length bs)) = mset xs + mset bs"
  using arg_cong [OF put_region_same [of i "length bs" xs], of mset]
  by (simp add: put_def ac_simps)

lemma region_put_apart:
  assumes "i + length bs \<le> length xs" and "j + n \<le> length xs" and "i + length bs \<le> j \<or> j + n \<le> i"
  shows "region (put xs i bs) j n = region xs j n"
  using assms by (intro nth_equalityI) (auto simp: nth_region nth_put)

inductive_cases havoc_edit_SWITCH: "havoc_edit env MUT_SWITCH xs ys"
inductive_cases havoc_edit_SHUFFLE: "havoc_edit env MUT_SHUFFLE xs ys"

lemma switch_mset:
  assumes "havoc_edit env MUT_SWITCH xs ys"
  shows "mset ys = mset xs"
  using assms
proof (rule havoc_edit_SWITCH)
  fix i n j
  assume ys: "ys = put (put xs i (region xs j n)) j (region xs i n)"
    and apart: "i + n \<le> j \<or> j + n \<le> i" and le: "i + n \<le> length xs" "j + n \<le> length xs"
  define zs where "zs = put xs i (region xs j n)"
  have "mset ys + mset (region zs j n) = mset zs + mset (region xs i n)"
    using mset_put [of j "region xs i n" zs] le by (simp add: ys zs_def)
  moreover have "region zs j n = region xs j n"
    using apart le by (simp add: zs_def region_put_apart)
  moreover have "mset zs + mset (region xs i n) = mset xs + mset (region xs j n)"
    using mset_put [of i "region xs j n" xs] le by (simp add: zs_def)
  ultimately show ?thesis by simp
qed simp

lemma shuffle_mset:
  assumes "havoc_edit env MUT_SHUFFLE xs ys"
  shows "mset ys = mset xs"
  using assms
proof (rule havoc_edit_SHUFFLE)
  fix i n bs
  assume ys: "ys = put xs i bs" and le: "i + n \<le> length xs" and bs: "mset bs = mset (region xs i n)"
  have "length bs = n" using mset_eq_length [OF bs] le by simp
  then show ?thesis using mset_put [of i bs xs] le bs by (simp add: ys)
qed simp

text \<open>
  C20. Switching and shuffling only reorder: whatever blocks are chosen, the input keeps its length
  and the multiset of its bytes.
\<close>

theorem switch_shuffle_permute:
  assumes "env_ok env" and "mut_ok env m" and "op = MUT_SWITCH \<or> op = MUT_SHUFFLE"
    and "mut_apply env op m s = Some (Inr (Done m', s'))"
  shows "mlen m' = mlen m \<and> mset (live m') = mset (live m)"
proof -
  have r: "refines_edit env op m (Done m')"
    using sound_result [OF sound_mut_apply [OF assms(1,2)] assms(4)] .
  then have "mset (live m') = mset (live m)"
    using assms(3) by (auto simp: refines_edit_def switch_mset shuffle_mset)
  moreover have "mut_ok env m'" using r by (simp add: refines_edit_def)
  ultimately show ?thesis
    using length_live [OF assms(2)] length_live [of env m'] mset_eq_length by metis
qed

lemma switch_run:
  "\<exists>s'. mut_apply sample_env MUT_SWITCH \<lparr>mbuf = [1, 2, 3, 4, 0, 0], mlen = 4, tmp_buf = [0, 0, 0, 0, 0, 0]\<rparr>
      switch_seed
    = Some (Inr (Done \<lparr>mbuf = [4, 2, 3, 1, 0, 0], mlen = 4, tmp_buf = [1, 0, 0, 0, 0, 0]\<rparr>, s'))"
proof -
  define s1 where "s1 = switch_seed\<lparr>rand_cnt := - 1, rand_seed0 := 3,
      rand_seed1 := ROTL 14664754435099848489 27\<rparr>"
  define s2 where "s2 = s1\<lparr>rand_cnt := - 2, rand_seed0 := fst (romu_step (rand_seed0 s1, rand_seed1 s1)),
      rand_seed1 := snd (romu_step (rand_seed0 s1, rand_seed1 s1))\<rparr>"
  have acc: "accepted 4 0" "accepted 4 3" by (simp_all add: accepted_def)
  have d1: "rand_below 4 switch_seed = Some (Inr (0, s1))"
    by (simp add: rand_below_def bnd_def rand_reseed_def switch_seed_def)
      (subst rand_below_loop.simps,
       simp add: bnd_def rand_next_def ret_def acc romu_step_def s1_def switch_seed_def)
  have d2: "rand_below 4 s1 = Some (Inr (3, s2))"
    by (simp add: rand_below_def bnd_def rand_reseed_def s1_def switch_seed_def)
      (subst rand_below_loop.simps,
       simp add: bnd_def rand_next_def ret_def acc split_beta s2_def s1_def switch_seed_def)
  have d3: "draw_other 4 0 s1 = Some (Inr (3, s2))"
    by (subst draw_other.simps) (simp add: bnd_def d2 ret_def)
  have one: "rand_below 1 s = Some (Inr (0, s))" for s by (simp add: rand_below_def ret_def)
  have blk: "choose_block_len sample_env 1 s = Some (Inr (1, s))" for s
    by (simp add: choose_block_len_def sample_env_def bnd_def one [simplified] ret_def havoc_consts
        u32_sub_def u32_add_def)
  have sub: "u32_sub 3 0 = 3" "u32_sub 4 3 = 1" by (simp_all add: u32_sub_def)
  show ?thesis
    by (simp add: mut_switch_def bnd_def d1 d3 sub blk [simplified] ret_def chk_def memcpy_def memcpy_in_def)
qed

theorem switch_shuffle_permute_witness:
  "mlen (\<lparr>mbuf = [4, 2, 3, 1, 0, 0], mlen = 4, tmp_buf = [1, 0, 0, 0, 0, 0]\<rparr> :: mut_state) = 4 \<and>
   mset (live \<lparr>mbuf = [4, 2, 3, 1, 0, 0], mlen = 4, tmp_buf = [1, 0, 0, 0, 0, 0]\<rparr>)
     = mset (live \<lparr>mbuf = [1, 2, 3, 4, 0, 0], mlen = 4, tmp_buf = [0, 0, 0, 0, 0, 0]\<rparr>)"
proof -
  obtain s' where run: "mut_apply sample_env MUT_SWITCH
      \<lparr>mbuf = [1, 2, 3, 4, 0, 0], mlen = 4, tmp_buf = [0, 0, 0, 0, 0, 0]\<rparr> switch_seed
    = Some (Inr (Done \<lparr>mbuf = [4, 2, 3, 1, 0, 0], mlen = 4, tmp_buf = [1, 0, 0, 0, 0, 0]\<rparr>, s'))"
    using switch_run by blast
  show ?thesis
    using switch_shuffle_permute [OF sample_ok(1) _ _ run] by (simp add: mut_ok_def sample_ok(2))
qed




text \<open>
  C24. \<open>MUT_ARITH32BE\<close> does not add in big endian: its two byte swaps cancel, so it writes exactly
  what \<open>MUT_ARITH32\<close> writes, and on some values this differs from a big-endian addition.
\<close>

theorem arith32be_adds_little_endian:
  "arith32be_add = arith32_add \<and> arith32be_add 0xFF000000 1 \<noteq> SWAP32 (SWAP32 0xFF000000 + 1)"
proof
  show "arith32be_add = arith32_add"
    by (simp add: fun_eq_iff arith32be_add_def arith32_add_def)
  show "arith32be_add 0xFF000000 1 \<noteq> SWAP32 (SWAP32 0xFF000000 + 1)"
    by (simp add: arith32be_add_def SWAP32_def)
qed



section \<open>Decimal numbers\<close>









end
