(* ===== verification/AFL_Coverage.thy ===== *)
theory AFL_Coverage
  imports AFL_Types
begin

text \<open>
  Coverage maps: the lookup tables and the routines of \<open>src/afl-fuzz-bitmap.c\<close> on the trace and
  virgin maps, with the word-wise loops of \<open>include/coverage-64.h\<close> and \<open>include/coverage-32.h\<close>.

  \<^item> A map is the list of its machine words, 64-bit or 32-bit as the build has it; its bytes, in
    the order of a little-endian machine, are \<open>bytes_of\<close>. Loops access words by index and fault
    outside the map.
  \<^item> Code that both headers have in the same form is written once, with the word routines
    (\<open>classify_word\<close>, \<open>discover_word\<close>, \<open>simplify\<close>) as arguments.
  \<^item> The locale \<open>coverage_word\<close> is the contract between the word routines and the loops: what each
    word routine does to bytes. It is interpreted for both word sizes.
\<close>

section \<open>Tables\<close>

definition simplify_lookup :: "u8 list" where
  "simplify_lookup = 1 # replicate 255 128"

definition count_class_lookup8 :: "u8 list" where
  "count_class_lookup8 =
     [0, 1] @ replicate 2 2 @ replicate 4 4 @ replicate 8 8 @ replicate 16 16 @ replicate 32 32 @
     replicate 64 64 @ replicate 128 128"

definition init_count_class16 :: "u16 list \<Rightarrow> u16 list" where
  "init_count_class16 =
     fold (\<lambda>b1. fold (\<lambda>b2 t.
         t[b1 * 256 + b2 :=
             push_bit 8 (ucast (count_class_lookup8 ! b1)) OR ucast (count_class_lookup8 ! b2)])
       [0..<256]) [0..<256]"

text \<open>The global array, zero before \<open>main\<close> calls \<open>init_count_class16\<close>.\<close>

definition count_class_lookup16 :: "u16 list" where
  "count_class_lookup16 = init_count_class16 (replicate 65536 0)"

section \<open>Words of 64 bits\<close>

definition classify_word64 :: "u64 \<Rightarrow> u64" where
  "classify_word64 word =
     (let mem16 = (\<lambda>k. count_class_lookup16 ! unat (ucast (drop_bit (16 * k) word) :: u16))
      in ucast (mem16 0) OR push_bit 16 (ucast (mem16 1)) OR push_bit 32 (ucast (mem16 2))
         OR push_bit 48 (ucast (mem16 3)))"

definition simplify_word64 :: "u64 \<Rightarrow> u64" where
  "simplify_word64 mem =
     (if mem \<noteq> 0 then le_word (map (\<lambda>b. simplify_lookup ! unat b) (le_bytes 8 mem))
      else 0x0101010101010101)"

definition discover_word64 :: "nat \<Rightarrow> u64 \<Rightarrow> u64 \<Rightarrow> nat \<times> u64" where
  "discover_word64 r current virgin =
     (if current AND virgin \<noteq> 0 then
        (let r = (if r < 2 then
             let cur = le_bytes 8 current; vir = le_bytes 8 virgin
             in if (cur ! 0 \<noteq> 0 \<and> vir ! 0 = 0xff) \<or> (cur ! 1 \<noteq> 0 \<and> vir ! 1 = 0xff) \<or>
                   (cur ! 2 \<noteq> 0 \<and> vir ! 2 = 0xff) \<or> (cur ! 3 \<noteq> 0 \<and> vir ! 3 = 0xff) \<or>
                   (cur ! 4 \<noteq> 0 \<and> vir ! 4 = 0xff) \<or> (cur ! 5 \<noteq> 0 \<and> vir ! 5 = 0xff) \<or>
                   (cur ! 6 \<noteq> 0 \<and> vir ! 6 = 0xff) \<or> (cur ! 7 \<noteq> 0 \<and> vir ! 7 = 0xff)
                then 2 else 1
           else r)
         in (r, virgin AND NOT current))
      else (r, virgin))"

section \<open>Words of 32 bits\<close>




section \<open>Loops over a map\<close>

fun simplify_loop :: "('w \<Rightarrow> 'w) \<Rightarrow> nat \<Rightarrow> nat \<Rightarrow> 'w list \<Rightarrow> fault + 'w list" where
  "simplify_loop smp 0 k mem = Inr mem"
| "simplify_loop smp (Suc i) k mem =
     fbind (load mem k) (\<lambda>w. fbind (store mem k (smp w)) (\<lambda>mem. simplify_loop smp i (Suc k) mem))"

fun classify_loop :: "('w::zero \<Rightarrow> 'w) \<Rightarrow> nat \<Rightarrow> nat \<Rightarrow> 'w list \<Rightarrow> fault + 'w list" where
  "classify_loop cw 0 k mem = Inr mem"
| "classify_loop cw (Suc i) k mem =
     fbind (load mem k) (\<lambda>w.
       if w \<noteq> 0 then fbind (store mem k (cw w)) (\<lambda>mem. classify_loop cw i (Suc k) mem)
       else classify_loop cw i (Suc k) mem)"

fun has_new_bits_loop ::
  "(nat \<Rightarrow> 'w::zero \<Rightarrow> 'w \<Rightarrow> nat \<times> 'w) \<Rightarrow> nat \<Rightarrow> nat \<Rightarrow> 'w list \<Rightarrow> 'w list \<Rightarrow> nat \<Rightarrow>
     fault + nat \<times> 'w list" where
  "has_new_bits_loop disc 0 k current virgin r = Inr (r, virgin)"
| "has_new_bits_loop disc (Suc i) k current virgin r =
     fbind (load current k) (\<lambda>c.
       if c \<noteq> 0 then
         fbind (load virgin k) (\<lambda>v.
         let (r, v) = disc r c v in
         fbind (store virgin k v) (\<lambda>virgin. has_new_bits_loop disc i (Suc k) current virgin r))
       else has_new_bits_loop disc i (Suc k) current virgin r)"

text \<open>
  \<open>skim\<close>: the portable version looks at four words per round; \<open>stop\<close> is \<open>current_end\<close> as a word
  index. \<open>skim_word\<close> is one of its tests.
\<close>

definition skim_word ::
  "('w::{zero,semiring_bit_operations} \<Rightarrow> 'w) \<Rightarrow> 'w list \<Rightarrow> 'w list \<Rightarrow> nat \<Rightarrow> fault + bool" where
  "skim_word cw virgin current k =
     fbind (load current k) (\<lambda>c.
       if c \<noteq> 0 then fbind (load virgin k) (\<lambda>v. Inr (cw c AND v \<noteq> 0)) else Inr False)"

function skim ::
  "('w::{zero,semiring_bit_operations} \<Rightarrow> 'w) \<Rightarrow> 'w list \<Rightarrow> 'w list \<Rightarrow> nat \<Rightarrow> nat \<Rightarrow> fault + bool" where
  "skim cw virgin current k stop =
     (if k < stop then
        fbind (skim_word cw virgin current k) (\<lambda>b. if b then Inr True else
        fbind (skim_word cw virgin current (k + 1)) (\<lambda>b. if b then Inr True else
        fbind (skim_word cw virgin current (k + 2)) (\<lambda>b. if b then Inr True else
        fbind (skim_word cw virgin current (k + 3)) (\<lambda>b. if b then Inr True else
        skim cw virgin current (k + 4) stop))))
      else Inr False)"
  by pat_completeness auto
termination by (relation "measure (\<lambda>(cw, virgin, current, k, stop). stop - k)") auto

text \<open>
  The AVX2 version compares four words with zero at once. \<open>avx2_mask\<close> is the value of
  \<open>_mm256_movemask_epi8(_mm256_cmpeq_epi64(value, zeroes))\<close>: eight ones for each word that is zero.
\<close>

definition avx2_mask :: "u64 \<Rightarrow> u64 \<Rightarrow> u64 \<Rightarrow> u64 \<Rightarrow> u32" where
  "avx2_mask c0 c1 c2 c3 =
     (if c0 = 0 then 0xff else 0) OR (if c1 = 0 then 0xff00 else 0) OR
     (if c2 = 0 then 0xff0000 else 0) OR (if c3 = 0 then 0xff000000 else 0)"

definition skim_masked :: "bool \<Rightarrow> u64 list \<Rightarrow> u64 \<Rightarrow> nat \<Rightarrow> fault + bool" where
  "skim_masked unset virgin c k =
     (if unset then fbind (load virgin k) (\<lambda>v. Inr (classify_word64 c AND v \<noteq> 0)) else Inr False)"

function skim_avx2 :: "u64 list \<Rightarrow> u64 list \<Rightarrow> nat \<Rightarrow> nat \<Rightarrow> fault + bool" where
  "skim_avx2 virgin current k stop =
     (if k < stop then
        fbind (load current k) (\<lambda>c0. fbind (load current (k + 1)) (\<lambda>c1.
        fbind (load current (k + 2)) (\<lambda>c2. fbind (load current (k + 3)) (\<lambda>c3.
        let zmask = avx2_mask c0 c1 c2 c3 in
        if zmask = - 1 then skim_avx2 virgin current (k + 4) stop
        else
          fbind (skim_masked (zmask AND 0xff = 0) virgin c0 k) (\<lambda>b. if b then Inr True else
          fbind (skim_masked (zmask AND 0xff00 = 0) virgin c1 (k + 1)) (\<lambda>b. if b then Inr True else
          fbind (skim_masked (zmask AND 0xff0000 = 0) virgin c2 (k + 2)) (\<lambda>b. if b then Inr True else
          fbind (skim_masked (zmask AND 0xff000000 = 0) virgin c3 (k + 3)) (\<lambda>b. if b then Inr True else
          skim_avx2 virgin current (k + 4) stop))))))))
      else Inr False)"
  by pat_completeness auto
termination by (relation "measure (\<lambda>(virgin, current, k, stop). stop - k)") auto

text \<open>
  The AVX-512 version takes eight words per round. \<open>avx512_mask\<close> is the value of
  \<open>_mm512_testn_epi64_mask(value, value)\<close>: a one for each word that is zero. Its loop runs until
  \<open>current\<close> equals \<open>current_end\<close>, so on a map that is not a multiple of \<open>64\<close> bytes it runs past it
  and leaves the map.
\<close>

definition avx512_mask :: "u64 list \<Rightarrow> u8" where
  "avx512_mask cs = foldr (\<lambda>c m. push_bit 1 m OR (if c = 0 then 1 else 0)) cs 0"

fun unroll_avx512 :: "u8 \<Rightarrow> u64 list \<Rightarrow> u64 list \<Rightarrow> nat \<Rightarrow> nat \<Rightarrow> fault + bool" where
  "unroll_avx512 zmask virgin [] x k = Inr False"
| "unroll_avx512 zmask virgin (c # cs) x k =
     fbind (skim_masked (zmask AND push_bit x 1 = 0) virgin c k) (\<lambda>b.
       if b then Inr True else unroll_avx512 zmask virgin cs (Suc x) (Suc k))"

function skim_avx512 :: "u64 list \<Rightarrow> u64 list \<Rightarrow> nat \<Rightarrow> nat \<Rightarrow> fault + bool" where
  "skim_avx512 virgin current k stop =
     (if k \<noteq> stop then
        (if k + 8 \<le> length current then
           let cs = region current k 8; zmask = avx512_mask cs in
           if zmask = 0xff then skim_avx512 virgin current (k + 8) stop
           else fbind (unroll_avx512 zmask virgin cs 0 k) (\<lambda>b.
                if b then Inr True else skim_avx512 virgin current (k + 8) stop)
         else Inl Out_of_bounds)
      else Inr False)"
  by pat_completeness auto
termination by (relation "measure (\<lambda>(virgin, current, k, stop). length current - k)") auto

section \<open>The routines on the fuzzer's state\<close>

text \<open>The maps of \<open>afl_state_t\<close> and of its fork server; \<open>'w\<close> is the word type of the build.\<close>

record 'w cov_state =
  trace_bits :: "'w list"
  map_size :: nat
  real_map_size :: nat
  virgin_bits :: "'w list"
  virgin_tmout :: "'w list"
  virgin_crash :: "'w list"
  bitmap_changed :: bool

datatype vmap = Virgin_bits | Virgin_tmout | Virgin_crash

fun get_virgin :: "vmap \<Rightarrow> 'w cov_state \<Rightarrow> 'w list" where
  "get_virgin Virgin_bits s = virgin_bits s"
| "get_virgin Virgin_tmout s = virgin_tmout s"
| "get_virgin Virgin_crash s = virgin_crash s"

fun set_virgin :: "vmap \<Rightarrow> 'w list \<Rightarrow> 'w cov_state \<Rightarrow> 'w cov_state" where
  "set_virgin Virgin_bits m s = s\<lparr>virgin_bits := m\<rparr>"
| "set_virgin Virgin_tmout m s = s\<lparr>virgin_tmout := m\<rparr>"
| "set_virgin Virgin_crash m s = s\<lparr>virgin_crash := m\<rparr>"

text \<open>\<open>bsz\<close> is the number of bytes of a word: \<open>8\<close> with \<open>WORD_SIZE_64\<close>, else \<open>4\<close>.\<close>

definition simplify_trace ::
  "('w \<Rightarrow> 'w) \<Rightarrow> nat \<Rightarrow> 'w cov_state \<Rightarrow> fault + 'w cov_state" where
  "simplify_trace smp bsz s =
     fbind (simplify_loop smp (map_size s div bsz) 0 (trace_bits s)) (\<lambda>mem.
     Inr (s\<lparr>trace_bits := mem\<rparr>))"

definition classify_counts ::
  "('w::zero \<Rightarrow> 'w) \<Rightarrow> nat \<Rightarrow> 'w cov_state \<Rightarrow> fault + 'w cov_state" where
  "classify_counts cw bsz s =
     fbind (classify_loop cw (map_size s div bsz) 0 (trace_bits s)) (\<lambda>mem.
     Inr (s\<lparr>trace_bits := mem\<rparr>))"

definition has_new_bits ::
  "(nat \<Rightarrow> 'w::zero \<Rightarrow> 'w \<Rightarrow> nat \<times> 'w) \<Rightarrow> nat \<Rightarrow> vmap \<Rightarrow> 'w cov_state \<Rightarrow> fault + nat \<times> 'w cov_state" where
  "has_new_bits disc bsz virgin_map s =
     (let i = u32_add (real_map_size s) (bsz - 1) div bsz in
      fbind (has_new_bits_loop disc i 0 (trace_bits s) (get_virgin virgin_map s) 0) (\<lambda>(r, m).
      let s = set_virgin virgin_map m s
      in Inr (r, if r \<noteq> 0 \<and> virgin_map = Virgin_bits then s\<lparr>bitmap_changed := True\<rparr> else s)))"

definition has_new_bits_unclassified ::
  "('w::{zero,semiring_bit_operations} \<Rightarrow> 'w) \<Rightarrow> (nat \<Rightarrow> 'w \<Rightarrow> 'w \<Rightarrow> nat \<times> 'w) \<Rightarrow> nat \<Rightarrow> vmap \<Rightarrow>
     bool \<Rightarrow> 'w cov_state \<Rightarrow> fault + (nat \<times> bool) \<times> 'w cov_state" where
  "has_new_bits_unclassified cw disc bsz virgin_map classified s =
     fbind (skim cw (get_virgin virgin_map s) (trace_bits s) 0 (map_size s div bsz)) (\<lambda>found.
     if \<not> found then Inr ((0, classified), s)
     else fbind (classify_counts cw bsz s) (\<lambda>s.
          fbind (has_new_bits disc bsz virgin_map s) (\<lambda>(r, s). Inr ((r, True), s))))"

section \<open>Counting\<close>

text \<open>
  The counting routines always work on 32-bit words: \<open>mem\<close> is the byte buffer, read four bytes at a
  time.
\<close>

definition popcount :: "'a::len word \<Rightarrow> nat" where
  "popcount v = length (filter (bit v) [0..<LENGTH('a)])"

fun count_loop :: "(u32 \<Rightarrow> nat) \<Rightarrow> nat \<Rightarrow> nat \<Rightarrow> bytes \<Rightarrow> nat \<Rightarrow> fault + nat" where
  "count_loop f 0 k mem r = Inr r"
| "count_loop f (Suc i) k mem r =
     fbind (EXTRACT32 mem (4 * k)) (\<lambda>v. count_loop f i (Suc k) mem (u32_add r (f v)))"

definition count_bits_word :: "u32 \<Rightarrow> nat" where
  "count_bits_word v = (if v = 0xffffffff then 32 else popcount v)"

definition count_bits :: "nat \<Rightarrow> bytes \<Rightarrow> fault + nat" where
  "count_bits real_size mem = count_loop count_bits_word (u32_add real_size 3 div 4) 0 mem 0"

definition count_bytes_word :: "u32 \<Rightarrow> nat" where
  "count_bytes_word v =
     (if v = 0 then 0
      else (if v AND 0x000000ff \<noteq> 0 then 1 else 0) + (if v AND 0x0000ff00 \<noteq> 0 then 1 else 0) +
           (if v AND 0x00ff0000 \<noteq> 0 then 1 else 0) + (if v AND 0xff000000 \<noteq> 0 then 1 else 0))"

definition count_bytes :: "nat \<Rightarrow> bytes \<Rightarrow> fault + nat" where
  "count_bytes real_size mem = count_loop count_bytes_word (u32_add real_size 3 div 4) 0 mem 0"

definition count_non_255_word :: "u32 \<Rightarrow> nat" where
  "count_non_255_word v =
     (if v = 0xffffffff then 0
      else (if v AND 0x000000ff \<noteq> 0x000000ff then 1 else 0) +
           (if v AND 0x0000ff00 \<noteq> 0x0000ff00 then 1 else 0) +
           (if v AND 0x00ff0000 \<noteq> 0x00ff0000 then 1 else 0) +
           (if v AND 0xff000000 \<noteq> 0xff000000 then 1 else 0))"

definition count_non_255_bytes :: "nat \<Rightarrow> bytes \<Rightarrow> fault + nat" where
  "count_non_255_bytes real_size mem =
     count_loop count_non_255_word (u32_add real_size 3 div 4) 0 mem 0"

text \<open>\<open>minimize_bits\<close>: the loop variable \<open>i\<close> runs up to \<open>map_size\<close>.\<close>

function minimize_loop :: "nat \<Rightarrow> nat \<Rightarrow> bytes \<Rightarrow> bytes \<Rightarrow> fault + bytes" where
  "minimize_loop i msize dst src =
     (if i < msize then
        fbind (load src i) (\<lambda>b.
          if b \<noteq> 0 then
            fbind (load dst (i div 8)) (\<lambda>d.
            fbind (store dst (i div 8) (d OR push_bit (i mod 8) 1)) (\<lambda>dst.
            minimize_loop (Suc i) msize dst src))
          else minimize_loop (Suc i) msize dst src)
      else Inr dst)"
  by pat_completeness auto
termination by (relation "measure (\<lambda>(i, msize, dst, src). msize - i)") auto

definition minimize_bits :: "nat \<Rightarrow> bytes \<Rightarrow> bytes \<Rightarrow> fault + bytes" where
  "minimize_bits msize dst src = minimize_loop 0 msize dst src"

text \<open>The bytes of a map, and the two tables as functions on bytes.\<close>

definition bytes_of :: "nat \<Rightarrow> 'a::len word list \<Rightarrow> bytes" where
  "bytes_of bsz ws = concat (map (le_bytes bsz) ws)"

definition class8 :: "u8 \<Rightarrow> u8" where "class8 b = count_class_lookup8 ! unat b"
definition simplify8 :: "u8 \<Rightarrow> u8" where "simplify8 b = simplify_lookup ! unat b"

text \<open>
  What a trace brings to a virgin map, on bytes: \<open>2\<close> if some tuple is hit for the first time, \<open>1\<close>
  if only a hit count is new, \<open>0\<close> otherwise.
\<close>

definition fresh_tuple :: "u8 \<times> u8 \<Rightarrow> bool" where
  "fresh_tuple = (\<lambda>(c, v). c \<noteq> 0 \<and> v = 0xff)"

definition fresh_count :: "u8 \<times> u8 \<Rightarrow> bool" where
  "fresh_count = (\<lambda>(c, v). c AND v \<noteq> 0)"

definition novelty :: "bytes \<Rightarrow> bytes \<Rightarrow> nat" where
  "novelty cur vir =
     (if list_ex fresh_tuple (zip cur vir) then 2
      else if list_ex fresh_count (zip cur vir) then 1 else 0)"

text \<open>Small states for the witnesses: one tuple hit in the trace, untouched virgin maps.\<close>

definition sample_cov :: "u64 cov_state" where
  "sample_cov = \<lparr>trace_bits = [1, 0, 0, 0], map_size = 32, real_map_size = 5,
     virgin_bits = [0xffffffffffffffff, 0xffffffffffffffff, 0xffffffffffffffff, 0xffffffffffffffff],
     virgin_tmout = [0xffffffffffffffff, 0xffffffffffffffff, 0xffffffffffffffff, 0xffffffffffffffff],
     virgin_crash = [0xffffffffffffffff, 0xffffffffffffffff, 0xffffffffffffffff, 0xffffffffffffffff], bitmap_changed = False\<rparr>"


text \<open>What the loops over words leave, as folds over the pairs of words they visit.\<close>

definition advance :: "nat \<Rightarrow> bool \<Rightarrow> bool \<Rightarrow> nat" where
  "advance r tuple count = (if r < 2 then if tuple then 2 else if count then 1 else r else r)"

section \<open>Lemmas on tables and words\<close>

lemma fold_update_put:
  "a + n \<le> length t \<Longrightarrow>
   fold (\<lambda>b t. t[a + b := g b]) [0..<n] t = put t a (map g [0..<n])"
proof (induction n)
  case 0
  then show ?case by (simp add: put_def)
next
  case (Suc n)
  then have "fold (\<lambda>b t. t[a + b := g b]) [0..<Suc n] t = (put t a (map g [0..<n]))[a + n := g n]"
    by simp
  also have "\<dots> = put t a (map g [0..<Suc n])"
    using Suc.prems by (intro nth_equalityI) (auto simp: nth_put nth_list_update nth_append)
  finally show ?case .
qed

lemma fold_rows:
  assumes "m * 256 \<le> length t" and "b1 < m" and "b2 < 256"
  shows "fold (\<lambda>b1. fold (\<lambda>b2 t. t[b1 * 256 + b2 := g b1 b2]) [0..<256]) [0..<m] t ! (b1 * 256 + b2)
           = g b1 b2 \<and>
         length (fold (\<lambda>b1. fold (\<lambda>b2 t. t[b1 * 256 + b2 := g b1 b2]) [0..<256]) [0..<m] t) = length t"
  using assms
proof (induction m arbitrary: b1)
  case 0
  then show ?case by simp
next
  case (Suc m)
  let ?F = "\<lambda>m. fold (\<lambda>b1. fold (\<lambda>b2 t. t[b1 * 256 + b2 := g b1 b2]) [0..<256]) [0..<m] t"
  have len: "length (?F m) = length t" for m
  proof (induction m)
    case (Suc m)
    have "length (fold (\<lambda>b2 t. t[a + b2 := g c b2]) xs t) = length t" for a c xs t
      by (induction xs arbitrary: t) simp_all
    with Suc show ?case by simp
  qed simp
  have step: "?F (Suc m) = put (?F m) (m * 256) (map (g m) [0..<256])"
    using Suc.prems(1) len [of m] by (simp add: fold_update_put)
  show ?case
  proof (cases "b1 = m")
    case True
    then show ?thesis
      unfolding step using Suc.prems len [of m] by (simp add: nth_put)
  next
    case False
    then have b1: "b1 < m" using Suc.prems(2) by simp
    then have "b1 * 256 + b2 < m * 256" using Suc.prems(3) by linarith
    then show ?thesis
      unfolding step using Suc.IH [of b1] Suc.prems b1 len [of m] by (simp add: nth_put)
  qed
qed

lemma lookup16:
  assumes "b1 < 256" and "b2 < 256"
  shows "count_class_lookup16 ! (b1 * 256 + b2) =
    push_bit 8 (ucast (count_class_lookup8 ! b1)) OR ucast (count_class_lookup8 ! b2)"
  using fold_rows [of 256 "replicate 65536 (0 :: u16)" b1 b2
      "\<lambda>b1 b2. push_bit 8 (ucast (count_class_lookup8 ! b1)) OR ucast (count_class_lookup8 ! b2)"] assms
  by (simp add: count_class_lookup16_def init_count_class16_def)

lemma unat_u16_split:
  "unat (x :: u16) = unat (ucast (drop_bit 8 x) :: u8) * 256 + unat (ucast x :: u8)"
proof -
  have "unat (ucast x :: u8) = unat x mod 256"
    by (simp add: unsigned_ucast_eq take_bit_eq_mod)
  moreover have "unat (ucast (drop_bit 8 x) :: u8) = unat x div 256"
  proof -
    have "unat (drop_bit 8 x) = unat x div 256" by (simp add: drop_bit_eq_div unat_div_distrib)
    moreover have "unat x div 256 < 256" using unsigned_less [of x, where 'a = nat] by simp
    ultimately show ?thesis by (simp add: unsigned_ucast_eq take_bit_eq_mod)
  qed
  ultimately show ?thesis by simp
qed

lemma class16_bytes:
  "le_bytes 2 (count_class_lookup16 ! unat (x :: u16)) = map class8 (le_bytes 2 x)"
proof -
  have "unat (ucast (drop_bit 8 x) :: u8) < 256" "unat (ucast x :: u8) < 256"
    using unsigned_less [of "ucast (drop_bit 8 x) :: u8", where 'a = nat]
      unsigned_less [of "ucast x :: u8", where 'a = nat] by simp_all
  then have "count_class_lookup16 ! unat x =
      push_bit 8 (ucast (class8 (ucast (drop_bit 8 x)))) OR ucast (class8 (ucast x))"
    by (subst unat_u16_split) (simp add: lookup16 class8_def)
  then have eq: "count_class_lookup16 ! unat x = le_word [class8 (ucast x), class8 (ucast (drop_bit 8 x))]"
    by (simp add: or.commute)
  have "le_bytes 2 (count_class_lookup16 ! unat x) = [class8 (ucast x), class8 (ucast (drop_bit 8 x))]"
    unfolding eq by (rule le_bytes_le_word) simp_all
  then show ?thesis by (simp add: le_bytes_def upt_rec)
qed


lemma le_bytes_8:
  "le_bytes 8 w = [ucast w, ucast (drop_bit 8 w), ucast (drop_bit 16 w), ucast (drop_bit 24 w),
     ucast (drop_bit 32 w), ucast (drop_bit 40 w), ucast (drop_bit 48 w), ucast (drop_bit 56 w)]"
  by (simp add: le_bytes_def upt_conv_Cons)

lemma u16_bit_high: "16 \<le> n \<Longrightarrow> \<not> bit (b :: u16) n"
  by (auto dest: bit_imp_le_length)

lemma le_bytes_8_split:
  fixes a b c d :: u16
  shows "le_bytes 8 (ucast a OR push_bit 16 (ucast b) OR push_bit 32 (ucast c) OR push_bit 48 (ucast d) :: u64)
     = le_bytes 2 a @ le_bytes 2 b @ le_bytes 2 c @ le_bytes 2 d"
  unfolding le_bytes_8 le_bytes_2
  by (simp, intro conjI; rule bit_word_eqI) (auto simp: bit_simps u16_bit_high)


lemma le_bytes_8_halves:
  "le_bytes 8 (w :: u64) = le_bytes 2 (ucast w :: u16) @ le_bytes 2 (ucast (drop_bit 16 w) :: u16) @
     le_bytes 2 (ucast (drop_bit 32 w) :: u16) @ le_bytes 2 (ucast (drop_bit 48 w) :: u16)"
  unfolding le_bytes_8 le_bytes_2
  by (simp, intro conjI; rule bit_word_eqI) (auto simp: bit_simps)


lemma classify_word64_bytes: "le_bytes 8 (classify_word64 w) = map class8 (le_bytes 8 w)"
  unfolding classify_word64_def Let_def le_bytes_8_split class16_bytes
  by (simp add: le_bytes_8_halves class16_bytes)


lemma le_bytes_inj:
  "LENGTH('a) \<le> 8 * n \<Longrightarrow> le_bytes n v = le_bytes n w \<longleftrightarrow> v = (w :: 'a::len word)"
  using le_word_le_bytes [of n v] le_word_le_bytes [of n w] by metis

lemma le_bytes_0: "le_bytes n (0 :: 'a::len word) = replicate n 0"
  by (simp add: le_bytes_def map_replicate_const)

lemma le_bytes_and: "le_bytes n (v AND w) = map2 (AND) (le_bytes n v) (le_bytes n w)"
  by (rule nth_equalityI) (simp_all, rule bit_word_eqI, auto simp: bit_simps)

lemma le_bytes_and_not:
  assumes "8 * n \<le> LENGTH('a)"
  shows "le_bytes n (v AND NOT (w :: 'a::len word)) = map2 (\<lambda>x y. x AND NOT y) (le_bytes n v) (le_bytes n w)"
  using assms by (intro nth_equalityI) (simp_all, intro bit_word_eqI, auto simp: bit_simps)

lemma simplify8_0: "simplify8 0 = 1"
  by (simp add: simplify8_def simplify_lookup_def)

lemma class8_0: "class8 0 = 0"
  by (simp add: class8_def count_class_lookup8_def)

lemma ones: "replicate 8 (1 :: u8) = [1, 1, 1, 1, 1, 1, 1, 1]" "replicate 4 (1 :: u8) = [1, 1, 1, 1]"
  by (simp_all add: numeral_eq_Suc)

lemma and_not_disjoint:
  fixes c v :: "'a::len word"
  assumes "c AND v = 0"
  shows "v AND NOT c = v"
proof (rule bit_word_eqI)
  fix n assume "n < LENGTH('a)"
  moreover have "\<not> bit (c AND v) n" by (simp add: assms)
  ultimately show "bit (v AND NOT c) n = bit v n" by (auto simp: bit_simps)
qed

lemma simplify_word64_bytes: "le_bytes 8 (simplify_word64 w) = map simplify8 (le_bytes 8 w)"
proof (cases "w = 0")
  case True
  then have "le_bytes 8 (simplify_word64 w) = replicate 8 1"
    by (simp add: simplify_word64_def le_bytes_8 ones)
  then show ?thesis using True by (simp add: le_bytes_0 simplify8_0)
next
  case False
  then show ?thesis
    unfolding simplify_word64_def simplify8_def by (simp add: le_bytes_le_word)
qed


lemma discover_word64_eq:
  "discover_word64 r c v =
     (if c AND v = 0 then r
      else if r < 2 then if list_ex fresh_tuple (zip (le_bytes 8 c) (le_bytes 8 v)) then 2 else 1
      else r, v AND NOT c)"
  by (auto simp: discover_word64_def Let_def le_bytes_8 fresh_tuple_def and_not_disjoint)



section \<open>The contract between words and loops\<close>

lemma simplify_loop_map:
  "k + i \<le> length mem \<Longrightarrow>
   simplify_loop smp i k mem = Inr (put mem k (map smp (region mem k i)))"
proof (induction i arbitrary: k mem)
  case 0
  then show ?case by (simp add: put_def region_def)
next
  case (Suc i)
  then have "simplify_loop smp (Suc i) k mem
      = Inr (put (mem[k := smp (mem ! k)]) (Suc k) (map smp (region (mem[k := smp (mem ! k)]) (Suc k) i)))"
    by (simp add: mem_simps)
  also have "put (mem[k := smp (mem ! k)]) (Suc k) (map smp (region (mem[k := smp (mem ! k)]) (Suc k) i))
      = put mem k (map smp (region mem k (Suc i)))"
    using Suc.prems by (intro nth_equalityI) (auto simp: nth_put nth_region nth_list_update)
  finally show ?case .
qed

lemma classify_loop_map:
  assumes "cw 0 = 0"
  shows "k + i \<le> length mem \<Longrightarrow>
   classify_loop cw i k mem = Inr (put mem k (map cw (region mem k i)))"
proof (induction i arbitrary: k mem)
  case 0
  then show ?case by (simp add: put_def region_def)
next
  case (Suc i)
  have "mem[k := cw (mem ! k)] = mem" if "mem ! k = 0" using that assms by (metis list_update_id)
  with Suc have "classify_loop cw (Suc i) k mem
      = Inr (put (mem[k := cw (mem ! k)]) (Suc k) (map cw (region (mem[k := cw (mem ! k)]) (Suc k) i)))"
    by (simp add: mem_simps)
  also have "put (mem[k := cw (mem ! k)]) (Suc k) (map cw (region (mem[k := cw (mem ! k)]) (Suc k) i))
      = put mem k (map cw (region mem k (Suc i)))"
    using Suc.prems by (intro nth_equalityI) (auto simp: nth_put nth_region nth_list_update)
  finally show ?case .
qed

lemma skim_word_ok:
  "k < length cur \<Longrightarrow> k < length vir \<Longrightarrow> cw 0 = 0 \<Longrightarrow>
   skim_word cw vir cur k = Inr (cw (cur ! k) AND vir ! k \<noteq> 0)"
  by (auto simp: skim_word_def mem_simps)

declare skim.simps [simp del] skim_avx2.simps [simp del] skim_avx512.simps [simp del]

lemma ex_range_4:
  fixes k :: nat
  shows "(\<exists>j. k \<le> j \<and> j < k + 4 * Suc m \<and> P j) \<longleftrightarrow>
    P k \<or> P (k + 1) \<or> P (k + 2) \<or> P (k + 3) \<or> (\<exists>j. k + 4 \<le> j \<and> j < k + 4 + 4 * m \<and> P j)"
proof
  assume "\<exists>j. k \<le> j \<and> j < k + 4 * Suc m \<and> P j"
  then obtain j where j: "k \<le> j" "j < k + 4 * Suc m" "P j" by blast
  then have "j = k \<or> j = k + 1 \<or> j = k + 2 \<or> j = k + 3 \<or> k + 4 \<le> j" by linarith
  with j show "P k \<or> P (k + 1) \<or> P (k + 2) \<or> P (k + 3) \<or> (\<exists>j. k + 4 \<le> j \<and> j < k + 4 + 4 * m \<and> P j)"
    by auto
next
  assume "P k \<or> P (k + 1) \<or> P (k + 2) \<or> P (k + 3) \<or> (\<exists>j. k + 4 \<le> j \<and> j < k + 4 + 4 * m \<and> P j)"
  then obtain j where "k \<le> j" "j < k + 4 * Suc m" "P j"
    by (elim disjE exE conjE) (rule that [rotated 2], assumption, simp_all)+
  then show "\<exists>j. k \<le> j \<and> j < k + 4 * Suc m \<and> P j" by blast
qed

lemma skim_ok:
  fixes cur vir :: "'a::len word list"
  assumes "cw 0 = 0"
  shows "k + 4 * m \<le> length cur \<Longrightarrow> k + 4 * m \<le> length vir \<Longrightarrow>
   skim cw vir cur k (k + 4 * m)
     = Inr (\<exists>j. k \<le> j \<and> j < k + 4 * m \<and> cw (cur ! j) AND vir ! j \<noteq> 0)"
proof (induction m arbitrary: k)
  case 0
  then show ?case by (simp add: skim.simps)
next
  case (Suc m)
  have IH: "skim cw vir cur (k + 4) (k + 4 * Suc m)
      = Inr (\<exists>j. k + 4 \<le> j \<and> j < k + 4 + 4 * m \<and> cw (cur ! j) AND vir ! j \<noteq> 0)"
    using Suc.IH [of "k + 4"] Suc.prems by (simp add: add.assoc)
  have word: "skim_word cw vir cur (k + d) = Inr (cw (cur ! (k + d)) AND vir ! (k + d) \<noteq> 0)"
    if "d < 4" for d
    using that Suc.prems assms by (intro skim_word_ok) auto
  show ?case
    unfolding ex_range_4
    by (subst skim.simps)
      (simp add: word [of 0, simplified] word [of 1, simplified] word [of 2, simplified]
        word [of 3, simplified] IH del: mult_Suc_right)
qed

lemma bytes_of_simps [simp]:
  "bytes_of bsz [] = []" "bytes_of bsz (w # ws) = le_bytes bsz w @ bytes_of bsz ws"
  by (simp_all add: bytes_of_def)

lemma bytes_of_append [simp]: "bytes_of bsz (xs @ ys) = bytes_of bsz xs @ bytes_of bsz ys"
  by (simp add: bytes_of_def)

lemma length_bytes_of [simp]: "length (bytes_of bsz ws) = bsz * length ws"
  by (induction ws) simp_all

lemma take_bytes_of: "take (bsz * n) (bytes_of bsz ws) = bytes_of bsz (take n ws)"
proof (induction ws arbitrary: n)
  case (Cons w ws)
  then show ?case by (cases n) simp_all
qed simp

lemma drop_bytes_of: "drop (bsz * n) (bytes_of bsz ws) = bytes_of bsz (drop n ws)"
proof (induction ws arbitrary: n)
  case (Cons w ws)
  then show ?case by (cases n) simp_all
qed simp

lemma bytes_of_put:
  "bytes_of bsz (put ws k xs) = put (bytes_of bsz ws) (bsz * k) (bytes_of bsz xs)"
  by (simp add: put_def take_bytes_of drop_bytes_of flip: add_mult_distrib2)

lemma bytes_of_region: "bytes_of bsz (region ws k n) = region (bytes_of bsz ws) (bsz * k) (bsz * n)"
  by (simp add: region_def take_bytes_of drop_bytes_of)

lemma has_new_bits_loop_ok:
  assumes disc: "\<And>r c v. disc r c v =
      (if c AND v = 0 then r else if r < 2 then if tuple c v then 2 else 1 else r, v AND NOT c)"
  fixes cur vir :: "'a::len word list"
  shows "k + i \<le> length cur \<Longrightarrow> k + i \<le> length vir \<Longrightarrow>
   has_new_bits_loop disc i k cur vir r =
     Inr (advance r (list_ex (\<lambda>(c, v). c AND v \<noteq> 0 \<and> tuple c v) (zip (region cur k i) (region vir k i)))
            (list_ex (\<lambda>(c, v). c AND v \<noteq> 0) (zip (region cur k i) (region vir k i))),
          put vir k (map2 (\<lambda>c v. v AND NOT c) (region cur k i) (region vir k i)))"
proof (induction i arbitrary: k vir r)
  case 0
  then show ?case by (simp add: put_def region_def advance_def)
next
  case (Suc i)
  have reg: "region xs k (Suc i) = xs ! k # region xs (Suc k) i" if "k + Suc i \<le> length xs" for xs :: "'a word list"
    using that unfolding region_def by (subst Cons_nth_drop_Suc [symmetric]) simp_all
  define v' where "v' = vir ! k AND NOT (cur ! k)"
  have step: "has_new_bits_loop disc (Suc i) k cur vir r
      = has_new_bits_loop disc i (Suc k) cur (vir[k := v']) (fst (disc r (cur ! k) (vir ! k)))"
    using Suc.prems by (cases "cur ! k = 0") (simp_all add: mem_simps disc v'_def)
  have "region (vir[k := v']) (Suc k) i = region vir (Suc k) i"
    using Suc.prems by (intro nth_equalityI) (auto simp: nth_region)
  moreover have "put (vir[k := v']) (Suc k) zs = put vir k (v' # zs)" if "length zs = i" for zs
    using Suc.prems that by (intro nth_equalityI) (auto simp: nth_put nth_list_update nth_Cons')
  ultimately show ?case
    unfolding step using Suc.IH [of "Suc k" "vir[k := v']"] Suc.prems
    by (simp add: reg v'_def) (auto simp: advance_def disc)
qed


lemma byte_and_255: "(c :: u8) AND 0xff = c"
proof -
  have "(0xff :: u8) = - 1" by simp
  then show ?thesis by (simp only: and.right_neutral)
qed

text \<open>
  The contract of the word routines: how they act on the bytes of a word. Everything the loops
  promise follows from it, for either word size.
\<close>

locale coverage_word =
  fixes bsz :: nat
    and cw :: "'a::len word \<Rightarrow> 'a word"
    and smp :: "'a word \<Rightarrow> 'a word"
    and disc :: "nat \<Rightarrow> 'a word \<Rightarrow> 'a word \<Rightarrow> nat \<times> 'a word"
  assumes bsz: "LENGTH('a) = 8 * bsz"
    and cw_bytes: "le_bytes bsz (cw w) = map class8 (le_bytes bsz w)"
    and smp_bytes: "le_bytes bsz (smp w) = map simplify8 (le_bytes bsz w)"
    and disc_eq: "disc r c v =
      (if c AND v = 0 then r
       else if r < 2 then if list_ex fresh_tuple (zip (le_bytes bsz c) (le_bytes bsz v)) then 2 else 1
       else r, v AND NOT c)"
begin

lemma bsz_pos: "0 < bsz"
  using bsz len_gt_0 [where 'a = 'a] by linarith

lemma bytes_inj: "le_bytes bsz v = le_bytes bsz w \<longleftrightarrow> v = (w :: 'a word)"
  by (rule le_bytes_inj) (simp add: bsz)

lemma cw_0: "cw 0 = 0"
proof -
  have "le_bytes bsz (cw 0) = le_bytes bsz (0 :: 'a word)" by (simp add: cw_bytes le_bytes_0 class8_0)
  then show ?thesis by (rule bytes_inj [THEN iffD1])
qed

lemma and_zero_bytes:
  "c AND v = 0 \<longleftrightarrow> \<not> list_ex fresh_count (zip (le_bytes bsz c) (le_bytes bsz (v :: 'a word)))"
proof -
  have "c AND v = 0 \<longleftrightarrow> le_bytes bsz (c AND v) = le_bytes bsz (0 :: 'a word)"
    by (rule bytes_inj [symmetric])
  also have "\<dots> \<longleftrightarrow> (\<forall>i < bsz. le_bytes bsz c ! i AND le_bytes bsz v ! i = 0)"
    by (simp add: le_bytes_and le_bytes_0 list_eq_iff_nth_eq)
  finally show ?thesis by (auto simp: list_ex_length fresh_count_def)
qed

lemma bytes_of_cw: "bytes_of bsz (map cw ws) = map class8 (bytes_of bsz ws)"
  by (induction ws) (simp_all add: cw_bytes)

lemma bytes_of_smp: "bytes_of bsz (map smp ws) = map simplify8 (bytes_of bsz ws)"
  by (induction ws) (simp_all add: smp_bytes)

lemma fresh_tuple_count: "list_ex fresh_tuple ps \<Longrightarrow> list_ex fresh_count ps"
  by (force simp: list_ex_iff fresh_tuple_def fresh_count_def byte_and_255)

lemma ex_words:
  "length cs = length vs \<Longrightarrow>
   list_ex (\<lambda>(c, v). list_ex P (zip (le_bytes bsz c) (le_bytes bsz (v :: 'a word)))) (zip cs vs)
     = list_ex P (zip (bytes_of bsz cs) (bytes_of bsz (vs :: 'a word list)))"
  by (induction cs vs rule: list_induct2) simp_all

lemma bytes_clear:
  "length cs = length vs \<Longrightarrow>
   bytes_of bsz (map2 (\<lambda>c v. v AND NOT c) cs (vs :: 'a word list))
     = map2 (\<lambda>c v. v AND NOT c) (bytes_of bsz cs) (bytes_of bsz vs)"
proof (induction cs vs rule: list_induct2)
  case (Cons c cs v vs)
  have "le_bytes bsz (v AND NOT c) = map2 (\<lambda>c v. v AND NOT c) (le_bytes bsz c) (le_bytes bsz v)"
    using bsz by (subst le_bytes_and_not) (auto intro: nth_equalityI)
  with Cons show ?case by simp
qed simp

lemma loop_novelty:
  assumes "i \<le> length cur" and "i \<le> length vir"
  shows "has_new_bits_loop disc i 0 cur vir 0 =
     Inr (novelty (bytes_of bsz (take i cur)) (bytes_of bsz (take i vir)),
          map2 (\<lambda>c v. v AND NOT c) (take i cur) (take i vir) @ drop i vir)"
proof -
  let ?ps = "zip (take i cur) (take i vir)"
  have len: "length (take i cur) = length (take i vir)" using assms by simp
  have tuple: "list_ex (\<lambda>(c, v). c AND v \<noteq> 0 \<and> list_ex fresh_tuple (zip (le_bytes bsz c) (le_bytes bsz v))) ?ps
      = list_ex fresh_tuple (zip (bytes_of bsz (take i cur)) (bytes_of bsz (take i vir)))"
    unfolding ex_words [OF len, symmetric]
    by (intro list_ex_cong refl) (auto simp: and_zero_bytes dest: fresh_tuple_count)
  have count: "list_ex (\<lambda>(c, v). c AND v \<noteq> 0) ?ps
      = list_ex fresh_count (zip (bytes_of bsz (take i cur)) (bytes_of bsz (take i vir)))"
    unfolding ex_words [OF len, symmetric] by (intro list_ex_cong refl) (auto simp: and_zero_bytes)
  have "has_new_bits_loop disc i 0 cur vir 0 =
     Inr (advance 0 (list_ex (\<lambda>(c, v). c AND v \<noteq> 0 \<and>
              list_ex fresh_tuple (zip (le_bytes bsz c) (le_bytes bsz v))) ?ps)
            (list_ex (\<lambda>(c, v). c AND v \<noteq> 0) ?ps),
          put vir 0 (map2 (\<lambda>c v. v AND NOT c) (take i cur) (take i vir)))"
    using has_new_bits_loop_ok [of disc "\<lambda>c v. list_ex fresh_tuple (zip (le_bytes bsz c) (le_bytes bsz v))"
        0 i cur vir 0] assms disc_eq
    by (simp add: region_def)
  then show ?thesis
    unfolding tuple count using assms by (simp add: advance_def novelty_def put_def)
qed

end


context coverage_word
begin

text \<open>The number of bytes a call of \<open>has_new_bits\<close> looks at: \<open>real_map_size\<close> rounded up to words.\<close>

lemma has_new_bits_eq:
  assumes n: "n = u32_add (real_map_size s) (bsz - 1) div bsz"
    and len: "n \<le> length (trace_bits s)" "n \<le> length (get_virgin vm s)"
    and r: "r = novelty (bytes_of bsz (take n (trace_bits s))) (bytes_of bsz (take n (get_virgin vm s)))"
    and m: "m = map2 (\<lambda>c v. v AND NOT c) (take n (trace_bits s)) (take n (get_virgin vm s))
      @ drop n (get_virgin vm s)"
  shows "has_new_bits disc bsz vm s = Inr (r, let s = set_virgin vm m s in
      if r \<noteq> 0 \<and> vm = Virgin_bits then s\<lparr>bitmap_changed := True\<rparr> else s)"
  unfolding has_new_bits_def Let_def n [symmetric] loop_novelty [OF len]
  by (cases vm) (simp_all add: r m)

lemma no_news:
  assumes n: "n = u32_add (real_map_size s) (bsz - 1) div bsz"
    and len: "n \<le> length (trace_bits s)" "n \<le> length (get_virgin vm s)"
    and none: "\<And>i. i < n \<Longrightarrow> trace_bits s ! i AND get_virgin vm s ! i = 0"
  shows "has_new_bits disc bsz vm s = Inr (0, s)"
proof -
  let ?c = "take n (trace_bits s)" and ?v = "take n (get_virgin vm s)"
  have "\<not> list_ex (\<lambda>(c, v). c AND v \<noteq> 0) (zip ?c ?v)"
    using none by (auto simp: list_ex_length)
  then have "\<not> list_ex fresh_count (zip (bytes_of bsz ?c) (bytes_of bsz ?v))"
    using len by (subst ex_words [symmetric]) (auto simp: and_zero_bytes list_ex_iff)
  then have nov: "novelty (bytes_of bsz ?c) (bytes_of bsz ?v) = 0"
    using fresh_tuple_count by (auto simp: novelty_def)
  have "map2 (\<lambda>c v. v AND NOT c) ?c ?v = ?v"
    using len none by (intro nth_equalityI) (auto simp: and_not_disjoint)
  moreover have "set_virgin vm (get_virgin vm s) s = s" by (cases vm) simp_all
  ultimately show ?thesis
    using has_new_bits_eq [OF n len refl refl] nov by simp
qed

lemma news_once:
  assumes n: "n = u32_add (real_map_size s) (bsz - 1) div bsz"
    and len: "n \<le> length (trace_bits s)" "n \<le> length (get_virgin vm s)"
    and res: "has_new_bits disc bsz vm s = Inr (r, s')"
  shows "has_new_bits disc bsz vm s' = Inr (0, s')"
proof -
  let ?m = "map2 (\<lambda>c v. v AND NOT c) (take n (trace_bits s)) (take n (get_virgin vm s)) @ drop n (get_virgin vm s)"
  have s': "s' = (let s = set_virgin vm ?m s in
      if r \<noteq> 0 \<and> vm = Virgin_bits then s\<lparr>bitmap_changed := True\<rparr> else s)"
    using has_new_bits_eq [OF n len refl refl] res by auto
  have upd: "trace_bits s' = trace_bits s \<and> real_map_size s' = real_map_size s \<and> get_virgin vm s' = ?m"
    unfolding s' Let_def by (cases vm) simp_all
  have "trace_bits s' ! i AND get_virgin vm s' ! i = 0" if "i < n" for i
  proof -
    have "get_virgin vm s' ! i = get_virgin vm s ! i AND NOT (trace_bits s ! i)"
      using that len upd by (simp add: nth_append)
    then show ?thesis
      using upd by (metis and.commute and.left_commute bit.conj_cancel_right and_zero_eq)
  qed
  then show ?thesis using n len upd by (intro no_news [of n]) auto
qed

lemma has_new_bits_bytes:
  assumes n: "n = u32_add (real_map_size s) (bsz - 1) div bsz"
    and len: "n \<le> length (trace_bits s)" "n \<le> length (get_virgin vm s)"
  shows "\<exists>s'. has_new_bits disc bsz vm s =
      Inr (novelty (take (bsz * n) (bytes_of bsz (trace_bits s)))
             (take (bsz * n) (bytes_of bsz (get_virgin vm s))), s') \<and>
    bytes_of bsz (get_virgin vm s') =
      map2 (\<lambda>c v. v AND NOT c) (take (bsz * n) (bytes_of bsz (trace_bits s)))
             (take (bsz * n) (bytes_of bsz (get_virgin vm s)))
        @ drop (bsz * n) (bytes_of bsz (get_virgin vm s)) \<and>
    trace_bits s' = trace_bits s \<and> map_size s' = map_size s \<and> real_map_size s' = real_map_size s \<and>
    (\<forall>vm'. vm' \<noteq> vm \<longrightarrow> get_virgin vm' s' = get_virgin vm' s) \<and>
    bitmap_changed s' = (bitmap_changed s \<or> vm = Virgin_bits \<and>
      novelty (take (bsz * n) (bytes_of bsz (trace_bits s)))
        (take (bsz * n) (bytes_of bsz (get_virgin vm s))) \<noteq> 0)"
proof -
  define r where "r = novelty (bytes_of bsz (take n (trace_bits s))) (bytes_of bsz (take n (get_virgin vm s)))"
  define m where "m = map2 (\<lambda>c v. v AND NOT c) (take n (trace_bits s)) (take n (get_virgin vm s))
      @ drop n (get_virgin vm s)"
  note res = has_new_bits_eq [OF n len r_def m_def]
  have bytes: "bytes_of bsz m = map2 (\<lambda>c v. v AND NOT c) (bytes_of bsz (take n (trace_bits s)))
      (bytes_of bsz (take n (get_virgin vm s))) @ bytes_of bsz (drop n (get_virgin vm s))"
    unfolding m_def using len by (simp add: bytes_clear)
  have get: "get_virgin vm' (set_virgin vm m s) = (if vm' = vm then m else get_virgin vm' s)" for vm vm'
    by (cases vm; cases vm') simp_all
  have get': "get_virgin vm' (t\<lparr>bitmap_changed := b\<rparr>) = get_virgin vm' t" for vm' b and t :: "'a word cov_state"
    by (cases vm') simp_all
  have rest: "trace_bits (set_virgin vm m s) = trace_bits s" "map_size (set_virgin vm m s) = map_size s"
    "real_map_size (set_virgin vm m s) = real_map_size s"
    "bitmap_changed (set_virgin vm m s) = bitmap_changed s" for vm
    by (cases vm; simp)+
  show ?thesis
    unfolding res take_bytes_of drop_bytes_of r_def [symmetric] bytes [symmetric]
    by (simp add: Let_def get get' rest del: set_virgin.simps get_virgin.simps)
qed

lemma skim_bytes:
  assumes "map_size s div bsz = 4 * m" and "4 * m \<le> length (trace_bits s)"
    and "4 * m \<le> length (get_virgin vm s)"
  shows "skim cw (get_virgin vm s) (trace_bits s) 0 (map_size s div bsz) =
    Inr (list_ex fresh_count (zip (map class8 (bytes_of bsz (take (4 * m) (trace_bits s))))
                                  (bytes_of bsz (take (4 * m) (get_virgin vm s)))))"
proof -
  let ?c = "take (4 * m) (trace_bits s)" and ?v = "take (4 * m) (get_virgin vm s)"
  have "(\<exists>j. 0 \<le> j \<and> j < 0 + 4 * m \<and> cw (trace_bits s ! j) AND get_virgin vm s ! j \<noteq> 0)
      \<longleftrightarrow> list_ex (\<lambda>(c, v). c AND v \<noteq> 0) (zip (map cw ?c) ?v)"
    using assms by (auto simp: list_ex_length)
  also have "\<dots> \<longleftrightarrow> list_ex fresh_count (zip (bytes_of bsz (map cw ?c)) (bytes_of bsz ?v))"
    using assms by (subst ex_words [symmetric]) (auto simp: and_zero_bytes intro!: list_ex_cong)
  finally show ?thesis
    using skim_ok [of cw 0 m "trace_bits s" "get_virgin vm s"] assms cw_0
    by (simp add: bytes_of_cw)
qed

lemma classify_counts_bytes:
  assumes "map_size s div bsz \<le> length (trace_bits s)"
  shows "\<exists>t. classify_counts cw bsz s = Inr (s\<lparr>trace_bits := t\<rparr>) \<and> length t = length (trace_bits s) \<and>
    bytes_of bsz t = map class8 (take (bsz * (map_size s div bsz)) (bytes_of bsz (trace_bits s)))
      @ drop (bsz * (map_size s div bsz)) (bytes_of bsz (trace_bits s)) \<and>
    take (map_size s div bsz) t = map cw (take (map_size s div bsz) (trace_bits s))"
  using assms classify_loop_map [of cw 0 "map_size s div bsz" "trace_bits s"] cw_0
  by (intro exI [of _ "map cw (take (map_size s div bsz) (trace_bits s)) @ drop (map_size s div bsz) (trace_bits s)"])
    (simp add: classify_counts_def put_def region_def take_bytes_of drop_bytes_of bytes_of_cw)

lemma simplify_trace_bytes:
  assumes "map_size s div bsz \<le> length (trace_bits s)"
  shows "\<exists>t. simplify_trace smp bsz s = Inr (s\<lparr>trace_bits := t\<rparr>) \<and>
    bytes_of bsz t = map simplify8 (take (bsz * (map_size s div bsz)) (bytes_of bsz (trace_bits s)))
      @ drop (bsz * (map_size s div bsz)) (bytes_of bsz (trace_bits s))"
  using assms simplify_loop_map [of 0 "map_size s div bsz" "trace_bits s" smp]
  by (intro exI [of _ "map smp (take (map_size s div bsz) (trace_bits s)) @ drop (map_size s div bsz) (trace_bits s)"])
    (simp add: simplify_trace_def put_def region_def take_bytes_of drop_bytes_of bytes_of_smp)

text \<open>
  The hot path: skimming the raw trace first gives the result and the virgin map of classifying the
  trace and then looking for new bits.
\<close>

lemma unclassified_eq:
  assumes size: "map_size s div bsz = 4 * m" "4 * m \<le> length (trace_bits s)"
      "4 * m \<le> length (get_virgin vm s)"
    and n: "u32_add (real_map_size s) (bsz - 1) div bsz \<le> 4 * m"
  shows "\<exists>r cl s1 s2. has_new_bits_unclassified cw disc bsz vm False s = Inr ((r, cl), s1) \<and>
    fbind (classify_counts cw bsz s) (has_new_bits disc bsz vm) = Inr (r, s2) \<and>
    s1\<lparr>trace_bits := []\<rparr> = s2\<lparr>trace_bits := []\<rparr> \<and> trace_bits s1 = (if cl then trace_bits s2 else trace_bits s) \<and>
    (r \<noteq> 0 \<longrightarrow> cl)"
proof -
  let ?n = "u32_add (real_map_size s) (bsz - 1) div bsz"
  obtain t where t: "classify_counts cw bsz s = Inr (s\<lparr>trace_bits := t\<rparr>)" "length t = length (trace_bits s)"
      "take (4 * m) t = map cw (take (4 * m) (trace_bits s))"
    using classify_counts_bytes [of s] size by auto
  let ?s = "s\<lparr>trace_bits := t\<rparr>"
  have gv: "get_virgin vm ?s = get_virgin vm s" by (cases vm) simp_all
  let ?found = "list_ex fresh_count (zip (map class8 (bytes_of bsz (take (4 * m) (trace_bits s))))
                                  (bytes_of bsz (take (4 * m) (get_virgin vm s))))"
  show ?thesis
  proof (cases ?found)
    case True
    obtain r s2 where "has_new_bits disc bsz vm ?s = Inr (r, s2)"
      using has_new_bits_bytes [of ?n ?s vm] size n t gv by auto
    moreover from this have "has_new_bits_unclassified cw disc bsz vm False s = Inr ((r, True), s2)"
      using True by (simp add: has_new_bits_unclassified_def skim_bytes [OF size] t)
    ultimately show ?thesis using t by auto
  next
    case False
    have "take ?n t = map cw (take ?n (trace_bits s))"
      using t(3) n by (metis min_def take_map take_take)
    then have nt: "bytes_of bsz (take ?n t) = map class8 (bytes_of bsz (take ?n (trace_bits s)))"
      by (simp add: bytes_of_cw)
    have "\<not> list_ex fresh_count (zip (bytes_of bsz (take ?n t)) (bytes_of bsz (take ?n (get_virgin vm s))))"
    proof -
      have "zip (bytes_of bsz (take ?n t)) (bytes_of bsz (take ?n (get_virgin vm s)))
          = take (bsz * ?n) (zip (map class8 (bytes_of bsz (take (4 * m) (trace_bits s))))
                                  (bytes_of bsz (take (4 * m) (get_virgin vm s))))"
        unfolding nt using n by (simp add: take_zip take_map take_bytes_of min_def)
      with False show ?thesis by (auto simp: list_ex_iff dest: in_set_takeD)
    qed
    then have "\<not> list_ex (\<lambda>(c, v). c AND v \<noteq> 0) (zip (take ?n t) (take ?n (get_virgin vm s)))"
      using size n t(2) by (subst (asm) ex_words [symmetric]) (auto simp: and_zero_bytes list_ex_iff)
    then have "trace_bits ?s ! i AND get_virgin vm ?s ! i = 0" if "i < ?n" for i
      using that size n t(2) by (auto simp: list_ex_length gv)
    then have "has_new_bits disc bsz vm ?s = Inr (0, ?s)"
      using size n t(2) by (intro no_news [of ?n]) (auto simp: gv)
    moreover have "has_new_bits_unclassified cw disc bsz vm False s = Inr ((0, False), s)"
      using False by (simp add: has_new_bits_unclassified_def skim_bytes [OF size])
    ultimately show ?thesis using t by auto
  qed
qed

end

interpretation c64: coverage_word 8 classify_word64 simplify_word64 discover_word64
  by unfold_locales (simp_all add: classify_word64_bytes simplify_word64_bytes discover_word64_eq)



section \<open>Properties of the coverage maps\<close>

text \<open>
  C3. \<open>has_new_bits\<close> on 64-bit words: it stays inside the maps, and on the bytes it covers
  (\<open>real_map_size\<close> rounded up to whole words) it returns \<open>2\<close> exactly if some byte of the trace is
  set whose virgin byte is untouched, \<open>1\<close> if otherwise some bit of the trace is still set in the
  virgin map, and \<open>0\<close> if not; it clears exactly the bits of the trace from the virgin map, leaves
  the trace and the other virgin maps alone and raises \<open>bitmap_changed\<close> exactly for news in
  \<open>virgin_bits\<close>.
\<close>

theorem has_new_bits_64_correct:
  assumes "n = u32_add (real_map_size s) 7 div 8"
    and "n \<le> length (trace_bits s)" and "n \<le> length (get_virgin vm s)"
  shows "\<exists>s'. has_new_bits discover_word64 8 vm s =
      Inr (novelty (take (8 * n) (bytes_of 8 (trace_bits s))) (take (8 * n) (bytes_of 8 (get_virgin vm s))), s') \<and>
    bytes_of 8 (get_virgin vm s') =
      map2 (\<lambda>c v. v AND NOT c) (take (8 * n) (bytes_of 8 (trace_bits s))) (take (8 * n) (bytes_of 8 (get_virgin vm s)))
        @ drop (8 * n) (bytes_of 8 (get_virgin vm s)) \<and>
    trace_bits s' = trace_bits s \<and> map_size s' = map_size s \<and> real_map_size s' = real_map_size s \<and>
    (\<forall>vm'. vm' \<noteq> vm \<longrightarrow> get_virgin vm' s' = get_virgin vm' s) \<and>
    bitmap_changed s' = (bitmap_changed s \<or> vm = Virgin_bits \<and>
      novelty (take (8 * n) (bytes_of 8 (trace_bits s))) (take (8 * n) (bytes_of 8 (get_virgin vm s))) \<noteq> 0)"
  using c64.has_new_bits_bytes [of n s vm] assms by simp

theorem has_new_bits_64_correct_witness:
  "\<exists>s'. has_new_bits discover_word64 8 Virgin_bits sample_cov = Inr (2, s') \<and>
     take 8 (bytes_of 8 (virgin_bits s')) = [0xfe, 0xff, 0xff, 0xff, 0xff, 0xff, 0xff, 0xff]"
proof -
  have n: "1 = u32_add (real_map_size sample_cov) 7 div 8"
    by (simp add: sample_cov_def u32_add_def)
  obtain s' where s': "has_new_bits discover_word64 8 Virgin_bits sample_cov =
      Inr (novelty (take (8 * 1) (bytes_of 8 (trace_bits sample_cov)))
             (take (8 * 1) (bytes_of 8 (get_virgin Virgin_bits sample_cov))), s')"
    "bytes_of 8 (get_virgin Virgin_bits s') =
      map2 (\<lambda>c v. v AND NOT c) (take (8 * 1) (bytes_of 8 (trace_bits sample_cov)))
          (take (8 * 1) (bytes_of 8 (get_virgin Virgin_bits sample_cov)))
        @ drop (8 * 1) (bytes_of 8 (get_virgin Virgin_bits sample_cov))"
    using has_new_bits_64_correct [OF n, of Virgin_bits] by (auto simp: sample_cov_def)
  then show ?thesis
    by (auto simp: sample_cov_def le_bytes_8 novelty_def fresh_tuple_def)
qed

text \<open>
  C32. The comment on \<open>has_new_bits\<close> holds: a second call on the same trace and virgin map returns
  \<open>0\<close>, and changes nothing.
\<close>

theorem has_new_bits_idempotent:
  assumes "u32_add (real_map_size s) 7 div 8 \<le> length (trace_bits s)"
    and "u32_add (real_map_size s) 7 div 8 \<le> length (get_virgin vm s)"
    and "has_new_bits discover_word64 8 vm s = Inr (r, s')"
  shows "has_new_bits discover_word64 8 vm s' = Inr (0, s')"
  using c64.news_once [of _ s vm r s'] assms by simp

theorem has_new_bits_idempotent_witness:
  "\<exists>s'. has_new_bits discover_word64 8 Virgin_bits sample_cov = Inr (2, s') \<and>
     has_new_bits discover_word64 8 Virgin_bits s' = Inr (0, s')"
proof -
  obtain s' where s': "has_new_bits discover_word64 8 Virgin_bits sample_cov = Inr (2, s')"
    by (simp add: has_new_bits_def sample_cov_def u32_add_def load_def store_def discover_word64_def
        le_bytes_8)
  with has_new_bits_idempotent [OF _ _ s'] show ?thesis
    by (auto simp: sample_cov_def u32_add_def)
qed

text \<open>
  C14. The hot path of the fuzzer, \<open>has_new_bits_unclassified\<close>, agrees with classifying the trace
  first and then calling \<open>has_new_bits\<close>: the same result and the same virgin maps, and the trace
  is the classified one whenever the result is not \<open>0\<close>.
\<close>

theorem unclassified_agrees_64:
  assumes "map_size s div 8 = 4 * m" and "4 * m \<le> length (trace_bits s)"
    and "4 * m \<le> length (get_virgin vm s)" and "u32_add (real_map_size s) 7 div 8 \<le> 4 * m"
  shows "\<exists>r cl s1 s2. has_new_bits_unclassified classify_word64 discover_word64 8 vm False s = Inr ((r, cl), s1) \<and>
    fbind (classify_counts classify_word64 8 s) (has_new_bits discover_word64 8 vm) = Inr (r, s2) \<and>
    s1\<lparr>trace_bits := []\<rparr> = s2\<lparr>trace_bits := []\<rparr> \<and>
    trace_bits s1 = (if cl then trace_bits s2 else trace_bits s) \<and> (r \<noteq> 0 \<longrightarrow> cl)"
  using c64.unclassified_eq [of s m vm] assms by simp

theorem unclassified_agrees_64_witness:
  "\<exists>r cl s1 s2. has_new_bits_unclassified classify_word64 discover_word64 8 Virgin_bits False sample_cov = Inr ((r, cl), s1) \<and>
    fbind (classify_counts classify_word64 8 sample_cov) (has_new_bits discover_word64 8 Virgin_bits) = Inr (r, s2) \<and>
    s1\<lparr>trace_bits := []\<rparr> = s2\<lparr>trace_bits := []\<rparr> \<and>
    trace_bits s1 = (if cl then trace_bits s2 else trace_bits sample_cov) \<and> (r \<noteq> 0 \<longrightarrow> cl)"
  by (rule unclassified_agrees_64 [where m = 1]) (simp_all add: sample_cov_def u32_add_def)



text \<open>
  C33. Classification and simplification work byte by byte: \<open>classify_counts\<close> replaces every byte of
  the map by its hit-count class and \<open>simplify_trace\<close> by \<open>1\<close> or \<open>128\<close>, although both skip over or
  rewrite whole zero words.
\<close>

theorem classify_simplify_bytewise:
  assumes "map_size s div 8 = n" and "n \<le> length (trace_bits s)"
  shows "\<exists>t u. classify_counts classify_word64 8 s = Inr (s\<lparr>trace_bits := t\<rparr>) \<and>
    simplify_trace simplify_word64 8 s = Inr (s\<lparr>trace_bits := u\<rparr>) \<and>
    bytes_of 8 t = map class8 (take (8 * n) (bytes_of 8 (trace_bits s))) @ drop (8 * n) (bytes_of 8 (trace_bits s)) \<and>
    bytes_of 8 u = map (\<lambda>b. if b = 0 then 1 else 128) (take (8 * n) (bytes_of 8 (trace_bits s)))
      @ drop (8 * n) (bytes_of 8 (trace_bits s))"
proof -
  have "simplify8 = (\<lambda>b. if b = 0 then 1 else 128)"
  proof
    fix b :: u8
    have "unat b < 256" using unsigned_less [of b, where 'a = nat] by simp
    then show "simplify8 b = (if b = 0 then 1 else 128)"
      by (cases "unat b") (auto simp: simplify8_def simplify_lookup_def unat_eq_0)
  qed
  then show ?thesis
    using c64.classify_counts_bytes [of s] c64.simplify_trace_bytes [of s] assms by auto
qed

theorem classify_simplify_bytewise_witness:
  "\<exists>t u. classify_counts classify_word64 8 sample_cov = Inr (sample_cov\<lparr>trace_bits := t\<rparr>) \<and>
    simplify_trace simplify_word64 8 sample_cov = Inr (sample_cov\<lparr>trace_bits := u\<rparr>) \<and>
    bytes_of 8 t = map class8 (take (8 * 4) (bytes_of 8 (trace_bits sample_cov))) @ drop (8 * 4) (bytes_of 8 (trace_bits sample_cov)) \<and>
    bytes_of 8 u = map (\<lambda>b. if b = 0 then 1 else 128) (take (8 * 4) (bytes_of 8 (trace_bits sample_cov)))
      @ drop (8 * 4) (bytes_of 8 (trace_bits sample_cov))"
  by (rule classify_simplify_bytewise) (simp_all add: sample_cov_def)

section \<open>Vector versions of skim\<close>


lemma avx2_mask_simps:
  "avx2_mask c0 c1 c2 c3 = - 1 \<longleftrightarrow> c0 = 0 \<and> c1 = 0 \<and> c2 = 0 \<and> c3 = 0"
  "avx2_mask c0 c1 c2 c3 AND 0xff = 0 \<longleftrightarrow> c0 \<noteq> 0"
  "avx2_mask c0 c1 c2 c3 AND 0xff00 = 0 \<longleftrightarrow> c1 \<noteq> 0"
  "avx2_mask c0 c1 c2 c3 AND 0xff0000 = 0 \<longleftrightarrow> c2 \<noteq> 0"
  "avx2_mask c0 c1 c2 c3 AND 0xff000000 = 0 \<longleftrightarrow> c3 \<noteq> 0"
  by (cases "c0 = 0"; cases "c1 = 0"; cases "c2 = 0"; cases "c3 = 0"; simp add: avx2_mask_def)+

lemma skim_masked_word:
  "k < length vir \<Longrightarrow> skim_masked (c \<noteq> 0) vir c k = Inr (classify_word64 c AND vir ! k \<noteq> 0)"
  by (auto simp: skim_masked_def mem_simps c64.cw_0)

lemma skim_avx2_ok:
  "k + 4 * m \<le> length cur \<Longrightarrow> k + 4 * m \<le> length vir \<Longrightarrow>
   skim_avx2 vir cur k (k + 4 * m)
     = Inr (\<exists>j. k \<le> j \<and> j < k + 4 * m \<and> classify_word64 (cur ! j) AND vir ! j \<noteq> 0)"
proof (induction m arbitrary: k)
  case 0
  then show ?case by (simp add: skim_avx2.simps)
next
  case (Suc m)
  have IH: "skim_avx2 vir cur (k + 4) (k + 4 * Suc m)
      = Inr (\<exists>j. k + 4 \<le> j \<and> j < k + 4 + 4 * m \<and> classify_word64 (cur ! j) AND vir ! j \<noteq> 0)"
    using Suc.IH [of "k + 4"] Suc.prems by (simp add: add.assoc)
  have ld: "load cur (k + d) = Inr (cur ! (k + d))" if "d < 4" for d
    using that Suc.prems by (simp add: load_def)
  have word: "skim_masked (cur ! (k + d) \<noteq> 0) vir (cur ! (k + d)) (k + d)
      = Inr (classify_word64 (cur ! (k + d)) AND vir ! (k + d) \<noteq> 0)" if "d < 4" for d
    using that Suc.prems by (intro skim_masked_word) auto
  show ?case
    unfolding ex_range_4
    by (subst skim_avx2.simps)
      (simp add: ld [of 0, simplified] ld [of 1, simplified] ld [of 2, simplified] ld [of 3, simplified]
        Let_def avx2_mask_simps word [of 0, simplified] word [of 1, simplified] word [of 2, simplified]
        word [of 3, simplified] IH c64.cw_0 del: mult_Suc_right)
qed

lemma bit_shift_in:
  "x < 8 \<Longrightarrow> bit (push_bit 1 (m :: u8) OR (if b then 1 else 0)) x
     \<longleftrightarrow> (if x = 0 then b else bit m (x - 1))"
  by (cases x) (simp_all add: bit_or_iff bit_push_bit_iff bit_1_iff del: push_bit_Suc One_nat_def)

lemma bit_avx512_mask:
  "x < 8 \<Longrightarrow> bit (avx512_mask cs) x \<longleftrightarrow> x < length cs \<and> cs ! x = 0"
  unfolding avx512_mask_def
proof (induction cs arbitrary: x)
  case (Cons c cs)
  then show ?case
    by (cases x) (simp_all only: foldr_Cons o_apply bit_shift_in, simp_all)
qed simp

lemma bit_ones: "x < 8 \<Longrightarrow> bit (0xff :: u8) x"
proof -
  assume x: "x < 8"
  have "(0xff :: u8) = - 1" by simp
  then show ?thesis using x by (simp only: bit_minus_1_iff) simp
qed

lemma and_single_bit: "x < 8 \<Longrightarrow> (w :: u8) AND push_bit x 1 = 0 \<longleftrightarrow> \<not> bit w x"
proof -
  assume x: "x < 8"
  have bits: "bit (w AND push_bit x 1) n \<longleftrightarrow> n = x \<and> bit w x" for n
    using x by (auto simp: bit_simps simp del: push_bit_of_1)
  show ?thesis
    unfolding bit_eq_iff [of "w AND push_bit x 1"] bits using x by simp
qed

lemma unroll_avx512_ok:
  "x + length cs \<le> 8 \<Longrightarrow> k + length cs \<le> length vir \<Longrightarrow>
   (\<And>j. j < length cs \<Longrightarrow> bit zmask (x + j) \<longleftrightarrow> cs ! j = 0) \<Longrightarrow>
   unroll_avx512 zmask vir cs x k
     = Inr (\<exists>j < length cs. classify_word64 (cs ! j) AND vir ! (k + j) \<noteq> 0)"
proof (induction cs arbitrary: x k)
  case (Cons c cs)
  have IH: "unroll_avx512 zmask vir cs (Suc x) (Suc k)
      = Inr (\<exists>j < length cs. classify_word64 (cs ! j) AND vir ! (Suc k + j) \<noteq> 0)"
    using Cons.prems(1,2) Cons.prems(3) [of "Suc _"] by (intro Cons.IH) auto
  have "(zmask AND push_bit x 1 = 0) = (c \<noteq> 0)"
    using Cons.prems(1) Cons.prems(3) [of 0] by (simp add: and_single_bit del: push_bit_of_1)
  moreover have "skim_masked (c \<noteq> 0) vir c k = Inr (classify_word64 c AND vir ! k \<noteq> 0)"
    using Cons.prems by (intro skim_masked_word) auto
  ultimately show ?case
    by (simp add: IH Ex_less_Suc2 del: push_bit_of_1)
qed simp

lemma skim_avx512_ok:
  "k + 8 * m \<le> length cur \<Longrightarrow> k + 8 * m \<le> length vir \<Longrightarrow>
   skim_avx512 vir cur k (k + 8 * m)
     = Inr (\<exists>j. k \<le> j \<and> j < k + 8 * m \<and> classify_word64 (cur ! j) AND vir ! j \<noteq> 0)"
proof (induction m arbitrary: k)
  case 0
  then show ?case by (simp add: skim_avx512.simps)
next
  case (Suc m)
  let ?P = "\<lambda>j. classify_word64 (cur ! j) AND vir ! j \<noteq> 0"
  have IH: "skim_avx512 vir cur (k + 8) (k + 8 * Suc m)
      = Inr (\<exists>j. k + 8 \<le> j \<and> j < k + 8 + 8 * m \<and> ?P j)"
    using Suc.IH [of "k + 8"] Suc.prems by (simp add: add.assoc)
  have bits: "bit (avx512_mask (region cur k 8)) x \<longleftrightarrow> cur ! (k + x) = 0" if "x < 8" for x
    using that Suc.prems by (simp add: bit_avx512_mask nth_region)
  have unroll: "unroll_avx512 (avx512_mask (region cur k 8)) vir (region cur k 8) 0 k = Inr (\<exists>j < 8. ?P (k + j))"
    using Suc.prems by (subst unroll_avx512_ok) (auto simp: bits nth_region)
  have all: "\<not> (\<exists>j < 8. ?P (k + j))" if "avx512_mask (region cur k 8) = 0xff"
  proof -
    have "cur ! (k + x) = 0" if "x < 8" for x
      using bits [OF that] bit_ones [OF that] \<open>avx512_mask (region cur k 8) = 0xff\<close> by (simp only: )
    then show ?thesis by (simp add: c64.cw_0)
  qed
  have split: "(\<exists>j. k \<le> j \<and> j < k + 8 * Suc m \<and> ?P j) \<longleftrightarrow>
      (\<exists>j < 8. ?P (k + j)) \<or> (\<exists>j. k + 8 \<le> j \<and> j < k + 8 + 8 * m \<and> ?P j)"
  proof
    assume "\<exists>j. k \<le> j \<and> j < k + 8 * Suc m \<and> ?P j"
    then obtain j where j: "k \<le> j" "j < k + 8 * Suc m" "?P j" by blast
    show "(\<exists>j < 8. ?P (k + j)) \<or> (\<exists>j. k + 8 \<le> j \<and> j < k + 8 + 8 * m \<and> ?P j)"
    proof (cases "j < k + 8")
      case True
      then have "j - k < 8" "?P (k + (j - k))" using j by auto
      then show ?thesis by blast
    next
      case False
      then show ?thesis using j by auto
    qed
  next
    assume "(\<exists>j < 8. ?P (k + j)) \<or> (\<exists>j. k + 8 \<le> j \<and> j < k + 8 + 8 * m \<and> ?P j)"
    then obtain j where "k \<le> j" "j < k + 8 * Suc m" "?P j"
      by (elim disjE exE conjE) (rule that [rotated 2], assumption, simp_all)+
    then show "\<exists>j. k \<le> j \<and> j < k + 8 * Suc m \<and> ?P j" by blast
  qed
  have "k + 8 \<le> length cur" using Suc.prems by simp
  then show ?case
    unfolding split using all
    by (subst skim_avx512.simps) (auto simp: Let_def unroll IH simp del: mult_Suc_right)
qed

text \<open>
  C8. The three versions of \<open>skim\<close> agree: on maps whose size is a multiple of \<open>64\<close> bytes the
  portable, the AVX2 and the AVX-512 loop stay inside the maps and return the same answer, namely
  whether some classified word of the trace has a bit that is still set in the virgin map.
\<close>

theorem skim_versions_agree:
  assumes "8 * m \<le> length cur" and "8 * m \<le> length vir"
  shows "skim classify_word64 vir cur 0 (8 * m)
           = Inr (\<exists>j < 8 * m. classify_word64 (cur ! j) AND vir ! j \<noteq> 0) \<and>
         skim_avx2 vir cur 0 (8 * m) = skim classify_word64 vir cur 0 (8 * m) \<and>
         skim_avx512 vir cur 0 (8 * m) = skim classify_word64 vir cur 0 (8 * m)"
  using skim_ok [of classify_word64 0 "2 * m" cur vir] skim_avx2_ok [of 0 "2 * m" cur vir]
    skim_avx512_ok [of 0 m cur vir] c64.cw_0 assms by simp

theorem skim_versions_agree_witness:
  "skim_avx512 (replicate 8 0) [0, 5, 0, 0, 0, 0, 0, 0] 0 8 = Inr False \<and>
   skim_avx2 (replicate 8 0) [0, 5, 0, 0, 0, 0, 0, 0] 0 8 = Inr False"
proof -
  let ?cur = "[0, 5, 0, 0, 0, 0, 0, 0] :: u64 list" and ?vir = "replicate 8 0 :: u64 list"
  have lens: "8 * 1 \<le> length ?cur" "8 * 1 \<le> length ?vir" by simp_all
  have none: "(\<exists>j < 8 * 1. classify_word64 (?cur ! j) AND ?vir ! j \<noteq> 0) = False"
    by (simp only: mult_1_right nth_replicate and_zero_eq cong: conj_cong) simp
  show ?thesis
    using skim_versions_agree [OF lens] unfolding none by (simp only: mult_1_right simp_thms)
qed

section \<open>Counting\<close>

declare minimize_loop.simps [simp del]

lemma region_append: "region xs k m @ region xs (k + m) n = region xs k (m + n)"
  unfolding region_def by (metis add.commute drop_drop take_add)

lemma count_loop_ok:
  assumes f: "\<And>bs. length bs = 4 \<Longrightarrow> f (le_word bs) = sum_list (map g bs)"
  shows "4 * (k + n) \<le> length mem \<Longrightarrow> r < 2 ^ 32 \<Longrightarrow>
    count_loop f n k mem r = Inr ((r + sum_list (map g (region mem (4 * k) (4 * n)))) mod 2 ^ 32)"
proof (induction n arbitrary: k r)
  case 0
  then show ?case by (simp add: region_def)
next
  case (Suc n)
  have read: "EXTRACT32 mem (4 * k) = Inr (le_word (region mem (4 * k) 4))"
    using Suc.prems by (simp add: mem_simps)
  have word: "f (le_word (region mem (4 * k) 4)) = sum_list (map g (region mem (4 * k) 4))"
    using Suc.prems by (intro f) simp
  have "region mem (4 * k) (4 * Suc n) = region mem (4 * k) 4 @ region mem (4 * Suc k) (4 * n)"
    using region_append [of mem "4 * k" 4 "4 * n"] by (simp add: ac_simps)
  moreover have "u32_add r x < 2 ^ 32" for x by (simp add: u32_add_def)
  ultimately show ?case
    using Suc.prems by (simp only: count_loop.simps read fbind_simps word, subst Suc.IH)
      (simp_all add: u32_add_def mod_simps ac_simps)
qed

lemma le_word_masks:
  "(le_word [a, b, c, d] :: u32) AND 0x000000ff = push_bit 0 (ucast a)"
  "(le_word [a, b, c, d] :: u32) AND 0x0000ff00 = push_bit 8 (ucast b)"
  "(le_word [a, b, c, d] :: u32) AND 0x00ff0000 = push_bit 16 (ucast c)"
  "(le_word [a, b, c, d] :: u32) AND 0xff000000 = push_bit 24 (ucast d)"
  by (rule word_eq_upt, simp only: bit_positions list_all_unfold,
      simp add: bit_simps byte_bit_high)+

lemma push_byte_inj:
  assumes "k \<le> 24"
  shows "(push_bit k (ucast (a :: u8)) :: u32) = push_bit k (ucast b) \<longleftrightarrow> a = b"
proof
  assume eq: "(push_bit k (ucast a) :: u32) = push_bit k (ucast b)"
  show "a = b"
  proof (rule bit_word_eqI)
    fix n assume "n < LENGTH(8)"
    then show "bit a n = bit b n"
      using arg_cong [OF eq, of "\<lambda>w. bit w (k + n)"] assms by (simp add: bit_simps)
  qed
qed simp

lemma le_word_inj4:
  "(le_word [a, b, c, d] :: u32) = le_word [a', b', c', d'] \<longleftrightarrow> a = a' \<and> b = b' \<and> c = c' \<and> d = d'"
proof
  assume eq: "(le_word [a, b, c, d] :: u32) = le_word [a', b', c', d']"
  have bytes: "le_bytes 4 (le_word bs :: u32) = bs" if "length bs = 4" for bs
    using that by (intro le_bytes_le_word) simp_all
  have "[a, b, c, d] = [a', b', c', d']"
    using bytes [of "[a, b, c, d]"] bytes [of "[a', b', c', d']"] unfolding eq
    by (simp only: list.size)
  then show "a = a' \<and> b = b' \<and> c = c' \<and> d = d'" by simp
qed simp

lemma count_bytes_word_le_word:
  "count_bytes_word (le_word [a, b, c, d]) = sum_list (map (\<lambda>b. of_bool (b \<noteq> 0)) [a, b, c, d])"
proof -
  have "(le_word [a, b, c, d] :: u32) = 0 \<longleftrightarrow> a = 0 \<and> b = 0 \<and> c = 0 \<and> d = 0"
    using le_word_inj4 [of a b c d 0 0 0 0] by simp
  moreover have "(push_bit k (ucast x) :: u32) = 0 \<longleftrightarrow> x = 0" if "k \<le> 24" for k and x :: u8
    using push_byte_inj [OF that, of x 0] by simp
  ultimately show ?thesis
    by (simp only: count_bytes_word_def le_word_masks) simp
qed

lemma count_non_255_word_le_word:
  "count_non_255_word (le_word [a, b, c, d]) = sum_list (map (\<lambda>b. of_bool (b \<noteq> 0xff)) [a, b, c, d])"
proof -
  have "(le_word [a, b, c, d] :: u32) = 0xffffffff \<longleftrightarrow> a = 0xff \<and> b = 0xff \<and> c = 0xff \<and> d = 0xff"
    using le_word_inj4 [of a b c d "0xff" "0xff" "0xff" "0xff"] by simp
  moreover have
    "(le_word [a, b, c, d] :: u32) AND 0x000000ff = 0x000000ff \<longleftrightarrow> a = 0xff"
    "(le_word [a, b, c, d] :: u32) AND 0x0000ff00 = 0x0000ff00 \<longleftrightarrow> b = 0xff"
    "(le_word [a, b, c, d] :: u32) AND 0x00ff0000 = 0x00ff0000 \<longleftrightarrow> c = 0xff"
    "(le_word [a, b, c, d] :: u32) AND 0xff000000 = 0xff000000 \<longleftrightarrow> d = 0xff"
    unfolding le_word_masks
    using push_byte_inj [of 0 a "0xff"] push_byte_inj [of 8 b "0xff"]
      push_byte_inj [of 16 c "0xff"] push_byte_inj [of 24 d "0xff"] by simp_all
  ultimately show ?thesis
    by (simp only: count_non_255_word_def) simp
qed

lemma popcount_sum: "popcount (v :: 'a::len word) = (\<Sum>i\<leftarrow>[0..<LENGTH('a)]. of_bool (bit v i))"
proof -
  have "length (filter P xs) = (\<Sum>i\<leftarrow>xs. of_bool (P i))" for P and xs :: "nat list"
    by (induction xs) simp_all
  then show ?thesis by (simp add: popcount_def)
qed

lemma popcount_le_word:
  "popcount (le_word [a, b, c, d] :: u32) = sum_list (map popcount [a, b, c, d])"
  unfolding popcount_sum bit_positions list.map sum_list_simps bit_le_word by simp

lemma count_bits_word_popcount: "count_bits_word v = popcount v"
proof -
  have "popcount (0xffffffff :: u32) = 32" by code_simp
  then show ?thesis by (simp add: count_bits_word_def)
qed


lemma length_4_cases:
  assumes "length xs = 4"
  obtains a b c d where "xs = [a, b, c, d]"
  using assms by (auto simp: length_Suc_conv numeral_eq_Suc)

lemma count_word_bytes:
  assumes "length bs = 4"
  shows "count_bits_word (le_word bs) = sum_list (map popcount bs)"
    "count_bytes_word (le_word bs) = sum_list (map (\<lambda>b. of_bool (b \<noteq> 0)) bs)"
    "count_non_255_word (le_word bs) = sum_list (map (\<lambda>b. of_bool (b \<noteq> 0xff)) bs)"
  using assms
  by (auto elim!: length_4_cases simp only: count_bits_word_popcount popcount_le_word
      count_bytes_word_le_word count_non_255_word_le_word)

lemma sum_of_bool_le: "sum_list (map (\<lambda>b. of_bool (P b)) xs) \<le> length xs"
  by (induction xs) (auto simp: le_SucI)

lemma count_sized:
  assumes f: "\<And>bs. length bs = 4 \<Longrightarrow> f (le_word bs) = sum_list (map g bs)"
    and len: "4 * (u32_add n 3 div 4) \<le> length mem"
  shows "count_loop f (u32_add n 3 div 4) 0 mem 0
    = Inr (sum_list (map g (take (4 * (u32_add n 3 div 4)) mem)) mod 2 ^ 32)"
  using count_loop_ok [of f g 0 "u32_add n 3 div 4" mem 0, OF f] len by (simp add: region_def)

lemma count_sized_small:
  assumes "\<And>bs. length bs = 4 \<Longrightarrow> f (le_word bs) = sum_list (map (\<lambda>b. of_bool (P b)) bs)"
    and "4 * (u32_add n 3 div 4) \<le> length mem"
  shows "count_loop f (u32_add n 3 div 4) 0 mem 0
    = Inr (sum_list (map (\<lambda>b. of_bool (P b)) (take (4 * (u32_add n 3 div 4)) mem)))"
proof -
  have "4 * (u32_add n 3 div 4) \<le> u32_add n 3" by simp
  then have "4 * (u32_add n 3 div 4) < 2 ^ 32"
    by (rule le_less_trans) (simp add: u32_add_def)
  then have "sum_list (map (\<lambda>b. of_bool (P b)) (take (4 * (u32_add n 3 div 4)) mem)) < (2 ^ 32 :: nat)"
    using sum_of_bool_le [of P "take (4 * (u32_add n 3 div 4)) mem"] by simp
  then show ?thesis using count_sized [OF assms] by simp
qed

section \<open>Minimised traces\<close>

lemma bit_or_single: "i < 8 \<Longrightarrow> n < 8 \<Longrightarrow> bit (d OR push_bit i 1 :: u8) n \<longleftrightarrow> bit d n \<or> n = i"
  by (auto simp: bit_or_iff bit_push_bit_iff bit_1_iff simp del: push_bit_of_1)

lemma minimize_loop_ok:
  assumes "msize \<le> length src" and "(msize + 7) div 8 \<le> length dst"
  shows "\<exists>dst'. minimize_loop i msize dst src = Inr dst' \<and> length dst' = length dst \<and>
    (\<forall>j < 8 * length dst. bit (dst' ! (j div 8)) (j mod 8) \<longleftrightarrow>
       bit (dst ! (j div 8)) (j mod 8) \<or> i \<le> j \<and> j < msize \<and> src ! j \<noteq> 0)"
  using assms
proof (induction i msize dst src rule: minimize_loop.induct)
  case (1 i msize dst src)
  show ?case
  proof (cases "i < msize")
    case False
    then show ?thesis by (subst minimize_loop.simps) auto
  next
    case True
    then have byte: "i div 8 < length dst" using "1.prems" by simp
    have rd: "load src i = Inr (src ! i)" "load dst (i div 8) = Inr (dst ! (i div 8))"
      using True "1.prems" byte by (simp_all add: load_def)
    show ?thesis
    proof (cases "src ! i = 0")
      case True
      have "Suc i \<le> j \<and> src ! j \<noteq> 0 \<longleftrightarrow> i \<le> j \<and> src ! j \<noteq> 0" for j
        using True by (auto simp: Suc_le_eq le_less)
      then show ?thesis
        using "1.IH"(2) [OF \<open>i < msize\<close>, of "src ! i"] "1.prems" True \<open>i < msize\<close> rd
        by (subst minimize_loop.simps) (simp, smt (verit))
    next
      case False
      let ?d = "dst[i div 8 := dst ! (i div 8) OR push_bit (i mod 8) 1]"
      have st: "store dst (i div 8) (dst ! (i div 8) OR push_bit (i mod 8) 1) = Inr ?d"
        using byte by (simp add: store_def)
      have bits: "bit (?d ! (j div 8)) (j mod 8) \<longleftrightarrow> bit (dst ! (j div 8)) (j mod 8) \<or> j = i"
        if "j < 8 * length dst" for j
      proof (cases "j div 8 = i div 8")
        case True
        have "j mod 8 = i mod 8 \<longleftrightarrow> j = i" using True by (metis div_mod_decomp)
        with True byte show ?thesis by (simp add: bit_or_single del: push_bit_of_1)
      qed (auto simp: nth_list_update)
      have "\<exists>dst'. minimize_loop (Suc i) msize ?d src = Inr dst' \<and> length dst' = length ?d \<and>
          (\<forall>j < 8 * length ?d. bit (dst' ! (j div 8)) (j mod 8) \<longleftrightarrow>
             bit (?d ! (j div 8)) (j mod 8) \<or> Suc i \<le> j \<and> j < msize \<and> src ! j \<noteq> 0)"
        using "1.prems" by (intro "1.IH"(1) [OF \<open>i < msize\<close> False]) simp_all
      then obtain dst' where dst': "minimize_loop (Suc i) msize ?d src = Inr dst'" "length dst' = length dst"
        "\<forall>j < 8 * length dst. bit (dst' ! (j div 8)) (j mod 8) \<longleftrightarrow>
           bit (?d ! (j div 8)) (j mod 8) \<or> Suc i \<le> j \<and> j < msize \<and> src ! j \<noteq> 0"
        by auto
      have "bit (dst' ! (j div 8)) (j mod 8) \<longleftrightarrow>
           bit (dst ! (j div 8)) (j mod 8) \<or> i \<le> j \<and> j < msize \<and> src ! j \<noteq> 0"
        if "j < 8 * length dst" for j
        using dst'(3) bits [OF that] that False \<open>i < msize\<close> by (cases "j = i") auto
      then show ?thesis
        using dst' False \<open>i < msize\<close> rd st by (subst minimize_loop.simps) simp
    qed
  qed
qed



text \<open>
  C34. The counters count: on a buffer that covers the map, \<open>count_bytes\<close> returns the number of
  non-zero bytes, \<open>count_non_255_bytes\<close> the number of bytes other than \<open>255\<close> and \<open>count_bits\<close> the
  number of set bits modulo \<open>2^32\<close>, of the bytes of the map rounded up to whole 32-bit words.
\<close>

theorem counts_correct:
  assumes "n = 4 * (u32_add sz 3 div 4)" and "n \<le> length mem"
  shows "count_bytes sz mem = Inr (length (filter (\<lambda>b. b \<noteq> 0) (take n mem))) \<and>
         count_non_255_bytes sz mem = Inr (length (filter (\<lambda>b. b \<noteq> 0xff) (take n mem))) \<and>
         count_bits sz mem = Inr (sum_list (map popcount (take n mem)) mod 2 ^ 32)"
proof -
  have filter_sum: "length (filter P xs) = (\<Sum>i\<leftarrow>xs. of_bool (P i))" for P and xs :: bytes
    by (induction xs) simp_all
  show ?thesis
    using count_sized_small [where f = count_bytes_word and P = "\<lambda>b. b \<noteq> 0" and n = sz and mem = mem,
        OF count_word_bytes(2)]
      count_sized_small [where f = count_non_255_word and P = "\<lambda>b. b \<noteq> 0xff" and n = sz and mem = mem,
        OF count_word_bytes(3)]
      count_sized [where f = count_bits_word and g = popcount and n = sz and mem = mem, OF count_word_bytes(1)]
      assms
    unfolding count_bytes_def count_non_255_bytes_def count_bits_def filter_sum by simp
qed

theorem counts_correct_witness:
  "count_bytes 5 [1, 0, 2, 0, 0, 255, 0, 0] = Inr 3 \<and>
   count_non_255_bytes 5 [1, 0, 2, 0, 0, 255, 0, 0] = Inr 7 \<and>
   count_bits 5 [1, 0, 2, 0, 0, 255, 0, 0] = Inr 10"
proof -
  have pop: "popcount (1 :: u8) = 1" "popcount (0 :: u8) = 0" "popcount (2 :: u8) = 1"
    "popcount (255 :: u8) = 8"
    by code_simp+
  have n: "8 = 4 * (u32_add 5 3 div 4)" by (simp add: u32_add_def)
  show ?thesis
    using counts_correct [OF n, of "[1, 0, 2, 0, 0, 255, 0, 0]"] by (simp add: pop)
qed

text \<open>
  C35. \<open>minimize_bits\<close> packs a trace into one bit per map entry: it never leaves its buffers, keeps the
  length of the destination, and sets bit \<open>j\<close> exactly for the entries \<open>j\<close> below the map size that
  are hit, leaving every other bit of the destination as it was.
\<close>

theorem minimize_bits_correct:
  assumes "msize \<le> length src" and "(msize + 7) div 8 \<le> length dst"
  shows "\<exists>dst'. minimize_bits msize dst src = Inr dst' \<and> length dst' = length dst \<and>
    (\<forall>j < 8 * length dst. bit (dst' ! (j div 8)) (j mod 8) \<longleftrightarrow>
       bit (dst ! (j div 8)) (j mod 8) \<or> j < msize \<and> src ! j \<noteq> 0)"
  using minimize_loop_ok [OF assms, of 0] by (simp add: minimize_bits_def)

theorem minimize_bits_correct_witness:
  "\<exists>dst'. minimize_bits 3 [0] [7, 0, 9] = Inr dst' \<and> bit (dst' ! 0) 2 \<and> \<not> bit (dst' ! 0) 1"
proof -
  have len: "3 \<le> length [7, 0, 9 :: u8]" "(3 + 7) div 8 \<le> length [0 :: u8]" by simp_all
  obtain dst' where d: "minimize_bits 3 [0] [7, 0, 9] = Inr dst'"
    "\<forall>j < 8 * length [0 :: u8]. bit (dst' ! (j div 8)) (j mod 8) \<longleftrightarrow>
       bit ([0 :: u8] ! (j div 8)) (j mod 8) \<or> j < 3 \<and> [7, 0, 9 :: u8] ! j \<noteq> 0"
    using minimize_bits_correct [OF len] by blast
  show ?thesis
    using d(1) d(2) [rule_format, of 2] d(2) [rule_format, of 1] by auto
qed



end
