(* ===== verification/AFL_Alloc.thy ===== *)
theory AFL_Alloc
  imports AFL_Types
begin

text \<open>
  Growing buffers: \<open>next_pow2\<close>, \<open>afl_realloc\<close>, \<open>afl_realloc_exact\<close> and \<open>afl_swap_bufs\<close> of
  \<open>include/alloc-inl.h\<close>.

  \<^item> A buffer is an \<open>afl_alloc_buf\<close>: the stored \<open>complete_size\<close>, which counts the header, and the
    bytes behind the header. A null pointer is \<open>None\<close>.
  \<^item> \<open>re\<close> stands for the C library's \<open>realloc\<close>, without the header: it receives the old bytes and the
    number of bytes behind the header of the new block. \<open>realloc_ok\<close> is its contract.
\<close>

section \<open>Definitions\<close>

definition next_pow2 :: "u64 \<Rightarrow> u64" where
  "next_pow2 inp =
     (let out = inp - 1;
          out = out OR drop_bit 1 out;
          out = out OR drop_bit 2 out;
          out = out OR drop_bit 4 out;
          out = out OR drop_bit 8 out;
          out = out OR drop_bit 16 out
      in out + 1)"

definition INITIAL_GROWTH_SIZE :: u64 where "INITIAL_GROWTH_SIZE = 64"

text \<open>The header is one \<open>size_t\<close>.\<close>

definition AFL_ALLOC_SIZE_OFFSET :: u64 where "AFL_ALLOC_SIZE_OFFSET = 8"

record afl_alloc_buf =
  complete_size :: u64
  buf :: bytes

definition afl_alloc_bufsize :: "afl_alloc_buf \<Rightarrow> u64" where
  "afl_alloc_bufsize b = complete_size b - AFL_ALLOC_SIZE_OFFSET"

text \<open>
  \<open>memset (new_buf + current_size, 0, next_size - current_size)\<close>; with a \<open>current_size\<close> of \<open>0\<close> it
  covers the header as well, which is written next.
\<close>

definition zero_tail :: "u64 \<Rightarrow> u64 \<Rightarrow> bytes \<Rightarrow> fault + bytes" where
  "zero_tail current_size next_size mem =
     (let from = unat current_size - unat AFL_ALLOC_SIZE_OFFSET
      in memset mem from 0 (unat (next_size - AFL_ALLOC_SIZE_OFFSET) - from))"

definition afl_realloc ::
  "(bytes \<Rightarrow> nat \<Rightarrow> bytes option) \<Rightarrow> afl_alloc_buf option \<Rightarrow> u64 \<Rightarrow> fault + afl_alloc_buf option" where
  "afl_realloc re b size_needed =
     (let current_size = (case b of None \<Rightarrow> 0 | Some new_buf \<Rightarrow> complete_size new_buf);
          size_needed = size_needed + AFL_ALLOC_SIZE_OFFSET
      in if current_size \<ge> size_needed then Inr b
         else
           let next_size =
                 (if size_needed < INITIAL_GROWTH_SIZE then INITIAL_GROWTH_SIZE
                  else let n = next_pow2 size_needed in if n = 0 then size_needed else n)
           in case re (case b of None \<Rightarrow> [] | Some new_buf \<Rightarrow> buf new_buf)
                      (unat (next_size - AFL_ALLOC_SIZE_OFFSET)) of
                None \<Rightarrow> Inr None
              | Some newer_buf \<Rightarrow>
                  fbind (zero_tail current_size next_size newer_buf) (\<lambda>mem.
                  Inr (Some \<lparr>complete_size = next_size, buf = mem\<rparr>)))"

definition afl_realloc_exact ::
  "(bytes \<Rightarrow> nat \<Rightarrow> bytes option) \<Rightarrow> afl_alloc_buf option \<Rightarrow> u64 \<Rightarrow> afl_alloc_buf option" where
  "afl_realloc_exact re b size_needed =
     (let current_size = (case b of None \<Rightarrow> 0 | Some new_buf \<Rightarrow> complete_size new_buf);
          size_needed = size_needed + AFL_ALLOC_SIZE_OFFSET
      in if current_size = size_needed then b
         else case re (case b of None \<Rightarrow> [] | Some new_buf \<Rightarrow> buf new_buf)
                      (unat (size_needed - AFL_ALLOC_SIZE_OFFSET)) of
                None \<Rightarrow> None
              | Some newer_buf \<Rightarrow> Some \<lparr>complete_size = size_needed, buf = newer_buf\<rparr>)"

definition afl_swap_bufs ::
  "afl_alloc_buf option \<Rightarrow> afl_alloc_buf option \<Rightarrow> afl_alloc_buf option \<times> afl_alloc_buf option" where
  "afl_swap_bufs buf1 buf2 = (let scratch_buf = buf1; buf1 = buf2; buf2 = scratch_buf in (buf1, buf2))"

text \<open>The invariant of a buffer, and the contract of \<open>realloc\<close>.\<close>

definition buf_ok :: "afl_alloc_buf \<Rightarrow> bool" where
  "buf_ok b \<longleftrightarrow> unat (complete_size b) = length (buf b) + unat AFL_ALLOC_SIZE_OFFSET"

definition realloc_ok :: "(bytes \<Rightarrow> nat \<Rightarrow> bytes option) \<Rightarrow> bool" where
  "realloc_ok re \<longleftrightarrow> (\<forall>old n new. re old n = Some new \<longrightarrow>
     length new = n \<and> take (length old) new = take n old)"

definition sample_re :: "bytes \<Rightarrow> nat \<Rightarrow> bytes option" where
  "sample_re old n = Some (take n old @ replicate (n - length old) 0xAA)"

section \<open>Powers of two\<close>

definition smeared :: "u64 \<Rightarrow> nat \<Rightarrow> u64 \<Rightarrow> bool" where
  "smeared w i x \<longleftrightarrow> (\<forall>n. bit x n \<longleftrightarrow> (\<exists>j < i. bit w (n + j)))"

lemma smeared_step: "smeared w i x \<Longrightarrow> smeared w (2 * i) (x OR drop_bit i x)"
  unfolding smeared_def
proof (intro allI iffI)
  fix n
  assume x: "\<forall>n. bit x n \<longleftrightarrow> (\<exists>j < i. bit w (n + j))"
  assume "bit (x OR drop_bit i x) n"
  then consider j where "j < i" "bit w (n + j)" | j where "j < i" "bit w (i + n + j)"
    using x by (auto simp: bit_simps)
  then show "\<exists>j < 2 * i. bit w (n + j)"
  proof cases
    case (1 j)
    then show ?thesis by (intro exI [of _ j]) simp
  next
    case (2 j)
    then show ?thesis by (intro exI [of _ "i + j"]) (simp add: ac_simps)
  qed
next
  fix n
  assume x: "\<forall>n. bit x n \<longleftrightarrow> (\<exists>j < i. bit w (n + j))"
  assume "\<exists>j < 2 * i. bit w (n + j)"
  then obtain j where j: "j < 2 * i" "bit w (n + j)" by blast
  show "bit (x OR drop_bit i x) n"
  proof (cases "j < i")
    case False
    then have "bit w (i + n + (j - i))" "j - i < i" using j by simp_all
    then show ?thesis using x by (auto simp: bit_simps)
  qed (use x j in \<open>auto simp: bit_simps\<close>)
qed

lemma next_pow2_smeared: "\<exists>x. smeared (inp - 1) 32 x \<and> next_pow2 inp = x + 1"
proof -
  have "smeared (inp - 1) 1 (inp - 1)" by (simp add: smeared_def)
  from this [THEN smeared_step, THEN smeared_step, THEN smeared_step, THEN smeared_step,
      THEN smeared_step]
  show ?thesis by (auto simp: next_pow2_def Let_def)
qed

lemma smeared_ge: "smeared w 32 x \<Longrightarrow> w \<le> x"
proof -
  assume sm: "smeared w 32 x"
  have "bit x n" if "bit w n" for n
    using sm that unfolding smeared_def by (metis add_0_right zero_less_numeral)
  then have "w AND x = w" by (auto intro!: bit_eqI simp: bit_and_iff)
  then show ?thesis by (metis word_and_le2 and.commute)
qed

lemma next_pow2_ge: "next_pow2 inp \<noteq> 0 \<Longrightarrow> inp \<le> next_pow2 inp"
proof -
  obtain x where x: "smeared (inp - 1) 32 x" "next_pow2 inp = x + 1"
    using next_pow2_smeared by blast
  assume "next_pow2 inp \<noteq> 0"
  then have "unat (x + 1) = unat x + 1"
    using x(2) unatSuc [of x] by (metis Suc_eq_plus1 add.commute)
  moreover have "unat (inp - 1) \<le> unat x"
    using smeared_ge [OF x(1)] by (simp add: word_le_nat_alt)
  moreover have "unat inp \<le> unat (inp - 1) + 1"
    by (cases "inp = 0") (simp_all add: unat_minus_one)
  ultimately show "inp \<le> next_pow2 inp"
    unfolding x(2) word_le_nat_alt by linarith
qed

lemma next_pow2_exact:
  assumes "0 < unat inp" and "unat inp \<le> 2 ^ 32"
  shows "\<exists>k \<le> 32. next_pow2 inp = 2 ^ k \<and> unat inp \<le> 2 ^ k \<and> 2 ^ k < 2 * unat inp"
proof -
  obtain x where x: "smeared (inp - 1) 32 x" "next_pow2 inp = x + 1"
    using next_pow2_smeared by blast
  have w: "unat (inp - 1) = unat inp - 1" using assms(1) unat_minus_one [of inp] by (cases "inp = 0") auto
  show ?thesis
  proof (cases "inp - 1 = 0")
    case True
    then have "x = 0" using x(1) by (auto simp: smeared_def intro: bit_eqI)
    then show ?thesis using x(2) True assms w by (intro exI [of _ 0]) auto
  next
    case False
    then have pos: "1 \<le> unat (inp - 1)" by (simp add: Suc_le_eq unat_gt_0)
    then obtain h where h: "2 ^ h \<le> unat (inp - 1)" "unat (inp - 1) < 2 ^ Suc h"
      using ex_power_ivl1 [of 2 "unat (inp - 1)"] by auto
    have "(2 :: nat) ^ h < 2 ^ 32" using h(1) w assms by linarith
    then have h32: "h < 32" by (simp only: power_strict_increasing_iff)
    have low: "\<not> bit (inp - 1) j" if "h < j" for j
    proof -
      have "unat (inp - 1) < 2 ^ j"
        using h(2) power_increasing [of "Suc h" j "2 :: nat"] that by linarith
      then have "\<not> bit (unat (inp - 1)) j" by (simp add: bit_iff_odd)
      then show ?thesis unfolding bit_unsigned_iff by simp
    qed
    have top: "bit (inp - 1) h"
    proof -
      have "unat (inp - 1) div 2 ^ h = 1"
        using h by (intro div_nat_eqI) simp_all
      then have "bit (unat (inp - 1)) h" by (simp add: bit_iff_odd)
      then show ?thesis unfolding bit_unsigned_iff by simp
    qed
    have "bit x n \<longleftrightarrow> n < Suc h" for n
    proof
      assume "bit x n"
      then obtain j where "bit (inp - 1) (n + j)" using x(1) by (auto simp: smeared_def)
      with low [of "n + j"] show "n < Suc h" by (cases "h < n + j") auto
    next
      assume n: "n < Suc h"
      have "\<exists>j < 32. bit (inp - 1) (n + j)"
        using n top h32 by (intro exI [of _ "h - n"]) auto
      then show "bit x n" using x(1) unfolding smeared_def by blast
    qed
    then have "x = mask (Suc h)"
      using h32 by (intro bit_word_eqI) (simp add: bit_mask_iff)
    then have "next_pow2 inp = 2 ^ Suc h"
      using x(2) by (simp add: mask_eq_exp_minus_1)
    then show ?thesis
      using h h32 w assms by (intro exI [of _ "Suc h"]) auto
  qed
qed

section \<open>Growing a buffer\<close>

lemma zero_tail_ok:
  assumes "length mem = unat (next_size - AFL_ALLOC_SIZE_OFFSET)"
    and "n = unat current_size - unat AFL_ALLOC_SIZE_OFFSET" and "n \<le> length mem"
  shows "zero_tail current_size next_size mem = Inr (take n mem @ replicate (length mem - n) 0)"
  using assms by (simp add: zero_tail_def Let_def memset_def)

text \<open>The size \<open>afl_realloc\<close> asks for when it has to grow.\<close>

lemma grown_size:
  fixes needed :: u64
  defines "n \<equiv> (if needed < INITIAL_GROWTH_SIZE then INITIAL_GROWTH_SIZE
                  else let n = next_pow2 needed in if n = 0 then needed else n)"
  shows "needed \<le> n" and "AFL_ALLOC_SIZE_OFFSET \<le> n"
proof -
  show ge: "needed \<le> n"
    using next_pow2_ge [of needed] by (auto simp: n_def Let_def)
  have "AFL_ALLOC_SIZE_OFFSET \<le> needed" if "\<not> needed < INITIAL_GROWTH_SIZE"
  proof -
    have "AFL_ALLOC_SIZE_OFFSET \<le> INITIAL_GROWTH_SIZE"
      by (simp add: AFL_ALLOC_SIZE_OFFSET_def INITIAL_GROWTH_SIZE_def)
    also have "\<dots> \<le> needed" using that by simp
    finally show ?thesis .
  qed
  then show "AFL_ALLOC_SIZE_OFFSET \<le> n"
    using ge by (cases "needed < INITIAL_GROWTH_SIZE")
      (auto simp: n_def AFL_ALLOC_SIZE_OFFSET_def INITIAL_GROWTH_SIZE_def)
qed

lemma sample_re_ok: "realloc_ok sample_re"
  by (auto simp: realloc_ok_def sample_re_def min_def)

lemma growth:
  assumes re: "realloc_ok re" and old: "pred_option buf_ok b"
    and cur: "cur = (case b of None \<Rightarrow> 0 | Some b \<Rightarrow> complete_size b)"
    and bytes: "old = (case b of None \<Rightarrow> [] | Some b \<Rightarrow> buf b)"
    and n: "cur < needed" "needed \<le> n" "AFL_ALLOC_SIZE_OFFSET \<le> n"
    and new: "re old (unat (n - AFL_ALLOC_SIZE_OFFSET)) = Some new"
  shows "zero_tail cur n new
           = Inr (old @ replicate (unat (n - AFL_ALLOC_SIZE_OFFSET) - length old) 0)"
    and "length old < unat (n - AFL_ALLOC_SIZE_OFFSET) + 1"
    and "unat (n - AFL_ALLOC_SIZE_OFFSET) + unat AFL_ALLOC_SIZE_OFFSET = unat n"
proof -
  let ?m = "unat (n - AFL_ALLOC_SIZE_OFFSET)"
  show m: "?m + unat AFL_ALLOC_SIZE_OFFSET = unat n"
    using n(3) by (simp add: unat_sub word_le_nat_alt)
  have len: "length old = unat cur - unat AFL_ALLOC_SIZE_OFFSET"
    using old cur bytes by (cases b) (simp_all add: buf_ok_def)
  have "cur < n" using n(1,2) by simp
  then show fits: "length old < ?m + 1"
    using len m by (simp add: word_less_nat_alt)
  have keep: "length new = ?m" "take (length old) new = old"
    using re new fits by (auto simp: realloc_ok_def)
  then show "zero_tail cur n new = Inr (old @ replicate (?m - length old) 0)"
    using zero_tail_ok [OF keep(1) len] fits by simp
qed

text \<open>
  C11. Growing a buffer: from a well-formed buffer or a null pointer, and a size whose sum with the
  header does not wrap, \<open>afl_realloc\<close> stays inside the block that \<open>realloc\<close> returns. Either
  \<open>realloc\<close> failed and the result is the null pointer, or the result is a well-formed buffer that
  offers at least the size asked for, starts with the old contents and is zero behind them.
\<close>

theorem afl_realloc_grows:
  assumes "realloc_ok re" and "pred_option buf_ok b"
    and "unat size_needed + unat AFL_ALLOC_SIZE_OFFSET < 2 ^ 64"
    and "old = (case b of None \<Rightarrow> [] | Some b \<Rightarrow> buf b)"
  shows "(\<exists>n. re old n = None) \<and> afl_realloc re b size_needed = Inr None \<or>
         (\<exists>b' k. afl_realloc re b size_needed = Inr (Some b') \<and> buf_ok b' \<and>
            unat size_needed \<le> length (buf b') \<and> buf b' = old @ replicate k 0)"
proof -
  let ?cur = "case b of None \<Rightarrow> 0 | Some b \<Rightarrow> complete_size b"
  let ?need = "size_needed + AFL_ALLOC_SIZE_OFFSET"
  let ?n = "if ?need < INITIAL_GROWTH_SIZE then INITIAL_GROWTH_SIZE
            else let n = next_pow2 ?need in if n = 0 then ?need else n"
  have need: "unat ?need = unat size_needed + unat AFL_ALLOC_SIZE_OFFSET"
    using assms(3) by (simp add: unat_word_ariths(1))
  show ?thesis
  proof (cases "?cur \<ge> ?need")
    case True
    then have "unat ?need \<le> unat ?cur" by (simp add: word_le_nat_alt)
    then obtain c where "b = Some c"
      using need by (cases b) (simp_all add: AFL_ALLOC_SIZE_OFFSET_def)
    then show ?thesis
      using True assms(2,4) need \<open>unat ?need \<le> unat ?cur\<close>
      by (intro disjI2 exI [of _ c] exI [of _ 0]) (simp add: afl_realloc_def buf_ok_def)
  next
    case False
    then have less: "?cur < ?need" by simp
    note size = grown_size [of ?need]
    show ?thesis
    proof (cases "re old (unat (?n - AFL_ALLOC_SIZE_OFFSET))")
      case None
      then show ?thesis
        using False assms(4) unfolding afl_realloc_def Let_def by auto
    next
      case (Some new)
      note g = growth [OF assms(1,2) refl assms(4) less size Some]
      have "afl_realloc re b size_needed = Inr (Some \<lparr>complete_size = ?n,
          buf = old @ replicate (unat (?n - AFL_ALLOC_SIZE_OFFSET) - length old) 0\<rparr>)"
        using False g(1) Some assms(4) unfolding afl_realloc_def Let_def by simp
      moreover have "unat size_needed \<le> unat (?n - AFL_ALLOC_SIZE_OFFSET)"
        using size(1) need g(3) unfolding word_le_nat_alt by linarith
      ultimately show ?thesis
        using g(2,3) unfolding buf_ok_def by (intro disjI2 exI conjI) (assumption, auto)
    qed
  qed
qed

theorem afl_realloc_grows_witness:
  "\<exists>b' k. afl_realloc sample_re (Some \<lparr>complete_size = 10, buf = [1, 2]\<rparr>) 100 = Inr (Some b') \<and>
     buf_ok b' \<and> 100 \<le> length (buf b') \<and> buf b' = [1, 2] @ replicate k 0"
proof -
  have b: "pred_option buf_ok (Some \<lparr>complete_size = 10, buf = [1, 2]\<rparr>)"
    by (simp add: buf_ok_def AFL_ALLOC_SIZE_OFFSET_def)
  have n: "unat (100 :: u64) + unat AFL_ALLOC_SIZE_OFFSET < 2 ^ 64"
    by (simp add: AFL_ALLOC_SIZE_OFFSET_def)
  show ?thesis
    using afl_realloc_grows [OF sample_re_ok b n refl] by (simp add: sample_re_def)
qed

text \<open>
  C37. \<open>next_pow2\<close> rounds every argument from \<open>1\<close> to \<open>2^32\<close> up to the next power of two and maps \<open>0\<close>
  to \<open>0\<close>. Beyond \<open>2^32\<close> it does not, although its comment promises the next power of two for
  every argument short of overflow and \<open>size_t\<close> has 64 bits: the step that folds in the upper half
  is missing, and \<open>2^32 + 1\<close> gives \<open>2^33 - 1\<close>.
\<close>

theorem next_pow2_rounds_up:
  "next_pow2 0 = 0 \<and>
   (0 < unat inp \<and> unat inp \<le> 2 ^ 32 \<longrightarrow>
      (\<exists>k \<le> 32. next_pow2 inp = 2 ^ k \<and> unat inp \<le> 2 ^ k \<and> 2 ^ k < 2 * unat inp)) \<and>
   next_pow2 (2 ^ 32 + 1) = 2 ^ 33 - 1"
proof -
  have "next_pow2 0 = 0" and "next_pow2 (2 ^ 32 + 1) = 2 ^ 33 - 1" by code_simp+
  then show ?thesis using next_pow2_exact [of inp] by blast
qed

theorem next_pow2_rounds_up_witness:
  "\<exists>k \<le> 32. next_pow2 100 = 2 ^ k \<and> (100 :: nat) \<le> 2 ^ k \<and> (2 :: nat) ^ k < 2 * 100"
  using next_pow2_rounds_up [of 100] by simp

text \<open>
  C38. \<open>afl_realloc_exact\<close> gives the buffer exactly the size asked for and keeps as much of the old
  contents as fits.
\<close>

theorem afl_realloc_exact_sizes:
  assumes "realloc_ok re" and "pred_option buf_ok b"
    and "unat size_needed + unat AFL_ALLOC_SIZE_OFFSET < 2 ^ 64"
    and "afl_realloc_exact re b size_needed = Some b'"
    and "old = (case b of None \<Rightarrow> [] | Some b \<Rightarrow> buf b)"
  shows "buf_ok b' \<and> length (buf b') = unat size_needed \<and>
         take (length old) (buf b') = take (unat size_needed) old"
proof -
  have need: "unat (size_needed + AFL_ALLOC_SIZE_OFFSET) = unat size_needed + unat AFL_ALLOC_SIZE_OFFSET"
    using assms(3) by (simp add: unat_word_ariths(1))
  show ?thesis
    using assms need
    by (cases b) (auto simp: afl_realloc_exact_def Let_def buf_ok_def realloc_ok_def
        split: if_splits option.splits)
qed

theorem afl_realloc_exact_sizes_witness:
  "\<exists>b'. afl_realloc_exact sample_re (Some \<lparr>complete_size = 10, buf = [1, 2]\<rparr>) 1 = Some b' \<and>
     buf b' = [1]"
proof -
  let ?b = "\<lparr>complete_size = 10, buf = [1, 2]\<rparr> :: afl_alloc_buf"
  have b: "pred_option buf_ok (Some ?b)"
    by (simp add: buf_ok_def AFL_ALLOC_SIZE_OFFSET_def)
  have n: "unat (1 :: u64) + unat AFL_ALLOC_SIZE_OFFSET < 2 ^ 64"
    by (simp add: AFL_ALLOC_SIZE_OFFSET_def)
  obtain b' where b': "afl_realloc_exact sample_re (Some ?b) 1 = Some b'"
    by (simp add: afl_realloc_exact_def sample_re_def AFL_ALLOC_SIZE_OFFSET_def Let_def)
  have "buf b' = [1]"
    using afl_realloc_exact_sizes [OF sample_re_ok b n b' refl] by (cases "buf b'") auto
  then show ?thesis using b' by blast
qed

end
