(* ===== verification/AFL_Hoare.thy ===== *)
theory AFL_Hoare
  imports AFL_Types
begin

text \<open>
  Stateful programs: the commands that the models of the test case minimizer and of the fuzzing
  stages are written with, and their weakest preconditions.

  \<^item> \<open>get\<close>, \<open>gets\<close> and \<open>modify\<close> read and update the state, \<open>for_each\<close> is a loop over a list of
    indices, \<open>while_loop\<close> a loop that may not end.
  \<^item> \<open>wp m Q s\<close>: run from \<open>s\<close>, the program \<open>m\<close> comes back without an invalid operation, and a
    normal return satisfies \<open>Q\<close>; a controlled abort (\<open>Fatal\<close>) is allowed. It is a total
    correctness statement. \<open>runs m Q s\<close> is the same without the abort: \<open>m\<close> returns normally.
    Both are instances of \<open>wpe\<close>, and the equations in \<open>wp_simps\<close> compute them.
\<close>

named_theorems wp_simps \<open>weakest preconditions\<close>

section \<open>Commands\<close>

definition get :: "('s, 's) comp" where
  "get s = Some (Inr (s, s))"

definition gets :: "('s \<Rightarrow> 'a) \<Rightarrow> ('s, 'a) comp" where
  "gets f s = Some (Inr (f s, s))"

definition modify :: "('s \<Rightarrow> 's) \<Rightarrow> ('s, unit) comp" where
  "modify f s = Some (Inr ((), f s))"

definition seq :: "('s, unit) comp \<Rightarrow> ('s, 'a) comp \<Rightarrow> ('s, 'a) comp" where
  "seq m m' = bnd m (\<lambda>_. m')"

definition skip :: "('s, unit) comp" where
  "skip = ret ()"

fun for_each :: "'i list \<Rightarrow> ('i \<Rightarrow> ('s, unit) comp) \<Rightarrow> ('s, unit) comp" where
  "for_each [] f = skip"
| "for_each (i # is) f = seq (f i) (for_each is f)"

partial_function (option) while_loop ::
  "('x \<Rightarrow> 's \<Rightarrow> bool) \<Rightarrow> ('x \<Rightarrow> ('s, 'x) comp) \<Rightarrow> 'x \<Rightarrow> 's \<Rightarrow> (fault + 'x \<times> 's) option" where
  "while_loop b f x s = (if b x s then bnd (f x) (while_loop b f) s else ret x s)"

text \<open>\<open>memcmp (a + i, b + j, n) == 0\<close>\<close>

definition memeq :: "bytes \<Rightarrow> nat \<Rightarrow> bytes \<Rightarrow> nat \<Rightarrow> nat \<Rightarrow> fault + bool" where
  "memeq a i b j n =
     (if i + n \<le> length a \<and> j + n \<le> length b then Inr (region a i n = region b j n)
      else Inl Out_of_bounds)"

text \<open>The first \<open>n\<close> bytes of a buffer, as a callee reads them.\<close>

definition prefix_of :: "bytes \<Rightarrow> nat \<Rightarrow> fault + bytes" where
  "prefix_of mem n = (if n \<le> length mem then Inr (take n mem) else Inl Out_of_bounds)"

text \<open>The value of a 32-bit word read as a signed number.\<close>

definition s32_of :: "nat \<Rightarrow> int" where
  "s32_of n = (if n < 2 ^ 31 then int n else int n - 2 ^ 32)"

definition wpe :: "(fault \<Rightarrow> bool) \<Rightarrow> ('s, 'a) comp \<Rightarrow> ('a \<Rightarrow> 's \<Rightarrow> bool) \<Rightarrow> 's \<Rightarrow> bool" where
  "wpe E m Q s = (case m s of
       None \<Rightarrow> False
     | Some (Inl e) \<Rightarrow> E e
     | Some (Inr (x, s')) \<Rightarrow> Q x s')"

abbreviation wp :: "('s, 'a) comp \<Rightarrow> ('a \<Rightarrow> 's \<Rightarrow> bool) \<Rightarrow> 's \<Rightarrow> bool" where
  "wp \<equiv> wpe (\<lambda>e. e = Fatal)"

abbreviation runs :: "('s, 'a) comp \<Rightarrow> ('a \<Rightarrow> 's \<Rightarrow> bool) \<Rightarrow> 's \<Rightarrow> bool" where
  "runs \<equiv> wpe (\<lambda>_. False)"

section \<open>Weakest preconditions\<close>

lemma wp_ret [wp_simps]: "wpe E (ret x) Q = Q x"
  by (simp add: fun_eq_iff wpe_def ret_def)

lemma wp_bnd [wp_simps]: "wpe E (bnd m f) Q = wpe E m (\<lambda>x. wpe E (f x) Q)"
  by (auto simp: fun_eq_iff wpe_def bnd_def split: option.splits sum.splits prod.splits)

lemma wp_chk [wp_simps]:
  "wpe E (chk r) Q s \<longleftrightarrow> (case r of Inl e \<Rightarrow> E e | Inr x \<Rightarrow> Q x s)"
  by (auto simp: wpe_def chk_def split: sum.splits)

lemma wp_get [wp_simps]: "wpe E get Q s \<longleftrightarrow> Q s s"
  by (simp add: wpe_def get_def)

lemma wp_gets [wp_simps]: "wpe E (gets f) Q s \<longleftrightarrow> Q (f s) s"
  by (simp add: wpe_def gets_def)

lemma wp_modify [wp_simps]: "wpe E (modify f) Q s \<longleftrightarrow> Q () (f s)"
  by (simp add: wpe_def modify_def)

lemma wp_seq [wp_simps]: "wpe E (seq m m') Q = wpe E m (\<lambda>_. wpe E m' Q)"
  by (simp add: seq_def wp_bnd)

lemma wp_skip [wp_simps]: "wpe E skip Q = Q ()"
  by (simp add: skip_def wp_ret)

lemma wp_if [wp_simps]: "wpe E (if b then m else m') Q s \<longleftrightarrow> (if b then wpe E m Q s else wpe E m' Q s)"
  by simp

lemma wp_mono: "wpe E m P s \<Longrightarrow> (\<And>x s'. P x s' \<Longrightarrow> Q x s') \<Longrightarrow> wpe E m Q s"
  by (auto simp: wpe_def split: option.splits sum.splits)

lemma wp_conj: "wpe E m P s \<Longrightarrow> wpe E m Q s \<Longrightarrow> wpe E m (\<lambda>x s'. P x s' \<and> Q x s') s"
  by (auto simp: wpe_def split: option.splits sum.splits)

lemma runs_returns: "runs m Q s \<longleftrightarrow> (\<exists>x s'. m s = Some (Inr (x, s')) \<and> Q x s')"
  by (auto simp: wpe_def split: option.splits sum.splits)

lemma wp_result: "wpe E m Q s \<Longrightarrow> m s = Some (Inr (x, s')) \<Longrightarrow> Q x s'"
  by (simp add: wpe_def)

text \<open>A loop over a list of indices with an invariant that speaks about the indices left.\<close>

lemma wp_for_each:
  assumes "I is s"
    and "\<And>i is s. I (i # is) s \<Longrightarrow> wpe E (f i) (\<lambda>_. I is) s"
    and "\<And>s. I [] s \<Longrightarrow> Q () s"
  shows "wpe E (for_each is f) Q s"
  using assms(1)
proof (induction "is" arbitrary: s)
  case Nil
  then show ?case using assms(3) by (simp add: wp_simps)
next
  case (Cons i "is")
  show ?case
    using assms(2) [OF Cons.prems] by (auto simp: wp_simps intro: wp_mono Cons.IH)
qed

lemma wp_for_upt:
  assumes "I a s" and "a \<le> n"
    and step: "\<And>i s. a \<le> i \<Longrightarrow> i < n \<Longrightarrow> I i s \<Longrightarrow> wpe E (f i) (\<lambda>_. I (Suc i)) s"
    and exit: "\<And>s. I n s \<Longrightarrow> Q () s"
  shows "wpe E (for_each [a..<n] f) Q s"
proof -
  have "wpe E (for_each [i..<n] f) Q s" if "a \<le> i" "i \<le> n" "I i s" for i s
    using that
  proof (induction "n - i" arbitrary: i s)
    case 0
    then show ?case using exit by (simp add: wp_skip)
  next
    case (Suc k)
    then have i: "i < n" by simp
    have "wpe E (f i) (\<lambda>_. wpe E (for_each [Suc i..<n] f) Q) s"
      by (rule wp_mono [OF step [OF Suc.prems(1) i Suc.prems(3)]]) (use Suc i in auto)
    then show ?case using i by (simp add: upt_conv_Cons wp_seq)
  qed
  then show ?thesis using assms(1,2) by simp
qed

lemma wp_while_unfold:
  "wpe E (while_loop b f x) Q s \<longleftrightarrow>
     (if b x s then wpe E (f x) (\<lambda>x. wpe E (while_loop b f x) Q) s else Q x s)"
proof -
  have "while_loop b f x s = (if b x s then bnd (f x) (while_loop b f) s else ret x s)"
    by (rule while_loop.simps)
  then have "wpe E (while_loop b f x) Q s \<longleftrightarrow>
      (if b x s then wpe E (bnd (f x) (while_loop b f)) Q s else wpe E (ret x) Q s)"
    unfolding wpe_def by simp
  then show ?thesis by (simp only: wp_bnd wp_ret)
qed

text \<open>A loop whose invariant comes with a measure that every round decreases.\<close>

lemma wp_while_loop:
  fixes V :: "'x \<Rightarrow> 's \<Rightarrow> nat"
  assumes "I x s"
    and step: "\<And>x s. I x s \<Longrightarrow> b x s \<Longrightarrow> wpe E (f x) (\<lambda>x' s'. I x' s' \<and> V x' s' < V x s) s"
    and exit: "\<And>x s. I x s \<Longrightarrow> \<not> b x s \<Longrightarrow> Q x s"
  shows "wpe E (while_loop b f x) Q s"
  using assms(1)
proof (induction "V x s" arbitrary: x s rule: less_induct)
  case less
  show ?case
  proof (cases "b x s")
    case True
    then show ?thesis
      using step [OF less.prems True]
      by (subst wp_while_unfold) (auto intro: wp_mono less.hyps)
  next
    case False
    then show ?thesis using exit less.prems by (subst wp_while_unfold) simp
  qed
qed

lemma memeq_ok [mem_simps]:
  "i + n \<le> length a \<Longrightarrow> j + n \<le> length b \<Longrightarrow> memeq a i b j n = Inr (region a i n = region b j n)"
  by (simp add: memeq_def)

lemma prefix_of_ok [mem_simps]: "n \<le> length mem \<Longrightarrow> prefix_of mem n = Inr (take n mem)"
  by (simp add: prefix_of_def)

lemma s32_of_sub:
  assumes "a < 2 ^ 31" and "b < 2 ^ 31"
  shows "s32_of (u32_sub a b) = int a - int b"
proof (cases "b \<le> a")
  case True
  then show ?thesis using assms by (simp add: u32_sub_exact s32_of_def)
next
  case False
  then have "u32_sub a b = a + 2 ^ 32 - b"
    using assms by (simp add: u32_sub_def)
  then show ?thesis using False assms by (simp add: s32_of_def)
qed

end
