(* ===== verification/AFL_Tmin.thy ===== *)
theory AFL_Tmin
  imports AFL_Hoare AFL_Alloc
begin

text \<open>
  The test case minimizer, \<open>src/afl-tmin.c\<close>: the decision whether a shorter candidate is kept
  (\<open>tmin_run_target\<close>) and the minimization itself (\<open>minimize\<close>), with the trimming by custom
  mutators.

  \<^item> \<open>tmin_cfg\<close> holds the settings from the command line and what is not part of this file: the
    target program behind the fork server (\<open>exec\<close>), which may answer differently at every execution
    and sees whatever custom mutators have done, the interrupt by the user, the hash and the custom
    mutators. \<open>tmin\<close> is the state: the static variables of the file, the trace and \<open>tmp_buf\<close>.
  \<^item> \<open>exec\<close> gives the result of an execution, whether it timed out, and the trace, which the target
    writes into a shared map of fixed size, as a function from map positions to counts.
  \<^item> \<open>FATAL\<close> and the exit after an interrupt are the fault \<open>Fatal\<close>. Messages and the counters that
    are only printed by the stage that computes them are left out.
  \<^item> A zero-length \<open>memcpy\<close> is no access.
\<close>

section \<open>Constants and state\<close>

datatype fsrv_run_result =
  FSRV_RUN_OK | FSRV_RUN_TMOUT | FSRV_RUN_CRASH | FSRV_RUN_ERROR | FSRV_RUN_NOINST | FSRV_RUN_NOBITS

definition TMIN_MAX_FILE :: nat where "TMIN_MAX_FILE = 10 * 1024 * 1024"
definition TMIN_SET_MIN_SIZE :: nat where "TMIN_SET_MIN_SIZE = 4"
definition TMIN_SET_STEPS :: nat where "TMIN_SET_STEPS = 128"
definition TRIM_START_STEPS :: nat where "TRIM_START_STEPS = 16"

text \<open>
  The hooks of a custom mutator that the minimizer calls. \<open>'m\<close> is the private data of all custom
  mutators. \<open>post_process\<close> returns the new buffer, with the information whether it is a buffer
  other than the caller's, or \<open>None\<close> for a null buffer.
\<close>

record 'm custom_mutator =
  post_process :: "(bytes \<Rightarrow> 'm \<Rightarrow> (bool \<times> bytes) option \<times> 'm) option"
  fuzz_send :: "(bytes \<Rightarrow> 'm \<Rightarrow> 'm) option"
  init_trim :: "(bytes \<Rightarrow> 'm \<Rightarrow> int \<times> 'm) option"
  custom_trim :: "('m \<Rightarrow> bytes \<times> 'm) option"
  post_trim :: "(bool \<Rightarrow> 'm \<Rightarrow> int \<times> 'm) option"

record 'm tmin_cfg =
  hang_mode :: bool
  edges_only :: bool
  exact_mode :: bool
  tmin_map_size :: nat
  fsrv_map_size :: nat
  mask_bitmap :: "bytes option"
  del_len_limit :: nat
  exec :: "nat \<Rightarrow> 'm \<Rightarrow> bytes \<Rightarrow> fsrv_run_result \<times> bool \<times> (nat \<Rightarrow> u8)"
  stop_soon :: "nat \<Rightarrow> bool"
  hash64 :: "bytes \<Rightarrow> u64"
  custom_mutators :: "'m custom_mutator list"
  uninit :: "nat \<Rightarrow> u8"

record 'm tmin =
  in_data :: bytes
  in_len :: nat
  tbuf :: bytes
  changed_any :: bool
  alpha_d_total :: nat
  missed_hangs :: nat
  missed_crashes :: nat
  missed_paths :: nat
  orig_cksum :: u64
  crash_mode :: bool
  total_execs :: nat
  last_run_timed_out :: bool
  tmin_trace :: bytes
  testcase :: bytes
  custom_data :: 'm

section \<open>Traces\<close>

definition tmin_class_lookup :: "u8 list" where
  "tmin_class_lookup =
     [0, 1, 2, 4] @ replicate 4 8 @ replicate 8 16 @ replicate 16 32 @ replicate 96 64 @ replicate 128 128"

fun tmin_classify_loop :: "(u8 \<Rightarrow> u8) \<Rightarrow> nat \<Rightarrow> nat \<Rightarrow> bytes \<Rightarrow> fault + bytes" where
  "tmin_classify_loop f 0 k mem = Inr mem"
| "tmin_classify_loop f (Suc i) k mem =
     fbind (load mem k) (\<lambda>b. fbind (store mem k (f b)) (\<lambda>mem. tmin_classify_loop f i (Suc k) mem))"

definition tmin_classify_counts :: "'m tmin_cfg \<Rightarrow> bytes \<Rightarrow> fault + bytes" where
  "tmin_classify_counts cfg mem =
     (if edges_only cfg then tmin_classify_loop (\<lambda>b. if b \<noteq> 0 then 1 else b) (tmin_map_size cfg) 0 mem
      else tmin_classify_loop (\<lambda>b. tmin_class_lookup ! unat b) (tmin_map_size cfg) 0 mem)"

fun apply_mask_loop :: "nat \<Rightarrow> nat \<Rightarrow> bytes \<Rightarrow> bytes \<Rightarrow> fault + bytes" where
  "apply_mask_loop 0 k mem msk = Inr mem"
| "apply_mask_loop (Suc i) k mem msk =
     fbind (EXTRACT32 mem (4 * k)) (\<lambda>v. fbind (EXTRACT32 msk (4 * k)) (\<lambda>w.
     fbind (INSERT32 mem (4 * k) (v AND NOT w)) (\<lambda>mem. apply_mask_loop i (Suc k) mem msk)))"

definition apply_mask :: "'m tmin_cfg \<Rightarrow> bytes \<Rightarrow> fault + bytes" where
  "apply_mask cfg mem =
     (case mask_bitmap cfg of
        None \<Rightarrow> Inr mem
      | Some msk \<Rightarrow> apply_mask_loop (tmin_map_size cfg div 4) 0 mem msk)"

section \<open>Running a candidate\<close>

fun post_process_all ::
  "'m custom_mutator list \<Rightarrow> bool \<Rightarrow> bytes \<Rightarrow> 'm \<Rightarrow> (bool \<times> bytes) option \<times> 'm" where
  "post_process_all [] fresh mem d = (Some (fresh, mem), d)"
| "post_process_all (el # els) fresh mem d =
     (case post_process el of
        None \<Rightarrow> post_process_all els fresh mem d
      | Some f \<Rightarrow>
          (case f mem d of
             (None, d) \<Rightarrow> (None, d)
           | (Some (fresh, new_mem), d) \<Rightarrow>
               if new_mem = [] then (None, d) else post_process_all els fresh new_mem d))"

fun fuzz_send_all :: "'m custom_mutator list \<Rightarrow> bytes \<Rightarrow> bool \<Rightarrow> 'm \<Rightarrow> bool \<times> 'm" where
  "fuzz_send_all [] mem sent d = (sent, d)"
| "fuzz_send_all (el # els) mem sent d =
     (case fuzz_send el of
        None \<Rightarrow> fuzz_send_all els mem sent d
      | Some f \<Rightarrow> fuzz_send_all els mem True (f mem d))"

text \<open>\<open>pre_afl_fsrv_write_to_testcase\<close>; its static buffer has \<open>MAX_FILE\<close> bytes.\<close>

definition pre_write_to_testcase :: "'m tmin_cfg \<Rightarrow> bytes \<Rightarrow> ('m tmin, unit) comp" where
  "pre_write_to_testcase cfg mem =
     (if custom_mutators cfg = [] then modify (\<lambda>s. s\<lparr>testcase := mem\<rparr>)
      else bnd (gets custom_data) (\<lambda>d.
        case post_process_all (custom_mutators cfg) False mem d of
          (None, d) \<Rightarrow> modify (\<lambda>s. s\<lparr>custom_data := d\<rparr>)
        | (Some (fresh, new_mem), d) \<Rightarrow>
            seq (modify (\<lambda>s. s\<lparr>custom_data := d\<rparr>))
            (if fresh \<and> MAX_FILE < length new_mem then chk (Inl Out_of_bounds)
             else
               (let (sent, d) = fuzz_send_all (custom_mutators cfg) new_mem False d
                in seq (modify (\<lambda>s. s\<lparr>custom_data := d\<rparr>))
                   (if sent then skip else modify (\<lambda>s. s\<lparr>testcase := new_mem\<rparr>))))))"

text \<open>One execution by the fork server; it counts the execution and leaves the trace and the timeout flag.\<close>

definition run_target :: "'m tmin_cfg \<Rightarrow> ('m tmin, fsrv_run_result) comp" where
  "run_target cfg =
     bnd get (\<lambda>s.
     let (res, timed_out, trace) = exec cfg (total_execs s) (custom_data s) (testcase s) in
     seq (modify (\<lambda>s. s\<lparr>total_execs := total_execs s + 1, last_run_timed_out := timed_out,
                        tmin_trace := map trace [0..<length (tmin_trace s)]\<rparr>))
     (ret res))"

definition miss_hang :: "('m tmin, bool) comp" where
  "miss_hang = seq (modify (\<lambda>s. s\<lparr>missed_hangs := u32_add (missed_hangs s) 1\<rparr>)) (ret False)"

definition miss_crash :: "('m tmin, bool) comp" where
  "miss_crash = seq (modify (\<lambda>s. s\<lparr>missed_crashes := u32_add (missed_crashes s) 1\<rparr>)) (ret False)"

definition miss_path :: "('m tmin, bool) comp" where
  "miss_path = seq (modify (\<lambda>s. s\<lparr>missed_paths := u32_add (missed_paths s) 1\<rparr>)) (ret False)"

definition compare_cksum ::
  "'m tmin_cfg \<Rightarrow> fsrv_run_result \<Rightarrow> bool \<Rightarrow> ('m tmin, bool) comp" where
  "compare_cksum cfg res first_run =
     (if res = FSRV_RUN_NOINST then chk (Inl Fatal)
      else
        bnd (gets tmin_trace) (\<lambda>trace.
        bnd (chk (prefix_of trace (fsrv_map_size cfg))) (\<lambda>m.
        let cksum = hash64 cfg m in
        seq (if first_run then modify (\<lambda>s. s\<lparr>orig_cksum := cksum\<rparr>) else skip)
        (bnd (gets orig_cksum) (\<lambda>orig. if orig = cksum then ret True else miss_path)))))"

text \<open>The part of \<open>tmin_run_target\<close> that decides, given the result of the execution.\<close>

definition judge_run :: "'m tmin_cfg \<Rightarrow> fsrv_run_result \<Rightarrow> bool \<Rightarrow> ('m tmin, bool) comp" where
  "judge_run cfg res first_run =
     (if hang_mode cfg then
        (case res of
           FSRV_RUN_TMOUT \<Rightarrow> ret True
         | FSRV_RUN_CRASH \<Rightarrow> miss_crash
         | _ \<Rightarrow> miss_hang)
      else
        bnd (gets tmin_trace) (\<lambda>trace.
        bnd (chk (tmin_classify_counts cfg trace)) (\<lambda>trace.
        bnd (chk (apply_mask cfg trace)) (\<lambda>trace.
        seq (modify (\<lambda>s. s\<lparr>tmin_trace := trace\<rparr>))
        (if res = FSRV_RUN_TMOUT then miss_hang
         else if res = FSRV_RUN_CRASH then
           seq (if first_run then modify (\<lambda>s. s\<lparr>crash_mode := True\<rparr>) else skip)
           (bnd (gets crash_mode) (\<lambda>crash.
            if crash then (if \<not> exact_mode cfg then ret True else compare_cksum cfg res first_run)
            else miss_crash))
         else
           bnd (gets crash_mode) (\<lambda>crash.
           if crash then miss_path else compare_cksum cfg res first_run))))))"

definition tmin_run_target ::
  "'m tmin_cfg \<Rightarrow> bytes \<Rightarrow> nat \<Rightarrow> bool \<Rightarrow> ('m tmin, bool) comp" where
  "tmin_run_target cfg mem len first_run =
     bnd (chk (prefix_of mem len)) (\<lambda>data.
     seq (pre_write_to_testcase cfg data)
     (bnd (run_target cfg) (\<lambda>res.
      if res = FSRV_RUN_ERROR then chk (Inl Fatal)
      else bnd (gets total_execs) (\<lambda>n.
      if stop_soon cfg n then chk (Inl Fatal) else judge_run cfg res first_run))))"

section \<open>Trimming by custom mutators\<close>

definition call_post_trim ::
  "(bool \<Rightarrow> 'm \<Rightarrow> int \<times> 'm) \<Rightarrow> bool \<Rightarrow> bool \<Rightarrow> ('m tmin, int \<times> bool) comp" where
  "call_post_trim post ok trimmed =
     bnd (gets custom_data) (\<lambda>d. let (cur_step, d) = post ok d in
     seq (modify (\<lambda>s. s\<lparr>custom_data := d\<rparr>)) (ret (cur_step, trimmed)))"

definition custom_trim_step ::
  "'m tmin_cfg \<Rightarrow> ('m \<Rightarrow> bytes \<times> 'm) \<Rightarrow> (bool \<Rightarrow> 'm \<Rightarrow> int \<times> 'm) \<Rightarrow> int \<times> bool \<Rightarrow>
     ('m tmin, int \<times> bool) comp" where
  "custom_trim_step cfg trim post = (\<lambda>(cur_step, trimmed).
     bnd (gets custom_data) (\<lambda>d. let (retbuf, d) = trim d in
     seq (modify (\<lambda>s. s\<lparr>custom_data := d\<rparr>))
     (if retbuf = [] then call_post_trim post False trimmed
      else bnd (tmin_run_target cfg retbuf (length retbuf mod 2 ^ 32) False) (\<lambda>res.
           if \<not> res then call_post_trim post False trimmed
           else seq (modify (\<lambda>s. s\<lparr>in_data := retbuf, in_len := length retbuf mod 2 ^ 32\<rparr>))
                (call_post_trim post True True)))))"

definition custom_trim_el ::
  "'m tmin_cfg \<Rightarrow> (bytes \<Rightarrow> 'm \<Rightarrow> int \<times> 'm) \<Rightarrow> ('m \<Rightarrow> bytes \<times> 'm) \<Rightarrow> (bool \<Rightarrow> 'm \<Rightarrow> int \<times> 'm) \<Rightarrow>
     ('m tmin, bool) comp" where
  "custom_trim_el cfg init trim post =
     bnd get (\<lambda>s.
     bnd (chk (prefix_of (in_data s) (in_len s))) (\<lambda>data.
     let (max_steps, d) = init data (custom_data s) in
     seq (modify (\<lambda>s. s\<lparr>custom_data := d\<rparr>))
     (if max_steps < 0 then ret False
      else bnd (while_loop (\<lambda>(cur_step, _) _. cur_step < max_steps) (custom_trim_step cfg trim post) (0, False))
             (\<lambda>(_, trimmed). ret trimmed))))"

text \<open>The result tells whether \<open>minimize\<close> returns at once, and whether a custom trimmer was there.\<close>

fun custom_trim_all ::
  "'m tmin_cfg \<Rightarrow> 'm custom_mutator list \<Rightarrow> bool \<Rightarrow> ('m tmin, bool \<times> bool) comp" where
  "custom_trim_all cfg [] custom_trimmed = ret (False, custom_trimmed)"
| "custom_trim_all cfg (el # els) custom_trimmed =
     (case (init_trim el, custom_trim el, post_trim el) of
        (Some init, Some trim, Some post) \<Rightarrow>
          bnd (custom_trim_el cfg init trim post) (\<lambda>ok.
          if ok then ret (True, True) else custom_trim_all cfg els True)
      | _ \<Rightarrow> custom_trim_all cfg els custom_trimmed)"

section \<open>Stages of the minimization\<close>

text \<open>The number of leading \<open>'0'\<close> characters of a block.\<close>

fun scan_zero :: "bytes \<Rightarrow> nat \<Rightarrow> nat \<Rightarrow> fault + nat" where
  "scan_zero mem pos 0 = Inr 0"
| "scan_zero mem pos (Suc n) =
     fbind (load mem pos) (\<lambda>b.
       if b \<noteq> 0x30 then Inr 0 else fbind (scan_zero mem (pos + 1) n) (\<lambda>i. Inr (Suc i)))"

definition norm_block :: "'m tmin_cfg \<Rightarrow> nat \<Rightarrow> nat \<Rightarrow> ('m tmin, nat) comp" where
  "norm_block cfg set_len set_pos =
     bnd get (\<lambda>s.
     let use_len = min set_len (u32_sub (in_len s) set_pos) in
     bnd (chk (scan_zero (in_data s) set_pos use_len)) (\<lambda>i.
     seq
       (if i \<noteq> use_len then
          bnd (chk (memcpy (tbuf s) 0 (in_data s) 0 (in_len s))) (\<lambda>tmp.
          bnd (chk (memset tmp set_pos 0x30 use_len)) (\<lambda>tmp.
          seq (modify (\<lambda>s. s\<lparr>tbuf := tmp\<rparr>))
          (bnd (tmin_run_target cfg tmp (in_len s) False) (\<lambda>res.
           if res then
             bnd (gets in_data) (\<lambda>d.
             bnd (chk (memset d set_pos 0x30 use_len)) (\<lambda>d.
             modify (\<lambda>s. s\<lparr>in_data := d, alpha_d_total := u32_add (alpha_d_total s) use_len\<rparr>)))
           else skip))))
        else skip)
     (ret (u32_add set_pos set_len))))"

definition block_normalization :: "'m tmin_cfg \<Rightarrow> ('m tmin, unit) comp" where
  "block_normalization cfg =
     bnd (gets in_len) (\<lambda>len.
     let set_len = unat (next_pow2 (of_nat (len div TMIN_SET_STEPS))) mod 2 ^ 32;
         set_len = (if set_len < TMIN_SET_MIN_SIZE then TMIN_SET_MIN_SIZE else set_len)
     in bnd (while_loop (\<lambda>set_pos s. set_pos < in_len s) (norm_block cfg set_len) 0) (\<lambda>_. skip))"

text \<open>The end of a round of the deletion loop, once the candidate of \<open>k\<close> bytes in \<open>tmp_buf\<close> has been run.\<close>

definition del_finish :: "nat \<Rightarrow> nat \<Rightarrow> nat \<Rightarrow> bool \<Rightarrow> ('m tmin, nat \<times> bool) comp" where
  "del_finish del_len del_pos k res =
     (if res then
        bnd get (\<lambda>s.
        bnd (chk (memcpy (in_data s) 0 (tbuf s) 0 k)) (\<lambda>d.
        seq (modify (\<lambda>s. s\<lparr>in_data := d, in_len := k, changed_any := True\<rparr>))
        (ret (del_pos, True))))
      else ret (u32_add del_pos del_len, False))"

text \<open>One round of the deletion loop; \<open>(del_pos, prev_del)\<close> are its local variables.\<close>

definition del_step :: "'m tmin_cfg \<Rightarrow> nat \<Rightarrow> nat \<times> bool \<Rightarrow> ('m tmin, nat \<times> bool) comp" where
  "del_step cfg del_len = (\<lambda>(del_pos, prev_del).
     bnd get (\<lambda>s.
     let tail = s32_of (u32_sub (u32_sub (in_len s) del_pos) del_len);
         tail_len = (if tail < 0 then 0 else nat tail)
     in bnd (if \<not> prev_del \<and> tail_len \<noteq> 0 then
               (if del_len \<le> del_pos then
                  chk (memeq (in_data s) (del_pos - del_len) (in_data s) del_pos del_len)
                else chk (Inl Out_of_bounds))
             else ret False) (\<lambda>same.
        if same then ret (u32_add del_pos del_len, prev_del)
        else
          bnd (chk (memcpy (tbuf s) 0 (in_data s) 0 del_pos)) (\<lambda>tmp.
          bnd (chk (if tail_len = 0 then Inr tmp
                    else memcpy tmp del_pos (in_data s) (del_pos + del_len) tail_len)) (\<lambda>tmp.
          seq (modify (\<lambda>s. s\<lparr>tbuf := tmp\<rparr>))
          (bnd (tmin_run_target cfg tmp (del_pos + tail_len) False)
             (del_finish del_len del_pos (del_pos + tail_len))))))))"

text \<open>One block size; the result is the next size and whether to go on.\<close>

definition del_blksize :: "'m tmin_cfg \<Rightarrow> nat \<times> bool \<Rightarrow> ('m tmin, nat \<times> bool) comp" where
  "del_blksize cfg = (\<lambda>(del_len, _).
     let del_len = (if del_len = 0 then 1 else del_len) in
     bnd (while_loop (\<lambda>(del_pos, _) s. del_pos < in_len s) (del_step cfg del_len) (0, True)) (\<lambda>_.
     bnd (gets in_len) (\<lambda>len.
     if del_len > del_len_limit cfg \<and> len \<ge> 1 then ret (del_len div 2, True)
     else ret (del_len, False))))"

definition block_deletion :: "'m tmin_cfg \<Rightarrow> ('m tmin, unit) comp" where
  "block_deletion cfg =
     bnd (gets in_len) (\<lambda>len.
     let del_len = unat (next_pow2 (of_nat (len div TRIM_START_STEPS))) mod 2 ^ 32 in
     bnd (while_loop (\<lambda>(_, again) _. again) (del_blksize cfg) (del_len, True)) (\<lambda>_. skip))"

fun alpha_count :: "nat \<Rightarrow> nat \<Rightarrow> bytes \<Rightarrow> nat list \<Rightarrow> fault + nat list" where
  "alpha_count 0 k mem alpha_map = Inr alpha_map"
| "alpha_count (Suc i) k mem alpha_map =
     fbind (load mem k) (\<lambda>b.
     alpha_count i (Suc k) mem (alpha_map[unat b := u32_add (alpha_map ! unat b) 1]))"

fun replace_sym :: "nat \<Rightarrow> nat \<Rightarrow> nat \<Rightarrow> bytes \<Rightarrow> fault + bytes" where
  "replace_sym 0 r c mem = Inr mem"
| "replace_sym (Suc i) r c mem =
     fbind (load mem r) (\<lambda>b.
       if unat b = c then fbind (store mem r 0x30) (\<lambda>mem. replace_sym i (Suc r) c mem)
       else replace_sym i (Suc r) c mem)"

definition alpha_sym :: "'m tmin_cfg \<Rightarrow> nat list \<Rightarrow> nat \<Rightarrow> ('m tmin, unit) comp" where
  "alpha_sym cfg alpha_map i =
     (if i = 0x30 \<or> alpha_map ! i = 0 then skip
      else
        bnd get (\<lambda>s.
        bnd (chk (memcpy (tbuf s) 0 (in_data s) 0 (in_len s))) (\<lambda>tmp.
        bnd (chk (replace_sym (in_len s) 0 i tmp)) (\<lambda>tmp.
        seq (modify (\<lambda>s. s\<lparr>tbuf := tmp\<rparr>))
        (bnd (tmin_run_target cfg tmp (in_len s) False) (\<lambda>res.
         if res then
           bnd get (\<lambda>s.
           bnd (chk (memcpy (in_data s) 0 (tbuf s) 0 (in_len s))) (\<lambda>d.
           modify (\<lambda>s. s\<lparr>in_data := d, changed_any := True,
                         alpha_d_total := u32_add (alpha_d_total s) (alpha_map ! i)\<rparr>)))
         else skip))))))"

definition alphabet_minimization :: "'m tmin_cfg \<Rightarrow> ('m tmin, unit) comp" where
  "alphabet_minimization cfg =
     bnd get (\<lambda>s.
     bnd (chk (alpha_count (in_len s) 0 (in_data s) (replicate 256 0))) (\<lambda>alpha_map.
     for_each [0..<256] (alpha_sym cfg alpha_map)))"

definition char_pos :: "'m tmin_cfg \<Rightarrow> nat \<Rightarrow> ('m tmin, unit) comp" where
  "char_pos cfg i =
     bnd get (\<lambda>s.
     bnd (chk (load (tbuf s) i)) (\<lambda>orig.
     if orig = 0x30 then skip
     else
       bnd (chk (store (tbuf s) i 0x30)) (\<lambda>tmp.
       seq (modify (\<lambda>s. s\<lparr>tbuf := tmp\<rparr>))
       (bnd (tmin_run_target cfg tmp (in_len s) False) (\<lambda>res.
        bnd get (\<lambda>s.
        if res then
          bnd (chk (store (in_data s) i 0x30)) (\<lambda>d.
          modify (\<lambda>s. s\<lparr>in_data := d, changed_any := True,
                        alpha_d_total := u32_add (alpha_d_total s) 1\<rparr>))
        else
          bnd (chk (store (tbuf s) i orig)) (\<lambda>tmp. modify (\<lambda>s. s\<lparr>tbuf := tmp\<rparr>))))))))"

definition character_minimization :: "'m tmin_cfg \<Rightarrow> ('m tmin, unit) comp" where
  "character_minimization cfg =
     bnd get (\<lambda>s.
     bnd (chk (memcpy (tbuf s) 0 (in_data s) 0 (in_len s))) (\<lambda>tmp.
     seq (modify (\<lambda>s. s\<lparr>tbuf := tmp\<rparr>))
     (for_each [0..<in_len s] (char_pos cfg))))"

text \<open>One pass; the result is the number of the pass and whether another one follows.\<close>

definition tmin_pass :: "'m tmin_cfg \<Rightarrow> nat \<times> bool \<Rightarrow> ('m tmin, nat \<times> bool) comp" where
  "tmin_pass cfg = (\<lambda>(cur_pass, _).
     let cur_pass = u32_add cur_pass 1 in
     seq (modify (\<lambda>s. s\<lparr>changed_any := False\<rparr>))
     (seq (block_deletion cfg)
     (bnd (gets changed_any) (\<lambda>changed.
      if cur_pass > 1 \<and> \<not> changed then ret (cur_pass, False)
      else
        seq (alphabet_minimization cfg)
        (seq (character_minimization cfg)
        (bnd (gets changed_any) (\<lambda>changed. ret (cur_pass, changed))))))))"

definition minimize :: "'m tmin_cfg \<Rightarrow> ('m tmin, unit) comp" where
  "minimize cfg =
     seq (modify (\<lambda>s. s\<lparr>tbuf := map (uninit cfg) [0..<in_len s], alpha_d_total := 0\<rparr>))
     (bnd (custom_trim_all cfg (custom_mutators cfg) False) (\<lambda>(returned, custom_trimmed).
      if returned then skip
      else bnd (gets in_len) (\<lambda>len.
      if len \<le> 1 \<or> custom_trimmed then skip
      else
        seq (block_normalization cfg)
        (bnd (while_loop (\<lambda>(_, again) _. again) (tmin_pass cfg) (0, True)) (\<lambda>_. skip)))))"

section \<open>The program\<close>

text \<open>The part of \<open>main\<close> from the dry run to the end of the minimization.\<close>

fun anything_set_loop :: "nat \<Rightarrow> nat \<Rightarrow> bytes \<Rightarrow> fault + bool" where
  "anything_set_loop 0 k mem = Inr False"
| "anything_set_loop (Suc i) k mem =
     fbind (EXTRACT32 mem (4 * k)) (\<lambda>v. if v \<noteq> 0 then Inr True else anything_set_loop i (Suc k) mem)"

definition anything_set :: "'m tmin_cfg \<Rightarrow> bytes \<Rightarrow> fault + bool" where
  "anything_set cfg mem = anything_set_loop (tmin_map_size cfg div 4) 0 mem"

definition tmin_main :: "'m tmin_cfg \<Rightarrow> ('m tmin, unit) comp" where
  "tmin_main cfg =
     bnd get (\<lambda>s.
     bnd (tmin_run_target cfg (in_data s) (in_len s) True) (\<lambda>_.
     bnd get (\<lambda>s.
     if hang_mode cfg \<and> \<not> last_run_timed_out s then chk (Inl Fatal)
     else if last_run_timed_out s \<and> \<not> hang_mode cfg then chk (Inl Fatal)
     else if hang_mode cfg then minimize cfg
     else if \<not> crash_mode s then
       bnd (chk (anything_set cfg (tmin_trace s))) (\<lambda>set.
       if \<not> set then chk (Inl Fatal) else minimize cfg)
     else minimize cfg)))"

section \<open>A sample target\<close>

text \<open>A target that crashes on inputs with the byte \<open>0x41\<close>, minimized in crash mode.\<close>

definition sample_exec :: "nat \<Rightarrow> unit \<Rightarrow> bytes \<Rightarrow> fsrv_run_result \<times> bool \<times> (nat \<Rightarrow> u8)" where
  "sample_exec n d mem =
     (if 0x41 \<in> set mem then FSRV_RUN_CRASH else FSRV_RUN_OK, False, \<lambda>i. if i = 1 then 3 else 0)"

definition sample_cfg :: "unit tmin_cfg" where
  "sample_cfg = \<lparr>hang_mode = False, edges_only = False, exact_mode = False, tmin_map_size = 4,
     fsrv_map_size = 4, mask_bitmap = None, del_len_limit = 1, exec = sample_exec,
     stop_soon = (\<lambda>_. False), hash64 = (\<lambda>t. of_nat (length t)), custom_mutators = [], uninit = (\<lambda>_. 0)\<rparr>"

definition sample_tmin :: "unit tmin" where
  "sample_tmin = \<lparr>in_data = [1, 2, 0x41, 3], in_len = 4, tbuf = [], changed_any = False, alpha_d_total = 0,
     missed_hangs = 0, missed_crashes = 0, missed_paths = 0, orig_cksum = 0, crash_mode = True,
     total_execs = 1, last_run_timed_out = False, tmin_trace = [0, 0, 0, 0], testcase = [], custom_data = ()\<rparr>"

text \<open>A custom mutator whose post-processor copies its input into a buffer of its own.\<close>

definition copying_mutator :: "'m custom_mutator" where
  "copying_mutator = \<lparr>post_process = Some (\<lambda>mem d. (Some (True, mem), d)), fuzz_send = None,
     init_trim = None, custom_trim = None, post_trim = None\<rparr>"

section \<open>Specification vocabulary\<close>

text \<open>The live bytes of the input.\<close>

definition input :: "'m tmin \<Rightarrow> bytes" where
  "input s = take (in_len s) (in_data s)"

text \<open>
  What the callers guarantee: the input is smaller than \<open>TMIN_MAX_FILE\<close> (\<open>read_initial_file\<close>), the
  maps are allocated, the block limit is positive (\<open>main\<close>), and no post-processor returns more than \<open>MAX_FILE\<close> bytes.
\<close>

definition cfg_ok :: "'m tmin_cfg \<Rightarrow> bool" where
  "cfg_ok cfg \<longleftrightarrow> 1 \<le> del_len_limit cfg \<and>
     (\<forall>msk. mask_bitmap cfg = Some msk \<longrightarrow> tmin_map_size cfg \<le> length msk) \<and>
     (\<forall>el \<in> set (custom_mutators cfg). \<forall>f mem d fresh out d'.
        post_process el = Some f \<longrightarrow> f mem d = (Some (fresh, out), d') \<longrightarrow> length out \<le> MAX_FILE)"

definition state_ok :: "'m tmin_cfg \<Rightarrow> 'm tmin \<Rightarrow> bool" where
  "state_ok cfg s \<longleftrightarrow>
     in_len s \<le> length (in_data s) \<and> in_len s < TMIN_MAX_FILE \<and>
     tmin_map_size cfg \<le> length (tmin_trace s) \<and> fsrv_map_size cfg \<le> length (tmin_trace s)"

text \<open>No custom mutator offers trimming of its own.\<close>

definition no_trimmers :: "'m tmin_cfg \<Rightarrow> bool" where
  "no_trimmers cfg \<longleftrightarrow>
     (\<forall>el \<in> set (custom_mutators cfg). init_trim el = None \<or> custom_trim el = None \<or> post_trim el = None)"

text \<open>
  A target that answers the same at every execution, with nobody interrupting and no custom
  mutators in between.
\<close>

definition reliable :: "'m tmin_cfg \<Rightarrow> bool" where
  "reliable cfg \<longleftrightarrow> custom_mutators cfg = [] \<and> (\<forall>n. \<not> stop_soon cfg n) \<and>
     (\<forall>n n' d d' mem. exec cfg n d mem = exec cfg n' d' mem)"

text \<open>The code would keep the candidate \<open>mem\<close>.\<close>

definition keeps :: "'m tmin_cfg \<Rightarrow> 'm tmin \<Rightarrow> bytes \<Rightarrow> bool" where
  "keeps cfg s mem \<longleftrightarrow>
     (\<exists>s'. tmin_run_target cfg mem (length mem) False s = Some (Inr (True, s')))"

text \<open>A run changes none of the variables of the minimization and keeps the reference behaviour.\<close>

definition same_work :: "'m tmin \<Rightarrow> 'm tmin \<Rightarrow> bool" where
  "same_work s s' \<longleftrightarrow>
     in_data s' = in_data s \<and> in_len s' = in_len s \<and> tbuf s' = tbuf s \<and>
     changed_any s' = changed_any s \<and> alpha_d_total s' = alpha_d_total s \<and>
     length (tmin_trace s') = length (tmin_trace s)"

definition same_mode :: "'m tmin \<Rightarrow> 'm tmin \<Rightarrow> bool" where
  "same_mode s s' \<longleftrightarrow>
     orig_cksum s' = orig_cksum s \<and> crash_mode s' = crash_mode s \<and>
     length (tmin_trace s') = length (tmin_trace s)"

text \<open>What decides over a candidate, as a function of the answer of the target.\<close>

definition processed :: "'m tmin_cfg \<Rightarrow> bytes \<Rightarrow> bytes" where
  "processed cfg trace = projr (fbind (tmin_classify_counts cfg trace) (apply_mask cfg))"

definition verdict :: "'m tmin_cfg \<Rightarrow> 'm tmin \<Rightarrow> fsrv_run_result \<Rightarrow> bytes \<Rightarrow> bool" where
  "verdict cfg s res trace \<longleftrightarrow>
     (let same = (res \<noteq> FSRV_RUN_NOINST \<and>
          orig_cksum s = hash64 cfg (take (fsrv_map_size cfg) (processed cfg trace)))
      in if res = FSRV_RUN_ERROR then False
         else if hang_mode cfg then res = FSRV_RUN_TMOUT
         else if res = FSRV_RUN_TMOUT then False
         else if res = FSRV_RUN_CRASH then crash_mode s \<and> (\<not> exact_mode cfg \<or> same)
         else \<not> crash_mode s \<and> same)"

definition accepts :: "'m tmin_cfg \<Rightarrow> 'm tmin \<Rightarrow> bytes \<Rightarrow> bool" where
  "accepts cfg s mem \<longleftrightarrow>
     (let (res, _, trace) = exec cfg (total_execs s) (custom_data s) mem
      in verdict cfg s res (map trace [0..<length (tmin_trace s)]))"

text \<open>The measure that bounds the number of passes: bytes, and bytes other than \<open>'0'\<close>.\<close>

definition weight :: "bytes \<Rightarrow> nat" where
  "weight d = length d + length (filter (\<lambda>b. b \<noteq> 0x30) d)"

text \<open>
  \<open>reached cfg s0 s\<close>: the minimization that started in \<open>s0\<close> is in \<open>s\<close>. The buffers are large enough,
  the reference behaviour is the one of \<open>s0\<close>, the input has not grown, and if the target is
  reliable and accepted the first input it accepts the current one. \<open>progress\<close> adds what the flag
  \<open>changed_any\<close> says about the current pass, which started with the input \<open>d\<close>; \<open>f\<close> tells that the
  flag was set before.
\<close>

definition reached :: "'m tmin_cfg \<Rightarrow> 'm tmin \<Rightarrow> 'm tmin \<Rightarrow> bool" where
  "reached cfg s0 s \<longleftrightarrow>
     cfg_ok cfg \<and> state_ok cfg s \<and> same_mode s0 s \<and> in_len s \<le> length (tbuf s) \<and> in_len s \<le> in_len s0 \<and>
     (reliable cfg \<longrightarrow> accepts cfg s0 (input s0) \<longrightarrow> accepts cfg s0 (input s))"

definition progress :: "'m tmin_cfg \<Rightarrow> 'm tmin \<Rightarrow> bytes \<Rightarrow> bool \<Rightarrow> 'm tmin \<Rightarrow> bool" where
  "progress cfg s0 d f s \<longleftrightarrow> reached cfg s0 s \<and> (f \<longrightarrow> changed_any s) \<and>
     (if changed_any s then weight (input s) < weight d else input s = d)"

text \<open>The blocks of \<open>n\<close> bytes that start below \<open>k\<close> cannot be removed from the input.\<close>

definition stuck :: "'m tmin_cfg \<Rightarrow> 'm tmin \<Rightarrow> nat \<Rightarrow> nat \<Rightarrow> 'm tmin \<Rightarrow> bool" where
  "stuck cfg s0 n k s \<longleftrightarrow>
     (\<forall>i < k. n dvd i \<longrightarrow> i < in_len s \<longrightarrow> \<not> accepts cfg s0 (delete_at (input s) i n))"

text \<open>The invariant of the deletion loop for blocks of \<open>n\<close> bytes.\<close>

definition del_inv :: "'m tmin_cfg \<Rightarrow> 'm tmin \<Rightarrow> bytes \<Rightarrow> bool \<Rightarrow> nat \<Rightarrow> nat \<times> bool \<Rightarrow> 'm tmin \<Rightarrow> bool" where
  "del_inv cfg s0 d f n = (\<lambda>(pos, prev_del) s.
     progress cfg s0 d f s \<and> (\<not> prev_del \<longrightarrow> n \<le> pos) \<and> n dvd pos \<and>
     (reliable cfg \<and> \<not> changed_any s \<longrightarrow> stuck cfg s0 n pos s))"

section \<open>Traces and candidates\<close>

lemma tmin_classify_loop_ok:
  "k + n \<le> length mem \<Longrightarrow>
   \<exists>mem'. tmin_classify_loop f n k mem = Inr mem' \<and> length mem' = length mem"
proof (induction n arbitrary: k mem)
  case (Suc n)
  then show ?case
    using Suc.IH [of "Suc k" "mem[k := f (mem ! k)]"] by (simp add: mem_simps)
qed simp

lemma apply_mask_loop_ok:
  "4 * (k + n) \<le> length mem \<Longrightarrow> 4 * (k + n) \<le> length msk \<Longrightarrow>
   \<exists>mem'. apply_mask_loop n k mem msk = Inr mem' \<and> length mem' = length mem"
proof (induction n arbitrary: k mem)
  case (Suc n)
  let ?w = "le_word (region mem (4 * k) 4) AND NOT (le_word (region msk (4 * k) 4)) :: u32"
  have "length (put mem (4 * k) (le_bytes 4 ?w)) = length mem"
    using Suc.prems by simp
  then show ?case
    using Suc.IH [of "Suc k" "put mem (4 * k) (le_bytes 4 ?w)"] Suc.prems
    by (simp add: mem_simps)
qed simp

lemma processed_ok:
  assumes "cfg_ok cfg" and "tmin_map_size cfg \<le> length trace"
  shows "\<exists>t. tmin_classify_counts cfg trace = Inr t \<and> apply_mask cfg t = Inr (processed cfg trace)"
    and "length (processed cfg trace) = length trace"
proof -
  have "\<exists>t. tmin_classify_counts cfg trace = Inr t \<and> length t = length trace"
    unfolding tmin_classify_counts_def using assms(2)
    by (cases "edges_only cfg") (simp_all add: tmin_classify_loop_ok)
  then obtain t where t: "tmin_classify_counts cfg trace = Inr t" "length t = length trace" by blast
  have "\<exists>t'. apply_mask cfg t = Inr t' \<and> length t' = length t"
  proof (cases "mask_bitmap cfg")
    case (Some msk)
    then have "tmin_map_size cfg \<le> length msk" using assms(1) by (simp add: cfg_ok_def)
    then show ?thesis
      using apply_mask_loop_ok [of 0 "tmin_map_size cfg div 4" t msk] t(2) assms(2) Some
      by (simp add: apply_mask_def)
  qed (simp add: apply_mask_def)
  then obtain t' where t': "apply_mask cfg t = Inr t'" "length t' = length t" by blast
  then have "processed cfg trace = t'" using t by (simp add: processed_def)
  then show "\<exists>t. tmin_classify_counts cfg trace = Inr t \<and> apply_mask cfg t = Inr (processed cfg trace)"
    and "length (processed cfg trace) = length trace"
    using t t' by auto
qed

lemma post_process_all_small:
  "\<forall>el \<in> set els. \<forall>f mem d fresh out d'.
     post_process el = Some f \<longrightarrow> f mem d = (Some (fresh, out), d') \<longrightarrow> length out \<le> MAX_FILE \<Longrightarrow>
   (fr \<longrightarrow> length m \<le> MAX_FILE) \<Longrightarrow>
   post_process_all els fr m d = (Some (True, out), d') \<Longrightarrow> length out \<le> MAX_FILE"
proof (induction els arbitrary: fr m d)
  case (Cons el els)
  have rest: "\<forall>el \<in> set els. \<forall>f mem d fresh out d'.
     post_process el = Some f \<longrightarrow> f mem d = (Some (fresh, out), d') \<longrightarrow> length out \<le> MAX_FILE"
    using Cons.prems(1) by simp
  show ?case
  proof (cases "post_process el")
    case None
    then show ?thesis using Cons.IH [OF rest Cons.prems(2)] Cons.prems(3) by simp
  next
    case (Some f)
    obtain r d1 where f: "f m d = (r, d1)" by fastforce
    with Some Cons.prems(3) obtain fr1 m1 where r: "r = Some (fr1, m1)"
      by (auto split: option.splits)
    have "length m1 \<le> MAX_FILE" using Cons.prems(1) [rule_format, of el f m d fr1 m1 d1] Some f r by simp
    moreover have "post_process_all els fr1 m1 d1 = (Some (True, out), d')"
      using Cons.prems(3) Some f r by (auto split: if_splits)
    ultimately show ?thesis using Cons.IH [OF rest] by blast
  qed
qed simp

lemma same_refl [simp]: "same_work s s" "same_mode s s"
  by (simp_all add: same_work_def same_mode_def)

lemma wp_pre_write:
  assumes "cfg_ok cfg"
  shows "wp (pre_write_to_testcase cfg mem)
    (\<lambda>_ s'. same_work s s' \<and> same_mode s s' \<and> (custom_mutators cfg = [] \<longrightarrow> s' = s\<lparr>testcase := mem\<rparr>)) s"
proof (cases "custom_mutators cfg = []")
  case True
  then show ?thesis by (auto simp: pre_write_to_testcase_def wp_simps same_work_def same_mode_def)
next
  case False
  obtain r d where pp: "post_process_all (custom_mutators cfg) False mem (custom_data s) = (r, d)"
    by fastforce
  show ?thesis
  proof (cases r)
    case None
    then show ?thesis using False pp by (auto simp: pre_write_to_testcase_def wp_simps same_work_def same_mode_def)
  next
    case (Some p)
    obtain fresh out where p: "p = (fresh, out)" by fastforce
    have "length out \<le> MAX_FILE" if fresh
      using post_process_all_small [of "custom_mutators cfg" False mem] assms pp Some p that
      by (auto simp: cfg_ok_def)
    moreover obtain sent d1 where "fuzz_send_all (custom_mutators cfg) out False d = (sent, d1)"
      by fastforce
    ultimately show ?thesis
      using False pp Some p by (auto simp: pre_write_to_testcase_def wp_simps same_work_def same_mode_def)
  qed
qed

lemma wp_run_target:
  "wp (run_target cfg) (\<lambda>res s'. \<exists>to trace. exec cfg (total_execs s) (custom_data s) (testcase s) = (res, to, trace) \<and>
     s' = s\<lparr>total_execs := total_execs s + 1, last_run_timed_out := to,
            tmin_trace := map trace [0..<length (tmin_trace s)]\<rparr>) s"
  by (simp add: run_target_def wp_simps split: prod.split)

lemmas miss_defs = miss_hang_def miss_crash_def miss_path_def

lemma wp_compare_cksum:
  assumes "fsrv_map_size cfg \<le> length (tmin_trace s)"
  shows "wp (compare_cksum cfg res False)
    (\<lambda>keep s'. same_work s s' \<and> same_mode s s' \<and> keep = (res \<noteq> FSRV_RUN_NOINST \<and>
       orig_cksum s = hash64 cfg (take (fsrv_map_size cfg) (tmin_trace s)))) s"
  using assms
  by (simp add: compare_cksum_def wp_simps mem_simps Let_def miss_defs same_work_def same_mode_def)

lemma wp_judge_run:
  assumes cfg: "cfg_ok cfg" and res: "res \<noteq> FSRV_RUN_ERROR"
    and maps: "tmin_map_size cfg \<le> length (tmin_trace s)" "fsrv_map_size cfg \<le> length (tmin_trace s)"
  shows "wp (judge_run cfg res False)
    (\<lambda>keep s'. same_work s s' \<and> same_mode s s' \<and> keep = verdict cfg s res (tmin_trace s)) s"
proof (cases "hang_mode cfg")
  case True
  then show ?thesis
    using res by (cases res)
      (simp_all add: judge_run_def wp_simps miss_defs verdict_def same_work_def same_mode_def Let_def)
next
  case False
  obtain t where t: "tmin_classify_counts cfg (tmin_trace s) = Inr t"
    "apply_mask cfg t = Inr (processed cfg (tmin_trace s))"
    using processed_ok(1) [OF cfg maps(1)] by blast
  have len: "length (processed cfg (tmin_trace s)) = length (tmin_trace s)"
    by (rule processed_ok(2) [OF cfg maps(1)])
  let ?s = "s\<lparr>tmin_trace := processed cfg (tmin_trace s)\<rparr>"
  have cmp: "wp (compare_cksum cfg r False)
      (\<lambda>keep s'. same_work s s' \<and> same_mode s s' \<and> keep = (r \<noteq> FSRV_RUN_NOINST \<and>
         orig_cksum s = hash64 cfg (take (fsrv_map_size cfg) (processed cfg (tmin_trace s))))) ?s" for r
    using wp_compare_cksum [of cfg ?s r] maps(2) len
    by (auto elim!: wp_mono simp: same_work_def same_mode_def)
  show ?thesis
    using False t res len
    by (auto simp: judge_run_def wp_simps miss_defs verdict_def Let_def same_work_def same_mode_def
        intro!: wp_mono [OF cmp])
qed

lemma wp_tmin_run_target:
  assumes cfg: "cfg_ok cfg" and len: "len \<le> length mem"
    and maps: "tmin_map_size cfg \<le> length (tmin_trace s)" "fsrv_map_size cfg \<le> length (tmin_trace s)"
  shows "wp (tmin_run_target cfg mem len False)
    (\<lambda>keep s'. same_work s s' \<and> same_mode s s' \<and>
       (custom_mutators cfg = [] \<longrightarrow> keep = accepts cfg s (take len mem))) s"
  (is "wp _ ?Q s")
proof -
  have judge: "wp (judge_run cfg res False) ?Q s2"
    if s1: "same_work s s1" "same_mode s s1" "custom_mutators cfg = [] \<longrightarrow> s1 = s\<lparr>testcase := take len mem\<rparr>"
      and run: "exec cfg (total_execs s1) (custom_data s1) (testcase s1) = (res, to, trace)"
      and s2: "s2 = s1\<lparr>total_execs := total_execs s1 + 1, last_run_timed_out := to,
                       tmin_trace := map trace [0..<length (tmin_trace s1)]\<rparr>"
      and res: "res \<noteq> FSRV_RUN_ERROR" for s1 s2 res to trace
  proof -
    have "tmin_map_size cfg \<le> length (tmin_trace s2)" "fsrv_map_size cfg \<le> length (tmin_trace s2)"
      using maps s1(2) s2 by (simp_all add: same_mode_def)
    note run_judge = wp_judge_run [OF cfg res this]
    have same: "same_work s s2" "same_mode s s2"
      using s1(1,2) unfolding s2 same_work_def same_mode_def by simp_all
    have acc: "verdict cfg s2 res (tmin_trace s2) = accepts cfg s (take len mem)"
      if "custom_mutators cfg = []"
      using run s1(3) that unfolding s2 by (simp add: accepts_def verdict_def)
    show ?thesis
      by (rule wp_mono [OF run_judge], elim conjE, intro conjI impI)
        (use same in \<open>simp_all add: same_work_def same_mode_def acc\<close>)
  qed
  have after: "wp (if res = FSRV_RUN_ERROR then chk (Inl Fatal)
            else bnd (gets total_execs) (\<lambda>n.
              if stop_soon cfg n then chk (Inl Fatal) else judge_run cfg res False)) ?Q s2"
    if "same_work s s1" "same_mode s s1" "custom_mutators cfg = [] \<longrightarrow> s1 = s\<lparr>testcase := take len mem\<rparr>"
      and "exec cfg (total_execs s1) (custom_data s1) (testcase s1) = (res, to, trace)"
      and "s2 = s1\<lparr>total_execs := total_execs s1 + 1, last_run_timed_out := to,
                    tmin_trace := map trace [0..<length (tmin_trace s1)]\<rparr>" for s1 s2 res to trace
    using judge [OF that] unfolding wp_if wp_bnd wp_gets wp_chk by simp
  show ?thesis
    unfolding tmin_run_target_def prefix_of_ok [OF len] wp_bnd wp_seq wp_chk sum.case
    by (rule wp_mono [OF wp_pre_write [OF cfg]], elim conjE, rule wp_mono [OF wp_run_target],
        elim exE conjE, rule after)
qed

section \<open>Weight of an input\<close>

lemma filter_delete_at: "length (filter P (delete_at d i n)) \<le> length (filter P d)"
proof -
  have "length (filter P (drop (i + n) d)) \<le> length (filter P (drop i d))"
  proof -
    have "drop i d = take n (drop i d) @ drop (i + n) d" by (metis add.commute append_take_drop_id drop_drop)
    then have "length (filter P (drop i d))
        = length (filter P (take n (drop i d))) + length (filter P (drop (i + n) d))"
      by (metis filter_append length_append)
    then show ?thesis by simp
  qed
  moreover have "length (filter P d) = length (filter P (take i d)) + length (filter P (drop i d))"
    by (metis append_take_drop_id filter_append length_append)
  ultimately show ?thesis by (simp add: delete_at_def)
qed

lemma weight_delete_at: "i < length d \<Longrightarrow> 0 < n \<Longrightarrow> weight (delete_at d i n) < weight d"
  using filter_delete_at [of "\<lambda>b. b \<noteq> 0x30" d i n] by (simp add: weight_def delete_at_def)

lemma weight_put_zero:
  assumes "i + n \<le> length d"
  shows "weight (put d i (replicate n 0x30)) \<le> weight d"
  using filter_delete_at [of "\<lambda>b. b \<noteq> 0x30" d i n] assms
  by (simp add: weight_def put_def delete_at_def)

lemma weight_map_le:
  "(\<And>b. f b = 0x30 \<or> f b = b) \<Longrightarrow> weight (map f d) \<le> weight d"
proof (induction d)
  case (Cons b d)
  then show ?case using Cons.prems [of b] by (force simp: weight_def)
qed (simp add: weight_def)

lemma weight_replace:
  assumes "b \<in> set d" and "b \<noteq> 0x30"
  shows "weight (map (\<lambda>x. if x = b then 0x30 else x) d) < weight d"
proof -
  let ?f = "\<lambda>x. if x = b then 0x30 else x"
  obtain xs ys where d: "d = xs @ b # ys" using assms(1) by (meson split_list)
  have "weight (map ?f xs) \<le> weight xs" "weight (map ?f ys) \<le> weight ys"
    by (rule weight_map_le; simp)+
  then show ?thesis using assms(2) unfolding d by (simp add: weight_def)
qed

lemma weight_update:
  assumes "i < length d" and "d ! i \<noteq> 0x30"
  shows "weight (d[i := 0x30]) < weight d"
proof -
  have d: "d = take i d @ d ! i # drop (Suc i) d" using assms(1) by (simp add: id_take_nth_drop)
  have "weight (take i d @ 0x30 # drop (Suc i) d) < weight (take i d @ d ! i # drop (Suc i) d)"
    using assms(2) by (simp add: weight_def)
  then show ?thesis using assms(1) d by (simp add: upd_conv_take_nth_drop)
qed

section \<open>Invariants of the minimization\<close>

lemma accepts_cong:
  assumes "reliable cfg" and "same_mode s0 s"
  shows "accepts cfg s mem = accepts cfg s0 mem"
proof -
  have "exec cfg (total_execs s) (custom_data s) mem = exec cfg (total_execs s0) (custom_data s0) mem"
    using assms(1) by (simp add: reliable_def)
  then show ?thesis using assms(2) by (simp add: accepts_def verdict_def same_mode_def)
qed

lemma length_input [simp]: "state_ok cfg s \<Longrightarrow> length (input s) = in_len s"
  by (simp add: input_def state_ok_def)

lemma reached_same_work:
  "reached cfg s0 s \<Longrightarrow> same_work s s' \<Longrightarrow> same_mode s s' \<Longrightarrow> reached cfg s0 s'"
  by (auto simp: reached_def state_ok_def same_work_def same_mode_def input_def)

lemma run_candidate:
  assumes "reached cfg s0 s" and "len \<le> length mem"
  shows "wp (tmin_run_target cfg mem len False)
    (\<lambda>keep s'. same_work s s' \<and> reached cfg s0 s' \<and>
       (reliable cfg \<longrightarrow> keep = accepts cfg s0 (take len mem))) s"
proof -
  have "cfg_ok cfg" "tmin_map_size cfg \<le> length (tmin_trace s)" "fsrv_map_size cfg \<le> length (tmin_trace s)"
    using assms(1) by (simp_all add: reached_def state_ok_def)
  note run = wp_tmin_run_target [OF this(1) assms(2) this(2,3)]
  have mode: "same_mode s0 s" using assms(1) by (simp add: reached_def)
  show ?thesis
  proof (rule wp_mono [OF run], elim conjE, intro conjI)
    fix keep s'
    assume s': "same_work s s'" "same_mode s s'"
      and keep: "custom_mutators cfg = [] \<longrightarrow> keep = accepts cfg s (take len mem)"
    show "reached cfg s0 s'" using assms(1) s' by (rule reached_same_work)
    show "reliable cfg \<longrightarrow> keep = accepts cfg s0 (take len mem)"
      using keep accepts_cong [OF _ mode] by (auto simp: reliable_def)
  qed
qed

text \<open>Replacing the input by a candidate that was kept.\<close>

lemma reached_update:
  assumes "reached cfg s0 s" and "reliable cfg \<longrightarrow> accepts cfg s0 (take n d)"
    and "n \<le> in_len s" and "length d = length (in_data s)"
    and "same_mode s s'" "in_data s' = d" "in_len s' = n" "tbuf s' = tbuf s"
  shows "reached cfg s0 s'"
  using assms by (auto simp: reached_def state_ok_def input_def same_mode_def)

lemma reachedD:
  assumes "reached cfg s0 s"
  shows "in_len s \<le> length (in_data s)" "in_len s \<le> length (tbuf s)" "in_len s < TMIN_MAX_FILE"
    "state_ok cfg s" "length (input s) = in_len s"
  using assms by (auto simp: reached_def state_ok_def input_def)

lemma reached_tbuf:
  "reached cfg s0 s \<Longrightarrow> length tmp = length (tbuf s) \<Longrightarrow> reached cfg s0 (s\<lparr>tbuf := tmp\<rparr>)"
  by (simp add: reached_def state_ok_def same_mode_def input_def)

lemma same_workD:
  "same_work s s' \<Longrightarrow> in_data s' = in_data s \<and> in_len s' = in_len s \<and> tbuf s' = tbuf s \<and> changed_any s' = changed_any s"
  by (simp add: same_work_def)

lemma same_work_input: "same_work s s' \<Longrightarrow> input s' = input s"
  by (simp add: same_work_def input_def)

lemma TMIN_MAX_FILE_small: "n < TMIN_MAX_FILE \<Longrightarrow> n < 2 ^ 31"
  by (simp add: TMIN_MAX_FILE_def)

lemma step_len_bound:
  assumes "n < TMIN_MAX_FILE"
  shows "unat (next_pow2 (of_nat (n div k))) mod 2 ^ 32 < 2 ^ 30"
proof (cases "n div k = 0")
  case True
  have "next_pow2 0 = 0" by code_simp
  then show ?thesis using True by simp
next
  case False
  have "n div k \<le> n" by simp
  also have "n < 2 ^ 24" using assms by (simp add: TMIN_MAX_FILE_def)
  finally have small: "n div k < 2 ^ 24" .
  then have "unat (of_nat (n div k) :: u64) = n div k"
    by (simp add: unat_of_nat)
  with False small obtain j where j: "next_pow2 (of_nat (n div k)) = 2 ^ j" "2 ^ j < 2 * (n div k)" "j \<le> 32"
    using next_pow2_exact [of "of_nat (n div k)"] by auto
  have "unat (2 ^ j :: u64) \<le> 2 ^ j"
    using unat_of_nat [of "2 ^ j", where 'a = 64] by simp
  moreover have "unat (next_pow2 (of_nat (n div k))) mod 2 ^ 32 \<le> unat (next_pow2 (of_nat (n div k)))"
    by (rule mod_less_eq_dividend)
  ultimately show ?thesis using j small by simp
qed

section \<open>Block normalization\<close>

lemma scan_zero_ok: "pos + n \<le> length mem \<Longrightarrow> \<exists>i. scan_zero mem pos n = Inr i"
proof (induction n arbitrary: pos)
  case (Suc n)
  have "pos + 1 + n \<le> length mem" using Suc.prems by simp
  from Suc.IH [OF this] obtain i where "scan_zero mem (pos + 1) n = Inr i" by blast
  with Suc.prems show ?case by (simp add: mem_simps)
qed simp

lemma take_copy:
  "n \<le> length src \<Longrightarrow> n \<le> length dst \<Longrightarrow> take n (put dst 0 (region src 0 n)) = take n src"
  by (simp add: put_def region_def)

lemma wp_norm_block:
  assumes r: "reached cfg s0 s" and pos: "set_pos < in_len s" and len: "0 < set_len" "set_len < 2 ^ 30"
  shows "wp (norm_block cfg set_len set_pos)
    (\<lambda>pos' s'. reached cfg s0 s' \<and> in_len s' = in_len s \<and> pos' = set_pos + set_len) s"
proof -
  define n where "n = min set_len (in_len s - set_pos)"
  note rd = reachedD [OF r]
  have fit: "set_pos + n \<le> in_len s" using pos by (simp add: n_def)
  have wrap: "u32_sub (in_len s) set_pos = in_len s - set_pos" "u32_add set_pos set_len = set_pos + set_len"
    using pos len TMIN_MAX_FILE_small [OF rd(3)] by (simp_all add: wrap_simps)
  obtain i where i: "scan_zero (in_data s) set_pos n = Inr i"
    using scan_zero_ok [of set_pos n "in_data s"] fit rd(1) by auto
  define tmp where "tmp = put (put (tbuf s) 0 (region (in_data s) 0 (in_len s))) set_pos (replicate n 0x30)"
  have copy: "memcpy (tbuf s) 0 (in_data s) 0 (in_len s) = Inr (put (tbuf s) 0 (region (in_data s) 0 (in_len s)))"
    using rd(1,2) by (simp add: mem_simps)
  have set: "memset (put (tbuf s) 0 (region (in_data s) 0 (in_len s))) set_pos 0x30 n = Inr tmp"
    using rd(1,2) fit by (simp add: mem_simps tmp_def)
  have ltmp: "length tmp = length (tbuf s)" using rd(1,2) fit by (simp add: tmp_def)
  have cand: "take (in_len s) tmp = take (in_len s) (put (in_data s) set_pos (replicate n 0x30))"
    using rd(1,2) fit take_copy [of "in_len s" "in_data s" "tbuf s"]
    by (simp only: tmp_def take_put length_replicate length_put length_region add_0)
  have set2: "memset (in_data s) set_pos 0x30 n = Inr (put (in_data s) set_pos (replicate n 0x30))"
    using rd(1) fit by (simp add: mem_simps)
  let ?s = "s\<lparr>tbuf := tmp\<rparr>"
  have after: "wp (if keep then
             bnd (gets in_data) (\<lambda>d.
             bnd (chk (memset d set_pos 0x30 n)) (\<lambda>d.
             modify (\<lambda>s. s\<lparr>in_data := d, alpha_d_total := u32_add (alpha_d_total s) n\<rparr>)))
           else skip) (\<lambda>_ s'. reached cfg s0 s' \<and> in_len s' = in_len s) s'"
    if s': "same_work ?s s'" "reached cfg s0 s'" "reliable cfg \<longrightarrow> keep = accepts cfg s0 (take (in_len s) tmp)" for keep s'
  proof (cases keep)
    case True
    have "reached cfg s0 (s'\<lparr>in_data := put (in_data s) set_pos (replicate n 0x30),
        alpha_d_total := u32_add (alpha_d_total s') n\<rparr>)"
      by (rule reached_update [OF s'(2)])
        (use s' True same_workD [OF s'(1)] cand rd(1) fit in \<open>auto simp: same_mode_def\<close>)
    then show ?thesis using True same_workD [OF s'(1)] set2 by (simp add: wp_simps)
  next
    case False
    then show ?thesis using s'(2) same_workD [OF s'(1)] by (simp add: wp_simps)
  qed
  have run: "wp (tmin_run_target cfg tmp (in_len s) False)
      (\<lambda>keep s'. same_work ?s s' \<and> reached cfg s0 s' \<and>
         (reliable cfg \<longrightarrow> keep = accepts cfg s0 (take (in_len s) tmp))) ?s"
    by (rule run_candidate) (use reached_tbuf [OF r ltmp] rd(2) ltmp in simp_all)
  have "wp (norm_block cfg set_len set_pos) (\<lambda>pos' s'. reached cfg s0 s' \<and> in_len s' = in_len s \<and> pos' = set_pos + set_len) s"
    if "i = n"
    using that r i unfolding norm_block_def wp_bnd wp_get wrap Let_def n_def [symmetric]
    by (simp add: wp_simps)
  moreover have "wp (norm_block cfg set_len set_pos) (\<lambda>pos' s'. reached cfg s0 s' \<and> in_len s' = in_len s \<and> pos' = set_pos + set_len) s"
    if "i \<noteq> n"
    using that i copy set unfolding norm_block_def wp_bnd wp_get wrap Let_def n_def [symmetric] wp_seq wp_chk wp_ret
    by (simp add: wp_bnd wp_chk wp_seq wp_modify)
      (rule wp_mono [OF run], elim conjE, rule wp_mono [OF after], simp_all)
  ultimately show ?thesis by blast
qed

lemma wp_block_normalization:
  assumes "reached cfg s0 s"
  shows "wp (block_normalization cfg) (\<lambda>_. reached cfg s0) s"
proof -
  define set_len where "set_len = unat (next_pow2 (of_nat (in_len s div TMIN_SET_STEPS))) mod 2 ^ 32"
  define l where "l = (if set_len < TMIN_SET_MIN_SIZE then TMIN_SET_MIN_SIZE else set_len)"
  have "set_len < 2 ^ 30"
    using step_len_bound [OF reachedD(3) [OF assms]] by (simp add: set_len_def)
  then have l: "0 < l" "l < 2 ^ 30" by (auto simp: l_def TMIN_SET_MIN_SIZE_def)
  have "wp (while_loop (\<lambda>set_pos s. set_pos < in_len s) (norm_block cfg l) 0) (\<lambda>_. reached cfg s0) s"
  proof (rule wp_while_loop [where I = "\<lambda>_. reached cfg s0" and V = "\<lambda>pos s. in_len s - pos"])
    fix pos s1 assume s1: "reached cfg s0 s1" "pos < in_len s1"
    show "wp (norm_block cfg l pos) (\<lambda>pos' s'. reached cfg s0 s' \<and> in_len s' - pos' < in_len s1 - pos) s1"
      by (rule wp_mono [OF wp_norm_block [OF s1 l]]) (use l s1 in auto)
  qed (use assms in auto)
  then show ?thesis
    unfolding block_normalization_def Let_def wp_bnd wp_gets set_len_def [symmetric] l_def [symmetric]
    by (simp add: wp_skip)
qed

section \<open>Block deletion\<close>

lemma tail_len_eq:
  assumes "pos < len" and "len < 2 ^ 31" and "n < 2 ^ 30"
  shows "(let tail = s32_of (u32_sub (u32_sub len pos) n) in if tail < 0 then 0 else nat tail) = len - pos - n"
proof -
  have "u32_sub len pos = len - pos" using assms by (simp add: wrap_simps)
  moreover have "s32_of (u32_sub (len - pos) n) = int (len - pos) - int n"
    using assms by (intro s32_of_sub) auto
  ultimately show ?thesis by (simp add: Let_def nat_diff_distrib)
qed

lemma stuck_step:
  assumes "stuck cfg s0 n pos s" and "n dvd pos"
    and "pos < in_len s \<Longrightarrow> \<not> accepts cfg s0 (delete_at (input s) pos n)"
  shows "stuck cfg s0 n (pos + n) s"
  unfolding stuck_def
proof (intro allI impI)
  fix i assume i: "i < pos + n" "n dvd i" "i < in_len s"
  show "\<not> accepts cfg s0 (delete_at (input s) i n)"
  proof (cases "i < pos")
    case True
    then show ?thesis using assms(1) i by (simp add: stuck_def)
  next
    case False
    then have "n dvd i - pos" "i - pos < n" using i assms(2) by auto
    then have "i = pos" using False by (auto dest: dvd_imp_le)
    then show ?thesis using assms(3) i by simp
  qed
qed

text \<open>Removing a block or its equal predecessor gives the same bytes: the step that is skipped.\<close>

lemma delete_at_same:
  assumes "n \<le> i" and "i + n \<le> length d" and "region d (i - n) n = region d i n"
  shows "delete_at d (i - n) n = delete_at d i n"
proof -
  have "take i d = take (i - n) d @ region d (i - n) n"
    using assms(1) by (metis le_add_diff_inverse2 region_def take_add)
  moreover have "drop i d = region d i n @ drop (i + n) d"
    by (metis add.commute append_take_drop_id drop_drop region_def)
  ultimately show ?thesis using assms(1,3) by (simp add: delete_at_def)
qed

lemma del_candidate:
  assumes "pos < len" and "len \<le> length src" and "len \<le> length dst" and "tail = len - pos - n"
    and "tmp = (if tail = 0 then put dst 0 (region src 0 pos)
                else put (put dst 0 (region src 0 pos)) pos (region src (pos + n) tail))"
  shows "length tmp = length dst" and "take (pos + tail) tmp = delete_at (take len src) pos n"
proof -
  show "length tmp = length dst" using assms by auto
  show "take (pos + tail) tmp = delete_at (take len src) pos n"
  proof (cases "tail = 0")
    case True
    then show ?thesis using assms by (simp add: take_copy delete_at_def)
  next
    case False
    then have "take (pos + tail) tmp = take pos src @ region src (pos + n) tail"
      using assms by (simp add: put_def region_def) (metis add.commute)
    then show ?thesis using assms False by (simp add: delete_at_def region_def drop_take)
  qed
qed

text \<open>The three outcomes of a round: the block is skipped, cannot be removed, or is removed.\<close>

lemma del_inv_skip:
  assumes inv: "del_inv cfg s0 d f n (pos, False) s" and pos: "pos + n \<le> in_len s" and n: "0 < n"
    and same: "region (in_data s) (pos - n) n = region (in_data s) pos n"
  shows "del_inv cfg s0 d f n (pos + n, False) s"
proof -
  have le: "n \<le> pos" and dvd: "n dvd pos" and r: "reached cfg s0 s"
    using inv by (auto simp: del_inv_def progress_def)
  have in_region: "region (input s) k n = region (in_data s) k n" if "k + n \<le> in_len s" for k
    unfolding input_def by (rule region_take) (rule that)
  have "delete_at (input s) (pos - n) n = delete_at (input s) pos n"
    using same le pos by (intro delete_at_same) (simp_all add: in_region reachedD(5) [OF r])
  moreover have "\<not> accepts cfg s0 (delete_at (input s) (pos - n) n)" if "stuck cfg s0 n pos s"
    using that le n dvd pos by (auto simp: stuck_def)
  ultimately have "stuck cfg s0 n (pos + n) s" if "stuck cfg s0 n pos s"
    using that dvd by (intro stuck_step) auto
  then show ?thesis using inv by (auto simp: del_inv_def)
qed

lemma del_inv_fail:
  assumes inv: "del_inv cfg s0 d f n (pos, p) s" and s': "same_work (s\<lparr>tbuf := tmp\<rparr>) s'" "reached cfg s0 s'"
    and rej: "reliable cfg \<longrightarrow> \<not> accepts cfg s0 (delete_at (input s) pos n)"
  shows "del_inv cfg s0 d f n (pos + n, False) s'"
proof -
  have eq: "input s' = input s" "in_len s' = in_len s" "changed_any s' = changed_any s"
    using same_workD [OF s'(1)] by (simp_all add: input_def)
  have "stuck cfg s0 n (pos + n) s" if "reliable cfg" "stuck cfg s0 n pos s"
    using that rej inv by (intro stuck_step) (auto simp: del_inv_def)
  then have "reliable cfg \<and> \<not> changed_any s' \<longrightarrow> stuck cfg s0 n (pos + n) s'"
    using inv unfolding del_inv_def prod.case stuck_def eq by blast
  moreover have "progress cfg s0 d f s'"
    using inv s'(2) unfolding del_inv_def prod.case progress_def eq by simp
  ultimately show ?thesis using inv by (simp add: del_inv_def)
qed

lemma del_inv_keep:
  assumes inv: "del_inv cfg s0 d f n (pos, p) s" and s': "same_work (s\<lparr>tbuf := tmp\<rparr>) s'" "reached cfg s0 s'"
    and acc: "reliable cfg \<longrightarrow> accepts cfg s0 (delete_at (input s) pos n)"
    and new: "take k new = delete_at (input s) pos n" "length new = length (in_data s)" "k \<le> in_len s"
    and pos: "pos < in_len s" "0 < n"
  shows "del_inv cfg s0 d f n (pos, True) (s'\<lparr>in_data := new, in_len := k, changed_any := True\<rparr>)"
proof -
  have eq: "in_data s' = in_data s" "in_len s' = in_len s" using same_workD [OF s'(1)] by simp_all
  have prog: "progress cfg s0 d f s" and dvd: "n dvd pos" using inv by (auto simp: del_inv_def)
  have "reached cfg s0 (s'\<lparr>in_data := new, in_len := k, changed_any := True\<rparr>)"
    by (rule reached_update [OF s'(2)]) (use acc new eq in \<open>auto simp: same_mode_def\<close>)
  moreover have "weight (delete_at (input s) pos n) < weight d"
    using weight_delete_at [of pos "input s" n] prog pos reachedD(5) [of cfg s0 s]
    by (auto simp: progress_def split: if_splits)
  ultimately show ?thesis
    using dvd new(1) by (simp add: del_inv_def progress_def input_def)
qed

lemma wp_del_finish:
  assumes inv: "del_inv cfg s0 d f n (pos, p) s" and pos: "pos < in_len s" "0 < n" "u32_add pos n = pos + n"
    and k: "k < in_len s" "length tmp = length (tbuf s)" "take k tmp = delete_at (input s) pos n"
    and s': "same_work (s\<lparr>tbuf := tmp\<rparr>) s'" "reached cfg s0 s'"
      "reliable cfg \<longrightarrow> keep = accepts cfg s0 (delete_at (input s) pos n)"
  shows "wp (del_finish n pos k keep)
    (\<lambda>x s'. del_inv cfg s0 d f n x s' \<and> in_len s' - fst x < in_len s - pos) s'"
proof -
  have eq: "in_data s' = in_data s" "tbuf s' = tmp" "in_len s' = in_len s"
    using same_workD [OF s'(1)] by simp_all
  have r: "reached cfg s0 s" using inv by (simp add: del_inv_def progress_def)
  note rd = reachedD [OF r]
  show ?thesis
  proof (cases keep)
    case False
    have "reliable cfg \<longrightarrow> \<not> accepts cfg s0 (delete_at (input s) pos n)" using s'(3) False by simp
    from del_inv_fail [OF inv s'(1,2) this] show ?thesis
      using False eq pos by (simp add: del_finish_def wp_simps)
  next
    case True
    define new where "new = put (in_data s) 0 (region tmp 0 k)"
    have cp: "memcpy (in_data s) 0 tmp 0 k = Inr new"
      using k rd(1,2) by (simp add: mem_simps new_def)
    have new: "take k new = delete_at (input s) pos n" "length new = length (in_data s)" "k \<le> in_len s"
      using k rd(1,2) unfolding new_def by (simp_all add: take_copy)
    have "reliable cfg \<longrightarrow> accepts cfg s0 (delete_at (input s) pos n)" using s'(3) True by simp
    from del_inv_keep [OF inv s'(1,2) this new pos(1,2)] show ?thesis
      using True eq cp k pos by (simp add: del_finish_def wp_simps)
  qed
qed

lemma wp_del_step:
  assumes inv: "del_inv cfg s0 d f n (pos, prev_del) s" and pos: "pos < in_len s"
    and n: "0 < n" "n < 2 ^ 30"
  shows "wp (del_step cfg n (pos, prev_del))
    (\<lambda>x s'. del_inv cfg s0 d f n x s' \<and> in_len s' - fst x < in_len s - pos) s"
  (is "wp _ ?Q s")
proof -
  have r: "reached cfg s0 s" and prev: "\<not> prev_del \<longrightarrow> n \<le> pos"
    using inv by (auto simp: del_inv_def progress_def)
  note rd = reachedD [OF r]
  define tail where "tail = in_len s - pos - n"
  note tl = tail_len_eq [OF pos TMIN_MAX_FILE_small [OF rd(3)] n(2), folded tail_def, unfolded Let_def]
  have wrap: "u32_add pos n = pos + n"
    using pos n TMIN_MAX_FILE_small [OF rd(3)] by (simp add: wrap_simps)
  define tmp1 where "tmp1 = put (tbuf s) 0 (region (in_data s) 0 pos)"
  define tmp where "tmp = (if tail = 0 then tmp1 else put tmp1 pos (region (in_data s) (pos + n) tail))"
  have copy: "memcpy (tbuf s) 0 (in_data s) 0 pos = Inr tmp1"
    "(if tail = 0 then Inr tmp1 else memcpy tmp1 pos (in_data s) (pos + n) tail) = Inr tmp"
    using rd(1,2) pos by (simp_all add: mem_simps tmp_def tmp1_def tail_def)
  note cand = del_candidate [OF pos rd(1,2) tail_def tmp_def [unfolded tmp1_def]]
  have short: "pos + tail < in_len s" using pos n by (simp add: tail_def)
  have run: "wp (tmin_run_target cfg tmp (pos + tail) False)
      (\<lambda>keep s'. same_work (s\<lparr>tbuf := tmp\<rparr>) s' \<and> reached cfg s0 s' \<and>
         (reliable cfg \<longrightarrow> keep = accepts cfg s0 (delete_at (input s) pos n))) (s\<lparr>tbuf := tmp\<rparr>)"
    unfolding cand(2) [folded input_def, symmetric]
    by (rule run_candidate) (use reached_tbuf [OF r cand(1)] short rd(2) cand(1) in simp_all)
  have run_it: "wp (tmin_run_target cfg tmp (pos + tail) False)
      (\<lambda>keep. wp (del_finish n pos (pos + tail) keep) ?Q) (s\<lparr>tbuf := tmp\<rparr>)"
    by (rule wp_mono [OF run], elim conjE,
        rule wp_del_finish [OF inv pos n(1) wrap short cand(1) cand(2) [folded input_def]])
  show ?thesis
  proof (cases "\<not> prev_del \<and> tail \<noteq> 0")
    case True
    then have le: "n \<le> pos" "pos + n \<le> in_len s" using prev by (auto simp: tail_def)
    then have "memeq (in_data s) (pos - n) (in_data s) pos n
        = Inr (region (in_data s) (pos - n) n = region (in_data s) pos n)"
      using rd(1) by (simp add: mem_simps)
    moreover have "?Q (pos + n, prev_del) s" if "region (in_data s) (pos - n) n = region (in_data s) pos n"
      using del_inv_skip [OF _ le(2) n(1) that, of cfg s0 d f] inv True pos n by simp
    ultimately show ?thesis
      using True le run_it copy wrap
      unfolding del_step_def prod.case wp_bnd wp_get Let_def tl
      by (simp add: wp_bnd wp_chk wp_seq wp_modify wp_ret)
  next
    case False
    then show ?thesis
      using run_it copy
      unfolding del_step_def prod.case wp_bnd wp_get Let_def tl
      by (auto simp: wp_bnd wp_chk wp_seq wp_modify wp_ret)
  qed
qed

text \<open>After a block size: unless something was removed, no block of that size can be removed.\<close>

lemma wp_del_blksize:
  assumes "progress cfg s0 d f s" and "n < 2 ^ 30"
  shows "wp (del_blksize cfg (n, go))
    (\<lambda>(n', again) s'. progress cfg s0 d f s' \<and> n' < 2 ^ 30 \<and>
       (if again then n' < n
        else reliable cfg \<longrightarrow> del_len_limit cfg = 1 \<longrightarrow> \<not> changed_any s' \<longrightarrow> stuck cfg s0 1 (in_len s') s')) s"
proof -
  define l where "l = (if n = 0 then 1 else n)"
  have l: "0 < l" "l < 2 ^ 30" using assms(2) by (auto simp: l_def)
  have loop: "wp (while_loop (\<lambda>(pos, _) s. pos < in_len s) (del_step cfg l) (0, True))
      (\<lambda>x s'. del_inv cfg s0 d f l x s' \<and> \<not> fst x < in_len s') s"
  proof (rule wp_while_loop [where I = "del_inv cfg s0 d f l" and V = "\<lambda>x s. in_len s - fst x"])
    show "del_inv cfg s0 d f l (0, True) s"
      using assms(1) by (simp add: del_inv_def stuck_def)
  next
    fix x s1
    assume x: "del_inv cfg s0 d f l x s1" "(case x of (pos, _) \<Rightarrow> \<lambda>s. pos < in_len s) s1"
    show "wp (del_step cfg l x) (\<lambda>x' s'. del_inv cfg s0 d f l x' s' \<and> in_len s' - fst x' < in_len s1 - fst x) s1"
      using wp_del_step [of cfg s0 d f l "fst x" "snd x" s1] x l by (simp add: split_beta)
  qed (auto simp: split_beta)
  have post: "progress cfg s0 d f s' \<and>
      (reliable cfg \<longrightarrow> l = 1 \<or> in_len s' = 0 \<longrightarrow> \<not> changed_any s' \<longrightarrow> stuck cfg s0 1 (in_len s') s')"
    if "del_inv cfg s0 d f l x s'" "\<not> fst x < in_len s'" for x s'
    using that by (auto simp: del_inv_def stuck_def split_beta)
  have half: "l div 2 < n" if "del_len_limit cfg < l"
    using that assms(1) by (auto simp: l_def progress_def reached_def cfg_ok_def split: if_splits)
  show ?thesis
    unfolding del_blksize_def prod.case Let_def wp_bnd l_def [symmetric]
    by (rule wp_mono [OF loop]) (use post l half in \<open>auto simp: wp_simps Suc_le_eq\<close>)
qed

lemma wp_block_deletion:
  assumes "progress cfg s0 d f s"
  shows "wp (block_deletion cfg)
    (\<lambda>_ s'. progress cfg s0 d f s' \<and>
       (reliable cfg \<longrightarrow> del_len_limit cfg = 1 \<longrightarrow> \<not> changed_any s' \<longrightarrow> stuck cfg s0 1 (in_len s') s')) s"
  (is "wp _ (\<lambda>_. ?Q) s")
proof -
  let ?n = "unat (next_pow2 (of_nat (in_len s div TRIM_START_STEPS))) mod 2 ^ 32"
  have n: "?n < 2 ^ 30" using step_len_bound [of "in_len s" TRIM_START_STEPS] reachedD(3) [of cfg s0 s] assms
    by (simp add: progress_def)
  have "wp (while_loop (\<lambda>(_, again) _. again) (del_blksize cfg) (?n, True)) (\<lambda>_. ?Q) s"
  proof (rule wp_while_loop [where I = "\<lambda>(n, again) s'. progress cfg s0 d f s' \<and> n < 2 ^ 30 \<and> (\<not> again \<longrightarrow> ?Q s')"
        and V = "\<lambda>(n, again) s'. if again then Suc n else 0"])
    show "(case (?n, True) of (n, again) \<Rightarrow> \<lambda>s'. progress cfg s0 d f s' \<and> n < 2 ^ 30 \<and> (\<not> again \<longrightarrow> ?Q s')) s"
      using assms n by simp
  next
    fix x :: "nat \<times> bool" and s1
    assume "(case x of (n, again) \<Rightarrow> \<lambda>s'. progress cfg s0 d f s' \<and> n < 2 ^ 30 \<and> (\<not> again \<longrightarrow> ?Q s')) s1"
      and "(case x of (_, again) \<Rightarrow> \<lambda>_. again) s1"
    then obtain m where x: "x = (m, True)" and m: "progress cfg s0 d f s1" "m < 2 ^ 30" by (cases x) auto
    show "wp (del_blksize cfg x) (\<lambda>x' s'. (case x' of (n, again) \<Rightarrow> \<lambda>s'. progress cfg s0 d f s' \<and> n < 2 ^ 30 \<and> (\<not> again \<longrightarrow> ?Q s')) s' \<and>
        (case x' of (n, again) \<Rightarrow> \<lambda>s'. if again then Suc n else 0) s' < (case x of (n, again) \<Rightarrow> \<lambda>s'. if again then Suc n else 0) s1) s1"
      unfolding x by (rule wp_mono [OF wp_del_blksize [OF m]]) (auto split: if_splits)
  qed (auto simp: split_beta)
  then show ?thesis
    unfolding block_deletion_def Let_def wp_bnd wp_gets wp_skip .
qed

section \<open>Alphabet and character minimization\<close>

lemma alpha_count_ok:
  "k + n \<le> length mem \<Longrightarrow> length m = 256 \<Longrightarrow>
   \<exists>m'. alpha_count n k mem m = Inr m' \<and> length m' = 256 \<and>
     (\<forall>c < 256. m' ! c \<noteq> 0 \<longrightarrow> m ! c \<noteq> 0 \<or> (\<exists>b \<in> set (region mem k n). unat b = c))"
proof (induction n arbitrary: k m)
  case (Suc n)
  let ?m = "m[unat (mem ! k) := u32_add (m ! unat (mem ! k)) 1]"
  obtain m' where m': "alpha_count n (Suc k) mem ?m = Inr m'" "length m' = 256"
    "\<forall>c < 256. m' ! c \<noteq> 0 \<longrightarrow> ?m ! c \<noteq> 0 \<or> (\<exists>b \<in> set (region mem (Suc k) n). unat b = c)"
    using Suc.IH [of "Suc k" ?m] Suc.prems by auto
  have "region mem k (Suc n) = mem ! k # region mem (Suc k) n"
    using Suc.prems by (simp add: region_def flip: Cons_nth_drop_Suc)
  moreover have "?m ! c = m ! c \<or> unat (mem ! k) = c" for c
    by (cases "unat (mem ! k) = c") simp_all
  ultimately have "\<forall>c < 256. m' ! c \<noteq> 0 \<longrightarrow> m ! c \<noteq> 0 \<or> (\<exists>b \<in> set (region mem k (Suc n)). unat b = c)"
    using m'(3) by (metis list.set_intros)
  then show ?case using m' Suc.prems by (simp add: mem_simps)
qed simp

lemma replace_sym_ok:
  "r + n \<le> length mem \<Longrightarrow>
   replace_sym n r c mem = Inr (put mem r (map (\<lambda>b. if unat b = c then 0x30 else b) (region mem r n)))"
proof (induction n arbitrary: r mem)
  case 0
  then show ?case by (simp add: put_def region_def)
next
  case (Suc n)
  let ?g = "\<lambda>b :: u8. if unat b = c then 0x30 else b"
  let ?mem = "mem[r := ?g (mem ! r)]"
  have step: "replace_sym (Suc n) r c mem = replace_sym n (Suc r) c ?mem"
    using Suc.prems by (simp add: mem_simps)
  have "region mem r (Suc n) = mem ! r # region mem (Suc r) n"
    using Suc.prems by (simp add: region_def flip: Cons_nth_drop_Suc)
  moreover have "region ?mem (Suc r) n = region mem (Suc r) n"
    by (simp add: region_def)
  moreover have "put ?mem (Suc r) bs = put mem r (?g (mem ! r) # bs)" for bs
    using Suc.prems by (simp add: put_def take_Suc_conv_app_nth)
  ultimately show ?case
    using Suc.IH [of "Suc r" ?mem] Suc.prems unfolding step by simp
qed

text \<open>A kept candidate of the same length replaces the input.\<close>

lemma progress_kept:
  assumes "progress cfg s0 d f s" and "same_work (s\<lparr>tbuf := tmp\<rparr>) s'" and "reached cfg s0 s'"
    and "reliable cfg \<longrightarrow> accepts cfg s0 (take (in_len s) new)"
    and "length new = length (in_data s)" and "weight (take (in_len s) new) < weight (input s)"
  shows "progress cfg s0 d f (s'\<lparr>in_data := new, changed_any := True, alpha_d_total := x\<rparr>)"
proof -
  have eq: "in_data s' = in_data s" "in_len s' = in_len s" using same_workD [OF assms(2)] by simp_all
  have "reached cfg s0 (s'\<lparr>in_data := new, changed_any := True, alpha_d_total := x\<rparr>)"
    by (rule reached_update [OF assms(3)]) (use assms(4,5) eq in \<open>auto simp: same_mode_def\<close>)
  moreover have "weight (take (in_len s) new) < weight d"
    using assms(1,6) by (auto simp: progress_def split: if_splits)
  ultimately show ?thesis by (simp add: progress_def input_def eq)
qed

lemma progress_failed:
  assumes "progress cfg s0 d f s" and "same_work (s\<lparr>tbuf := tmp\<rparr>) s'" and "reached cfg s0 s'"
  shows "progress cfg s0 d f s'"
  using assms same_workD [OF assms(2)] by (auto simp: progress_def input_def split: if_splits)

lemma progress_tbuf:
  "progress cfg s0 d f s \<Longrightarrow> length tmp = length (tbuf s) \<Longrightarrow> progress cfg s0 d f (s\<lparr>tbuf := tmp\<rparr>)"
  by (auto simp: progress_def input_def reached_tbuf split: if_splits)

lemma byte_of_nat: "c < 256 \<Longrightarrow> (unat (b :: u8) = c) = (b = of_nat c)"
  by (auto simp: unat_of_nat)

lemma byte_of_nat_inj: "c < 256 \<Longrightarrow> i < 256 \<Longrightarrow> (of_nat c :: u8) = of_nat i \<longleftrightarrow> c = i"
proof
  have unat: "unat (of_nat k :: u8) = k" if "k < 256" for k using that by (simp add: unat_of_nat)
  assume "c < 256" "i < 256" "(of_nat c :: u8) = of_nat i"
  then show "c = i" using unat [of c] unat [of i] by metis
qed simp

lemma wp_alpha_sym:
  assumes prog: "progress cfg s0 d f s" and i: "i < 256"
    and present: "m ! i \<noteq> 0 \<longrightarrow> i \<noteq> 0x30 \<longrightarrow> of_nat i \<in> set (input s)"
  shows "wp (alpha_sym cfg m i)
    (\<lambda>_ s'. progress cfg s0 d f s' \<and> (\<forall>b \<in> set (input s). b \<noteq> of_nat i \<longrightarrow> b \<in> set (input s'))) s"
  (is "wp _ (\<lambda>_. ?Q) s")
proof (cases "i = 0x30 \<or> m ! i = 0")
  case True
  then show ?thesis using prog by (simp add: alpha_sym_def wp_simps)
next
  case False
  let ?g = "\<lambda>b. if unat b = i then 0x30 else b"
  have r: "reached cfg s0 s" using prog by (simp add: progress_def)
  note rd = reachedD [OF r]
  define tmp1 where "tmp1 = put (tbuf s) 0 (region (in_data s) 0 (in_len s))"
  define tmp where "tmp = put tmp1 0 (map ?g (region tmp1 0 (in_len s)))"
  have copy: "memcpy (tbuf s) 0 (in_data s) 0 (in_len s) = Inr tmp1"
    using rd(1,2) by (simp add: mem_simps tmp1_def)
  have l1: "length tmp1 = length (tbuf s)" using rd(1,2) by (simp add: tmp1_def)
  have repl: "replace_sym (in_len s) 0 i tmp1 = Inr tmp"
    using replace_sym_ok [of 0 "in_len s" tmp1 i] rd(2) l1 by (simp add: tmp_def)
  have ltmp: "length tmp = length (tbuf s)" using rd(2) l1 by (simp add: tmp_def)
  have "take (in_len s) tmp1 = input s"
    unfolding tmp1_def input_def using rd(1,2) by (rule take_copy)
  then have cand: "take (in_len s) tmp = map ?g (input s)"
    using rd(2,5) l1 by (simp add: tmp_def put_def region_def)
  have eqf: "map ?g (input s) = map (\<lambda>x. if x = of_nat i then 0x30 else x) (input s)"
    using byte_of_nat [OF i] by simp
  have "(of_nat i :: u8) \<noteq> 0x30"
    using byte_of_nat [OF i, of "0x30"] False by auto
  then have less: "weight (map ?g (input s)) < weight (input s)"
    unfolding eqf using present False by (intro weight_replace) auto
  have keep: "\<forall>b \<in> set (input s). b \<noteq> of_nat i \<longrightarrow> b \<in> set (map ?g (input s))"
    unfolding eqf by force
  let ?s = "s\<lparr>tbuf := tmp\<rparr>"
  have run: "wp (tmin_run_target cfg tmp (in_len s) False)
      (\<lambda>k s'. same_work ?s s' \<and> reached cfg s0 s' \<and>
         (reliable cfg \<longrightarrow> k = accepts cfg s0 (map ?g (input s)))) ?s"
    unfolding cand [symmetric]
    by (rule run_candidate) (use reached_tbuf [OF r ltmp] rd(2) ltmp in simp_all)
  have after: "wp (if k then
           bnd get (\<lambda>s.
           bnd (chk (memcpy (in_data s) 0 (tbuf s) 0 (in_len s))) (\<lambda>d.
           modify (\<lambda>s. s\<lparr>in_data := d, changed_any := True,
                         alpha_d_total := u32_add (alpha_d_total s) (m ! i)\<rparr>)))
         else skip) (\<lambda>_. ?Q) s'"
    if s': "same_work ?s s'" "reached cfg s0 s'"
      "reliable cfg \<longrightarrow> k = accepts cfg s0 (map ?g (input s))" for k s'
  proof (cases k)
    case True
    define new where "new = put (in_data s) 0 (region tmp 0 (in_len s))"
    have eq: "in_data s' = in_data s" "in_len s' = in_len s" "tbuf s' = tmp"
      using same_workD [OF s'(1)] by simp_all
    have cp: "memcpy (in_data s) 0 tmp 0 (in_len s) = Inr new"
      using rd(1,2) ltmp by (simp add: mem_simps new_def)
    have new: "take (in_len s) new = map ?g (input s)" "length new = length (in_data s)"
      using rd(1,2) ltmp cand take_copy [of "in_len s" tmp "in_data s"] by (simp_all add: new_def)
    have "progress cfg s0 d f (s'\<lparr>in_data := new, changed_any := True,
        alpha_d_total := u32_add (alpha_d_total s') (m ! i)\<rparr>)"
      by (rule progress_kept [OF prog s'(1,2)]) (use new less s'(3) True in auto)
    moreover have "input (s'\<lparr>in_data := new, changed_any := True,
        alpha_d_total := u32_add (alpha_d_total s') (m ! i)\<rparr>) = map ?g (input s)"
      using new(1) eq by (simp add: input_def)
    ultimately show ?thesis using True eq cp keep by (simp add: wp_simps)
  next
    case False
    then show ?thesis
      using progress_failed [OF prog s'(1,2)] same_workD [OF s'(1)] by (simp add: wp_simps input_def)
  qed
  show ?thesis
    using False copy repl
    unfolding alpha_sym_def
    by (simp add: wp_bnd wp_get wp_chk wp_seq wp_modify)
      (rule wp_mono [OF run], elim conjE, rule wp_mono [OF after], simp_all)
qed


lemma wp_alphabet_minimization:
  assumes "progress cfg s0 d f s"
  shows "wp (alphabet_minimization cfg) (\<lambda>_. progress cfg s0 d f) s"
proof -
  have r: "reached cfg s0 s" using assms by (simp add: progress_def)
  define z where "z = replicate 256 (0 :: nat)"
  define idx where "idx = [0..<256]"
  have z: "length z = 256" "\<And>c. c < 256 \<Longrightarrow> z ! c = 0"
    unfolding z_def by (rule length_replicate) (rule nth_replicate)
  have idx: "distinct idx" "set idx = {..<256}" unfolding idx_def by (rule distinct_upt) auto
  obtain m where m: "alpha_count (in_len s) 0 (in_data s) z = Inr m"
    "\<forall>c < 256. m ! c \<noteq> 0 \<longrightarrow> (\<exists>b \<in> set (input s). unat b = c)"
    using alpha_count_ok [of 0 "in_len s" "in_data s" z] reachedD(1) [OF r] z
    by (auto simp: region_def input_def)
  have present: "m ! c \<noteq> 0 \<longrightarrow> of_nat c \<in> set (input s)" if "c < 256" for c
    using m(2) that byte_of_nat [OF that] by auto
  have "wp (for_each idx (alpha_sym cfg m)) (\<lambda>_. progress cfg s0 d f) s"
  proof (rule wp_for_each [where I = "\<lambda>is s. progress cfg s0 d f s \<and> distinct is \<and> set is \<subseteq> {..<256} \<and>
        (\<forall>c \<in> set is. m ! c \<noteq> 0 \<longrightarrow> c \<noteq> 0x30 \<longrightarrow> of_nat c \<in> set (input s))"])
    show "progress cfg s0 d f s \<and> distinct idx \<and> set idx \<subseteq> {..<256} \<and>
        (\<forall>c \<in> set idx. m ! c \<noteq> 0 \<longrightarrow> c \<noteq> 0x30 \<longrightarrow> of_nat c \<in> set (input s))"
      using assms present idx by auto
  next
    fix i "is" and s1 :: "'a tmin"
    assume I: "progress cfg s0 d f s1 \<and> distinct (i # is) \<and> set (i # is) \<subseteq> {..<256} \<and>
        (\<forall>c \<in> set (i # is). m ! c \<noteq> 0 \<longrightarrow> c \<noteq> 0x30 \<longrightarrow> of_nat c \<in> set (input s1))"
    have other: "(of_nat c :: u8) \<noteq> of_nat i" if "c \<in> set is" for c
      using that I by (subst byte_of_nat_inj) auto
    show "wp (alpha_sym cfg m i) (\<lambda>_ s. progress cfg s0 d f s \<and> distinct is \<and> set is \<subseteq> {..<256} \<and>
        (\<forall>c \<in> set is. m ! c \<noteq> 0 \<longrightarrow> c \<noteq> 0x30 \<longrightarrow> of_nat c \<in> set (input s))) s1"
      by (rule wp_mono [OF wp_alpha_sym [of cfg s0 d f s1 i m]]) (use I other in auto)
  qed simp
  then show ?thesis
    unfolding alphabet_minimization_def wp_bnd wp_get wp_chk z_def [symmetric] idx_def [symmetric] m(1) sum.case .
qed

lemma wp_char_pos:
  assumes prog: "progress cfg s0 d f s" and i: "i < in_len s" and tmp: "take (in_len s) (tbuf s) = input s"
  shows "wp (char_pos cfg i)
    (\<lambda>_ s'. progress cfg s0 d f s' \<and> take (in_len s') (tbuf s') = input s' \<and> in_len s' = in_len s) s"
  (is "wp _ (\<lambda>_. ?Q) s")
proof -
  have r: "reached cfg s0 s" using prog by (simp add: progress_def)
  note rd = reachedD [OF r]
  have orig: "tbuf s ! i = input s ! i" using i by (simp flip: tmp)
  let ?tmp = "(tbuf s)[i := 0x30]" and ?s = "s\<lparr>tbuf := (tbuf s)[i := 0x30]\<rparr>"
  have cand: "take (in_len s) ?tmp = (input s)[i := 0x30]"
    by (simp add: take_update_swap tmp)
  have run: "wp (tmin_run_target cfg ?tmp (in_len s) False)
      (\<lambda>k s'. same_work ?s s' \<and> reached cfg s0 s' \<and>
         (reliable cfg \<longrightarrow> k = accepts cfg s0 ((input s)[i := 0x30]))) ?s"
    unfolding cand [symmetric]
    by (rule run_candidate) (use reached_tbuf [OF r, of ?tmp] rd(2) in simp_all)
  have after: "wp (bnd get (\<lambda>s.
        if k then
          bnd (chk (store (in_data s) i 0x30)) (\<lambda>d.
          modify (\<lambda>s. s\<lparr>in_data := d, changed_any := True, alpha_d_total := u32_add (alpha_d_total s) 1\<rparr>))
        else
          bnd (chk (store (tbuf s) i (input (s0' :: 'a tmin) ! i))) (\<lambda>tmp. modify (\<lambda>s. s\<lparr>tbuf := tmp\<rparr>)))) (\<lambda>_. ?Q) s'"
    if s': "same_work ?s s'" "reached cfg s0 s'"
      "reliable cfg \<longrightarrow> k = accepts cfg s0 ((input s)[i := 0x30])" and nz: "input s ! i \<noteq> 0x30"
      and s0': "s0' = s" for k s' s0'
  proof -
    have undo: "?tmp[i := input s ! i] = tbuf s" by (simp flip: orig)
    have eq: "in_data s' = in_data s" "in_len s' = in_len s" "tbuf s' = ?tmp"
      using same_workD [OF s'(1)] by simp_all
    show ?thesis
    proof (cases k)
      case True
      let ?new = "(in_data s)[i := 0x30]"
      have new: "take (in_len s) ?new = (input s)[i := 0x30]" by (simp add: take_update_swap input_def)
      have "progress cfg s0 d f (s'\<lparr>in_data := ?new, changed_any := True,
          alpha_d_total := u32_add (alpha_d_total s') 1\<rparr>)"
        by (rule progress_kept [OF prog s'(1,2)])
          (use new s'(3) True weight_update [of i "input s"] i rd(5) nz in auto)
      then show ?thesis
        using True eq i rd(1) new cand by (simp add: wp_simps mem_simps input_def)
    next
      case False
      have "progress cfg s0 d f (s'\<lparr>tbuf := tbuf s\<rparr>)"
        using progress_failed [OF prog s'(1,2)] eq by (intro progress_tbuf) simp_all
      then show ?thesis
        using False eq i rd(2) tmp s0' undo by (simp add: wp_simps mem_simps) (simp add: input_def)
    qed
  qed
  show ?thesis
  proof (cases "input s ! i = 0x30")
    case True
    then show ?thesis
      using prog tmp orig i rd(2) by (simp add: char_pos_def wp_simps mem_simps)
  next
    case False
    then show ?thesis
      using i rd(2) orig unfolding char_pos_def
      by (simp add: wp_bnd wp_get wp_chk wp_seq wp_modify mem_simps)
        (rule wp_mono [OF run], elim conjE, rule after [unfolded wp_bnd], simp_all)
  qed
qed

lemma wp_character_minimization:
  assumes "progress cfg s0 d f s"
  shows "wp (character_minimization cfg) (\<lambda>_. progress cfg s0 d f) s"
proof -
  have r: "reached cfg s0 s" using assms by (simp add: progress_def)
  note rd = reachedD [OF r]
  let ?tmp = "put (tbuf s) 0 (region (in_data s) 0 (in_len s))"
  have copy: "memcpy (tbuf s) 0 (in_data s) 0 (in_len s) = Inr ?tmp"
    using rd(1,2) by (simp add: mem_simps)
  have tmp: "take (in_len s) ?tmp = input s"
    unfolding input_def using rd(1,2) by (rule take_copy)
  have start: "progress cfg s0 d f (s\<lparr>tbuf := ?tmp\<rparr>)"
    using assms rd(1,2) by (intro progress_tbuf) simp_all
  have "wp (for_each [0..<in_len s] (char_pos cfg)) (\<lambda>_. progress cfg s0 d f) (s\<lparr>tbuf := ?tmp\<rparr>)"
  proof (rule wp_for_each [where I = "\<lambda>is s1. progress cfg s0 d f s1 \<and>
        take (in_len s1) (tbuf s1) = input s1 \<and> in_len s1 = in_len s \<and> set is \<subseteq> {..<in_len s}"])
    fix i "is" and s1 :: "'a tmin"
    assume "progress cfg s0 d f s1 \<and> take (in_len s1) (tbuf s1) = input s1 \<and> in_len s1 = in_len s \<and>
        set (i # is) \<subseteq> {..<in_len s}"
    then show "wp (char_pos cfg i) (\<lambda>_ s1. progress cfg s0 d f s1 \<and> take (in_len s1) (tbuf s1) = input s1 \<and>
        in_len s1 = in_len s \<and> set is \<subseteq> {..<in_len s}) s1"
      by (intro wp_mono [OF wp_char_pos]) auto
  qed (use start tmp in \<open>auto simp: input_def\<close>)
  then show ?thesis
    using copy by (simp add: character_minimization_def wp_bnd wp_get wp_chk wp_seq wp_modify)
qed

section \<open>The minimization\<close>

text \<open>One pass either ends the minimization with an input no byte of which can be removed, or makes it lighter.\<close>

lemma wp_tmin_pass:
  assumes "reached cfg s0 s"
  shows "wp (tmin_pass cfg (p, go))
    (\<lambda>(p', again) s'. reached cfg s0 s' \<and>
       (if again then weight (input s') < weight (input s)
        else reliable cfg \<longrightarrow> del_len_limit cfg = 1 \<longrightarrow> stuck cfg s0 1 (in_len s') s')) s"
proof -
  let ?s = "s\<lparr>changed_any := False\<rparr>" and ?d = "input s"
  let ?stuck = "\<lambda>s'. reliable cfg \<longrightarrow> del_len_limit cfg = 1 \<longrightarrow> \<not> changed_any s' \<longrightarrow> stuck cfg s0 1 (in_len s') s'"
  have start: "progress cfg s0 ?d False ?s"
    using assms by (auto simp: progress_def reached_def state_ok_def same_mode_def input_def)
  have rest: "wp (seq (alphabet_minimization cfg) (seq (character_minimization cfg)
      (bnd (gets changed_any) (\<lambda>changed. ret (q, changed)))))
      (\<lambda>(p', again) s'. reached cfg s0 s' \<and>
         (if again then weight (input s') < weight ?d
          else reliable cfg \<longrightarrow> del_len_limit cfg = 1 \<longrightarrow> stuck cfg s0 1 (in_len s') s')) s1"
    if s1: "progress cfg s0 ?d False s1" "?stuck s1" for s1 and q :: nat
  proof -
    have s1': "progress cfg s0 ?d (changed_any s1) s1" using s1(1) by (simp add: progress_def)
    have fin: "reached cfg s0 s' \<and> (if changed_any s' then weight (input s') < weight ?d
        else reliable cfg \<longrightarrow> del_len_limit cfg = 1 \<longrightarrow> stuck cfg s0 1 (in_len s') s')"
      if s': "progress cfg s0 ?d (changed_any s1) s'" for s'
    proof (cases "changed_any s'")
      case True
      then show ?thesis using s' by (simp add: progress_def)
    next
      case False
      then have "\<not> changed_any s1" "input s' = input s1" "reached cfg s0 s'" "reached cfg s0 s1"
        using s' s1' by (auto simp: progress_def)
      moreover have "in_len s' = in_len s1"
        using reachedD(5) [OF calculation(3)] reachedD(5) [OF calculation(4)] calculation(2) by simp
      ultimately show ?thesis using s1(2) False by (simp add: stuck_def)
    qed
    show ?thesis
      unfolding wp_seq wp_bnd wp_gets wp_ret
      by (rule wp_mono [OF wp_alphabet_minimization [OF s1']],
          rule wp_mono [OF wp_character_minimization], assumption, drule fin, auto)
  qed
  show ?thesis
    unfolding tmin_pass_def prod.case Let_def wp_seq wp_modify
    by (rule wp_mono [OF wp_block_deletion [OF start]], elim conjE)
      (use rest in \<open>auto simp: wp_bnd wp_gets wp_ret progress_def\<close>)
qed

lemma wp_minimize:
  assumes cfg: "cfg_ok cfg" and ok: "state_ok cfg s" and trim: "no_trimmers cfg"
  shows "wp (minimize cfg) (\<lambda>_ s'. reached cfg s s' \<and>
    (in_len s > 1 \<longrightarrow> reliable cfg \<longrightarrow> del_len_limit cfg = 1 \<longrightarrow> stuck cfg s 1 (in_len s') s')) s"
proof -
  let ?s = "s\<lparr>tbuf := map (uninit cfg) [0..<in_len s], alpha_d_total := 0\<rparr>"
  have start: "reached cfg s ?s"
    using cfg ok by (simp add: reached_def state_ok_def same_mode_def input_def)
  have custom: "wp (custom_trim_all cfg els False) (\<lambda>r s'. r = (False, False) \<and> s' = ?s) ?s"
    if "\<forall>el \<in> set els. init_trim el = None \<or> custom_trim el = None \<or> post_trim el = None" for els
    using that by (induction els) (auto simp: wp_simps split: option.splits)
  let ?Q = "\<lambda>s'. reached cfg s s' \<and> (reliable cfg \<longrightarrow> del_len_limit cfg = 1 \<longrightarrow> stuck cfg s 1 (in_len s') s')"
  have passes: "wp (while_loop (\<lambda>(_, again) _. again) (tmin_pass cfg) (0, True)) (\<lambda>_. ?Q) s1"
    if "reached cfg s s1" for s1
  proof (rule wp_while_loop [where I = "\<lambda>x s'. reached cfg s s' \<and> (\<not> snd x \<longrightarrow> ?Q s')"
        and V = "\<lambda>x s'. if snd x then Suc (weight (input s')) else 0"])
    fix x :: "nat \<times> bool" and s2
    assume "reached cfg s s2 \<and> (\<not> snd x \<longrightarrow> ?Q s2)" "(case x of (_, again) \<Rightarrow> \<lambda>_. again) s2"
    then show "wp (tmin_pass cfg x) (\<lambda>x' s'. (reached cfg s s' \<and> (\<not> snd x' \<longrightarrow> ?Q s')) \<and>
        (if snd x' then Suc (weight (input s')) else 0) < (if snd x then Suc (weight (input s2)) else 0)) s2"
      by (cases x) (auto intro!: wp_mono [OF wp_tmin_pass] split: if_splits)
  qed (use that in \<open>auto simp: split_beta\<close>)
  show ?thesis
    unfolding minimize_def wp_seq wp_modify wp_bnd
    by (rule wp_mono [OF custom])
      (use trim start in \<open>auto simp: no_trimmers_def wp_gets wp_skip wp_seq wp_bnd
          intro!: wp_mono [OF wp_block_normalization] wp_mono [OF passes]\<close>)
qed

text \<open>A reliable target keeps exactly what it accepts, whatever the state of the minimization.\<close>

lemmas run_defs = tmin_run_target_def pre_write_to_testcase_def run_target_def judge_run_def
  compare_cksum_def miss_defs bnd_def seq_def gets_def get_def modify_def ret_def chk_def skip_def

lemma accepted_run:
  assumes rel: "reliable cfg" and cfg: "cfg_ok cfg" and acc: "accepts cfg s mem"
    and maps: "tmin_map_size cfg \<le> length (tmin_trace s)" "fsrv_map_size cfg \<le> length (tmin_trace s)"
  shows "\<exists>s'. tmin_run_target cfg mem (length mem) False s = Some (Inr (True, s'))"
proof -
  obtain res to trace where ex: "exec cfg (total_execs s) (custom_data s) mem = (res, to, trace)"
    by (metis prod_cases3)
  let ?t = "map trace [0..<length (tmin_trace s)]"
  obtain t where t: "tmin_classify_counts cfg ?t = Inr t" "apply_mask cfg t = Inr (processed cfg ?t)"
    using processed_ok(1) [OF cfg, of ?t] maps(1) by auto
  have pre: "prefix_of (processed cfg ?t) (fsrv_map_size cfg) = Inr (take (fsrv_map_size cfg) (processed cfg ?t))"
    using processed_ok(2) [OF cfg, of ?t] maps by (simp add: mem_simps)
  have "custom_mutators cfg = []" "\<And>n. \<not> stop_soon cfg n" using rel by (auto simp: reliable_def)
  then show ?thesis
    using acc ex t pre
    by (cases res) (auto simp: run_defs prefix_of_ok accepts_def verdict_def Let_def split: if_splits)
qed

lemma keeps_iff_accepts:
  assumes rel: "reliable cfg" and cfg: "cfg_ok cfg"
    and maps: "tmin_map_size cfg \<le> length (tmin_trace s)" "fsrv_map_size cfg \<le> length (tmin_trace s)"
  shows "keeps cfg s mem \<longleftrightarrow> accepts cfg s mem"
proof
  assume "keeps cfg s mem"
  then obtain s' where "tmin_run_target cfg mem (length mem) False s = Some (Inr (True, s'))"
    by (auto simp: keeps_def)
  from wp_result [OF wp_tmin_run_target [OF cfg _ maps] this] show "accepts cfg s mem"
    using rel by (simp add: reliable_def)
next
  assume "accepts cfg s mem"
  then show "keeps cfg s mem"
    using accepted_run [OF rel cfg _ maps] by (simp add: keeps_def)
qed

lemma reached_keeps:
  assumes "reliable cfg" and "reached cfg s0 s"
  shows "keeps cfg s mem \<longleftrightarrow> accepts cfg s0 mem"
  using assms keeps_iff_accepts [of cfg s mem] accepts_cong [of cfg s0 s mem]
  by (simp add: reached_def state_ok_def)

section \<open>The dry run\<close>

lemma anything_set_ok:
  "4 * (k + n) \<le> length mem \<Longrightarrow> \<exists>b. anything_set_loop n k mem = Inr b"
  by (induction n arbitrary: k) (auto simp: mem_simps)

text \<open>
  The first run sets the reference behaviour, so that the run itself is accepted; it is only a
  timeout outside hang mode, or anything but a timeout in hang mode, that is not.
\<close>

lemma wp_judge_first:
  assumes cfg: "cfg_ok cfg" and res: "res \<noteq> FSRV_RUN_ERROR" and crash: "\<not> crash_mode s"
    and maps: "tmin_map_size cfg \<le> length (tmin_trace s)" "fsrv_map_size cfg \<le> length (tmin_trace s)"
  shows "wp (judge_run cfg res True)
    (\<lambda>_ s'. same_work s s' \<and> last_run_timed_out s' = last_run_timed_out s \<and>
       (hang_mode cfg = (res = FSRV_RUN_TMOUT) \<longrightarrow> verdict cfg s' res (tmin_trace s))) s"
proof (cases "hang_mode cfg")
  case True
  then show ?thesis
    using res by (cases res)
      (simp_all add: judge_run_def wp_simps miss_defs verdict_def same_work_def Let_def)
next
  case False
  obtain t where t: "tmin_classify_counts cfg (tmin_trace s) = Inr t"
    "apply_mask cfg t = Inr (processed cfg (tmin_trace s))"
    using processed_ok(1) [OF cfg maps(1)] by blast
  have "length (processed cfg (tmin_trace s)) = length (tmin_trace s)"
    by (rule processed_ok(2) [OF cfg maps(1)])
  with False t res crash maps(2) show ?thesis
    by (cases res) (simp_all add: judge_run_def compare_cksum_def wp_simps mem_simps miss_defs
        verdict_def Let_def same_work_def)
qed

lemma wp_dry_run:
  assumes cfg: "cfg_ok cfg" and ok: "state_ok cfg s" and rel: "reliable cfg" and crash: "\<not> crash_mode s"
    and timeouts: "\<forall>n d mem res to trace.
      exec cfg n d mem = (res, to, trace) \<longrightarrow> to = (res = FSRV_RUN_TMOUT)"
  shows "wp (tmin_run_target cfg (in_data s) (in_len s) True)
    (\<lambda>_ s'. same_work s s' \<and> (hang_mode cfg = last_run_timed_out s' \<longrightarrow> accepts cfg s' (input s))) s"
  (is "wp _ ?Q s")
proof -
  have maps: "tmin_map_size cfg \<le> length (tmin_trace s)" "fsrv_map_size cfg \<le> length (tmin_trace s)"
    and len: "in_len s \<le> length (in_data s)" using ok by (simp_all add: state_ok_def)
  obtain res to trace where ex: "exec cfg (total_execs s) (custom_data s) (input s) = (res, to, trace)"
    by (metis prod_cases3)
  define s2 where "s2 = s\<lparr>testcase := input s, total_execs := total_execs s + 1, last_run_timed_out := to,
      tmin_trace := map trace [0..<length (tmin_trace s)]\<rparr>"
  have any: "exec cfg n d (input s) = (res, to, trace)" for n d
    using rel ex by (metis reliable_def)
  have judge: "wp (judge_run cfg res True) ?Q s2" if "res \<noteq> FSRV_RUN_ERROR"
  proof (rule wp_mono [OF wp_judge_first [OF cfg that]], goal_cases)
    case (4 x s')
    have "length (tmin_trace s') = length (tmin_trace s)" using 4 by (simp add: same_work_def s2_def)
    moreover have "same_work s s'" using 4 by (simp add: same_work_def s2_def)
    ultimately show ?case
      using 4 any timeouts [rule_format, OF ex] by (simp add: accepts_def s2_def)
  qed (use crash maps in \<open>simp_all add: s2_def\<close>)
  have "custom_mutators cfg = []" "\<And>n. \<not> stop_soon cfg n" using rel by (auto simp: reliable_def)
  then show ?thesis
    using judge ex len
    by (simp add: tmin_run_target_def pre_write_to_testcase_def run_target_def wp_simps mem_simps
        s2_def flip: input_def)
qed

section \<open>Properties\<close>

lemma sample_tmin_ok:
  "cfg_ok sample_cfg" "state_ok sample_cfg sample_tmin" "no_trimmers sample_cfg" "reliable sample_cfg"
  "del_len_limit sample_cfg = 1" "1 < in_len sample_tmin"
  by (simp_all add: cfg_ok_def state_ok_def no_trimmers_def reliable_def sample_cfg_def sample_tmin_def
      TMIN_MAX_FILE_def sample_exec_def)



text \<open>
  C2. \<open>afl-tmin\<close> end to end: if the target answers the same for the same input, nobody interrupts and
  no custom mutator is loaded, then the run ends, and unless it ends in \<open>FATAL\<close> the result is an
  input that \<open>tmin_run_target\<close> keeps, with the reference behaviour the dry run has set, and that is
  not longer than the original. With the default block limit and at least two bytes to start from,
  no single byte can be removed from it.
\<close>

theorem tmin_main_correct:
  assumes "cfg_ok cfg" and "state_ok cfg s" and "reliable cfg" and "\<not> crash_mode s"
    and "\<forall>n d mem res to trace. exec cfg n d mem = (res, to, trace) \<longrightarrow> to = (res = FSRV_RUN_TMOUT)"
  shows "wp (tmin_main cfg) (\<lambda>_ s'. keeps cfg s' (input s') \<and> in_len s' \<le> in_len s \<and>
           (del_len_limit cfg = 1 \<and> 1 < in_len s \<longrightarrow>
             (\<forall>i < in_len s'. \<not> keeps cfg s' (delete_at (input s') i 1)))) s"
  (is "wp _ (\<lambda>_. ?Q) s")
proof -
  have trim: "no_trimmers cfg" using assms(3) by (simp add: reliable_def no_trimmers_def)
  have minimize: "wp (minimize cfg) (\<lambda>_. ?Q) s1"
    if s1: "same_work s s1" "accepts cfg s1 (input s)" for s1
  proof -
    have ok: "state_ok cfg s1" using s1(1) assms(2) by (simp add: same_work_def state_ok_def)
    have eq: "input s1 = input s" "in_len s1 = in_len s" using s1(1) by (simp_all add: same_work_def input_def)
    have "?Q s'" if r: "reached cfg s1 s'"
      and st: "in_len s1 > 1 \<longrightarrow> reliable cfg \<longrightarrow> del_len_limit cfg = 1 \<longrightarrow> stuck cfg s1 1 (in_len s') s'" for s'
      using r st assms(3) s1(2) reached_keeps [OF assms(3) r] eq by (auto simp: reached_def stuck_def)
    then show ?thesis by (intro wp_mono [OF wp_minimize [OF assms(1) ok trim]]) blast
  qed
  have set: "\<exists>b. anything_set cfg (tmin_trace s1) = Inr b" if "same_work s s1" for s1
    using that assms(2) anything_set_ok [of 0 "tmin_map_size cfg div 4" "tmin_trace s1"]
    by (auto simp: anything_set_def same_work_def state_ok_def)
  have "wp (if hang_mode cfg \<and> \<not> last_run_timed_out s1 then chk (Inl Fatal)
     else if last_run_timed_out s1 \<and> \<not> hang_mode cfg then chk (Inl Fatal)
     else if hang_mode cfg then minimize cfg
     else if \<not> crash_mode s1 then
       bnd (chk (anything_set cfg (tmin_trace s1))) (\<lambda>set. if \<not> set then chk (Inl Fatal) else minimize cfg)
     else minimize cfg) (\<lambda>_. ?Q) s1"
    if "same_work s s1" "hang_mode cfg = last_run_timed_out s1 \<longrightarrow> accepts cfg s1 (input s)" for s1
    using that set [OF that(1)] minimize [OF that(1)] by (auto simp: wp_simps)
  then show ?thesis
    unfolding tmin_main_def wp_bnd wp_get by (intro wp_mono [OF wp_dry_run [OF assms]]) auto
qed

theorem tmin_main_correct_witness:
  "wp (tmin_main sample_cfg) (\<lambda>_ s'. keeps sample_cfg s' (input s') \<and> in_len s' \<le> 4 \<and>
     (\<forall>i < in_len s'. \<not> keeps sample_cfg s' (delete_at (input s') i 1))) (sample_tmin\<lparr>crash_mode := False\<rparr>)"
proof -
  let ?s = "sample_tmin\<lparr>crash_mode := False\<rparr>"
  have ok: "state_ok sample_cfg ?s" "\<not> crash_mode ?s"
    using sample_tmin_ok(2) by (simp_all add: state_ok_def sample_tmin_def)
  have to: "\<forall>n d mem res to trace. exec sample_cfg n d mem = (res, to, trace) \<longrightarrow> to = (res = FSRV_RUN_TMOUT)"
    by (auto simp: sample_cfg_def sample_exec_def split: if_splits)
  show ?thesis
    by (rule wp_mono [OF tmin_main_correct [OF sample_tmin_ok(1) ok(1) sample_tmin_ok(4) ok(2) to]])
      (use sample_tmin_ok(5) in \<open>auto simp: sample_tmin_def\<close>)
qed

text \<open>
  C39. A post-processor can make the minimizer write outside its buffer: the static buffer of
  \<open>pre_afl_fsrv_write_to_testcase\<close> has \<open>MAX_FILE\<close> bytes, while inputs of up to \<open>TMIN_MAX_FILE\<close> bytes
  are read. A post-processor that returns its input unchanged in a buffer of its own overflows it on
  every input in between.
\<close>

theorem post_process_overflows:
  assumes "custom_mutators cfg = [copying_mutator]"
    and "MAX_FILE < length mem" and "length mem < TMIN_MAX_FILE"
  shows "tmin_run_target cfg mem (length mem) first_run s = Some (Inl Out_of_bounds)"
proof -
  have "mem \<noteq> []" using assms(2) by auto
  then show ?thesis
    using assms by (simp add: run_defs prefix_of_ok copying_mutator_def)
qed

theorem post_process_overflows_witness:
  "tmin_run_target (sample_cfg\<lparr>custom_mutators := [copying_mutator]\<rparr>) (replicate (MAX_FILE + 1) 0)
     (length (replicate (MAX_FILE + 1) (0 :: u8))) True sample_tmin = Some (Inl Out_of_bounds)"
  by (rule post_process_overflows) (simp_all only: length_replicate, simp_all add: MAX_FILE_def TMIN_MAX_FILE_def)

text \<open>
  C40. In hang mode the counter that the final report prints as the number of terminating executions,
  \<open>missed_paths\<close>, never changes: executions that terminate are counted in \<open>missed_hangs\<close>.
\<close>

theorem hang_mode_counts_elsewhere:
  assumes "hang_mode cfg" and "tmin_run_target cfg mem len first_run s = Some (Inr (keep, s'))"
  shows "missed_paths s' = missed_paths s \<and>
         missed_hangs s' \<in> {missed_hangs s, u32_add (missed_hangs s) 1}"
  using assms
  by (auto simp: run_defs Let_def split: sum.splits option.splits prod.splits if_splits fsrv_run_result.splits)

theorem hang_mode_counts_elsewhere_witness:
  "\<exists>s'. tmin_run_target (sample_cfg\<lparr>hang_mode := True\<rparr>) [1] 1 False sample_tmin = Some (Inr (False, s')) \<and>
     missed_paths s' = 0 \<and> missed_hangs s' = 1"
proof -
  have "\<exists>s'. tmin_run_target (sample_cfg\<lparr>hang_mode := True\<rparr>) [1] 1 False sample_tmin = Some (Inr (False, s')) \<and>
      missed_hangs s' = 1"
    by (simp add: run_defs prefix_of_def sample_cfg_def sample_tmin_def sample_exec_def u32_add_def)
  then show ?thesis
    using hang_mode_counts_elsewhere [of "sample_cfg\<lparr>hang_mode := True\<rparr>" "[1]" 1 False sample_tmin]
    by (auto simp: sample_tmin_def)
qed

end
