(* ===== verification/AFL_Hashmap.thy ===== *)
theory AFL_Hashmap
  imports AFL_Hoare
begin

text \<open>
  The hash set of \<open>src/hashmap.c\<close>, in which the CmpLog stage remembers the operands it has seen.

  \<^item> The nodes are objects of an explicit heap: an address is a natural number, a pointer an optional
    address. \<open>malloc\<close> is a parameter; every access through a null or dangling pointer is a fault.
  \<^item> \<open>hm_ok\<close> is the representation invariant: the buckets are disjoint acyclic chains that cover the
    heap, and every key is in the bucket of its hash. \<open>hm_keys\<close> is the set a table represents.
  \<^item> The locale \<open>seen_set\<close> is the contract of a component that remembers values; it is interpreted on
    \<open>hashmap_search_and_add\<close>, and gives the lemmas on sequences of queries.
\<close>

section \<open>Definitions\<close>

definition TABLE_SIZE :: nat where "TABLE_SIZE = 10007"

record hash_node =
  key :: u64
  nxt :: "nat option"

record hash_map =
  table :: "nat option list option"
  heap :: "nat \<Rightarrow> hash_node option"

definition deref :: "nat option \<Rightarrow> (hash_map, hash_node) comp" where
  "deref p =
     bnd (gets heap) (\<lambda>h. case p of
         None \<Rightarrow> chk (Inl Out_of_bounds)
       | Some a \<Rightarrow> (case h a of None \<Rightarrow> chk (Inl Out_of_bounds) | Some n \<Rightarrow> ret n))"

definition free_node :: "nat option \<Rightarrow> (hash_map, unit) comp" where
  "free_node p =
     bnd (deref p) (\<lambda>_. modify (\<lambda>s. s\<lparr>heap := (heap s)(the p := None)\<rparr>))"

definition read_table :: "nat \<Rightarrow> (hash_map, nat option) comp" where
  "read_table i =
     bnd (gets table) (\<lambda>t. case t of
         None \<Rightarrow> chk (Inl Out_of_bounds)
       | Some tab \<Rightarrow> chk (load tab i))"

definition write_table :: "nat \<Rightarrow> nat option \<Rightarrow> (hash_map, unit) comp" where
  "write_table i p =
     bnd (gets table) (\<lambda>t. case t of
         None \<Rightarrow> chk (Inl Out_of_bounds)
       | Some tab \<Rightarrow> bnd (chk (store tab i p)) (\<lambda>tab. modify (\<lambda>s. s\<lparr>table := Some tab\<rparr>)))"

definition hash :: "u64 \<Rightarrow> nat" where
  "hash k = unat k mod TABLE_SIZE"

text \<open>The loops over a chain; the loop variable is the pointer \<open>node\<close>.\<close>

definition free_step :: "nat option \<Rightarrow> (hash_map, nat option) comp" where
  "free_step node =
     bnd (deref node) (\<lambda>n. let temp = node; node = nxt n in seq (free_node temp) (ret node))"

definition free_chain :: "nat \<Rightarrow> (hash_map, unit) comp" where
  "free_chain i =
     bnd (read_table i) (\<lambda>node.
     bnd (while_loop (\<lambda>node _. node \<noteq> None) free_step node) (\<lambda>_. skip))"

definition hashmap_reset :: "(hash_map, unit) comp" where
  "hashmap_reset =
     bnd (gets table) (\<lambda>t.
     seq (if t = None then skip else for_each [0..<TABLE_SIZE] free_chain)
     (modify (\<lambda>s. s\<lparr>table := Some (replicate TABLE_SIZE None)\<rparr>)))"

text \<open>The search loop; its result is \<open>True\<close> when it returned from inside.\<close>

definition search_step :: "u64 \<Rightarrow> nat option \<times> bool \<Rightarrow> (hash_map, nat option \<times> bool) comp" where
  "search_step val = (\<lambda>(node, _).
     bnd (deref node) (\<lambda>n. if key n = val then ret (node, True) else ret (nxt n, False)))"

definition search_chain :: "u64 \<Rightarrow> nat option \<Rightarrow> (hash_map, bool) comp" where
  "search_chain val node =
     bnd (while_loop (\<lambda>(node, found) _. node \<noteq> None \<and> \<not> found) (search_step val) (node, False))
       (\<lambda>(_, found). ret found)"

definition add_node ::
  "((nat \<Rightarrow> hash_node option) \<Rightarrow> nat option) \<Rightarrow> u64 \<Rightarrow> (hash_map, unit) comp" where
  "add_node malloc val =
     bnd (gets heap) (\<lambda>h. case malloc h of
         None \<Rightarrow> chk (Inl Out_of_bounds)
       | Some a \<Rightarrow>
           bnd (read_table (hash val)) (\<lambda>p.
           seq (modify (\<lambda>s. s\<lparr>heap := (heap s)(a := Some \<lparr>key = val, nxt = p\<rparr>)\<rparr>))
           (write_table (hash val) (Some a))))"

definition tag :: "nat \<Rightarrow> u64 \<Rightarrow> u64" where
  "tag ty k = (k AND 0xf8ffffffffffffff) + push_bit 56 (of_nat ty)"

definition hashmap_search_and_add ::
  "((nat \<Rightarrow> hash_node option) \<Rightarrow> nat option) \<Rightarrow> nat \<Rightarrow> u64 \<Rightarrow> (hash_map, bool) comp" where
  "hashmap_search_and_add malloc ty k =
     (if ty \<ge> 8 then ret False
      else
        let val = tag ty k in
        bnd (read_table (hash val)) (\<lambda>node.
        bnd (search_chain val node) (\<lambda>found.
        if found then ret True else seq (add_node malloc val) (ret False))))"

text \<open>
  \<open>memcpy (((char *)key_t) + (7 - type), key, type + 1)\<close> with \<open>key_t\<close> equal to \<open>0\<close>: the destination
  is an offset from the null pointer.
\<close>

definition memcpy_null :: "nat \<Rightarrow> nat \<Rightarrow> ('s, unit) comp" where
  "memcpy_null off n = (if n = 0 then skip else chk (Inl Out_of_bounds))"

definition hashmap_search_and_add_ptr ::
  "((nat \<Rightarrow> hash_node option) \<Rightarrow> nat option) \<Rightarrow> nat \<Rightarrow> bytes \<Rightarrow> (hash_map, bool) comp" where
  "hashmap_search_and_add_ptr malloc ty k =
     (if ty \<ge> 8 then ret False
      else seq (memcpy_null (7 - ty) (ty + 1)) (hashmap_search_and_add malloc ty 0))"

definition hashmap_insert ::
  "((nat \<Rightarrow> hash_node option) \<Rightarrow> nat option) \<Rightarrow> u64 \<Rightarrow> (hash_map, unit) comp" where
  "hashmap_insert malloc k = add_node malloc k"

definition hashmap_search :: "u64 \<Rightarrow> (hash_map, bool) comp" where
  "hashmap_search k = bnd (read_table (hash k)) (search_chain k)"




text \<open>A sequence of queries, and a conjunction of queries that stops at the first negative answer.\<close>

fun queries :: "('k \<Rightarrow> ('s, bool) comp) \<Rightarrow> 'k list \<Rightarrow> ('s, bool list) comp" where
  "queries query [] = ret []"
| "queries query (k # ks) = bnd (query k) (\<lambda>b. bnd (queries query ks) (\<lambda>bs. ret (b # bs)))"

fun all_seen :: "('k \<Rightarrow> ('s, bool) comp) \<Rightarrow> 'k list \<Rightarrow> ('s, bool) comp" where
  "all_seen query [] = ret True"
| "all_seen query (k # ks) = bnd (query k) (\<lambda>b. if b then all_seen query ks else ret False)"

text \<open>
  The filter in \<open>cmp_fuzz\<close> (\<open>afl-fuzz-redqueen.c\<close>): a logged comparison is skipped when its two operands,
  of the run on the colorized input and of the original run, have all been seen.
\<close>

definition cmp_operands_seen ::
  "((nat \<Rightarrow> hash_node option) \<Rightarrow> nat option) \<Rightarrow> nat \<Rightarrow> u64 \<Rightarrow> u64 \<Rightarrow> u64 \<Rightarrow> u64 \<Rightarrow> (hash_map, bool) comp" where
  "cmp_operands_seen malloc hshape v0 orig_v0 v1 orig_v1 =
     (if hshape \<le> 8 then
        let ty = u32_sub hshape 1 mod 256 in
        all_seen (\<lambda>(ty, k). hashmap_search_and_add malloc ty k)
          [(ty, v0), (ty, orig_v0), (ty, v1), (ty, orig_v1)]
      else ret False)"

section \<open>Representation\<close>

text \<open>\<open>chain h p as\<close>: the pointer \<open>p\<close> starts a chain through the addresses \<open>as\<close> that ends in null.\<close>

fun chain :: "(nat \<Rightarrow> hash_node option) \<Rightarrow> nat option \<Rightarrow> nat list \<Rightarrow> bool" where
  "chain h p [] = (p = None)"
| "chain h p (a # as) = (p = Some a \<and> (case h a of None \<Rightarrow> False | Some n \<Rightarrow> chain h (nxt n) as))"

definition buckets :: "hash_map \<Rightarrow> (nat \<Rightarrow> nat list) \<Rightarrow> bool" where
  "buckets s c \<longleftrightarrow>
     (\<exists>tab. table s = Some tab \<and> length tab = TABLE_SIZE \<and>
        (\<forall>i < TABLE_SIZE. chain (heap s) (tab ! i) (c i) \<and> distinct (c i) \<and>
           (\<forall>a \<in> set (c i). hash (key (the (heap s a))) = i)) \<and>
        (\<forall>a. a \<in> dom (heap s) \<longleftrightarrow> (\<exists>i < TABLE_SIZE. a \<in> set (c i))))"

definition hm_ok :: "hash_map \<Rightarrow> bool" where
  "hm_ok s \<longleftrightarrow> (\<exists>c. buckets s c) \<and> inj_on (\<lambda>a. key (the (heap s a))) (dom (heap s))"

definition hm_keys :: "hash_map \<Rightarrow> u64 set" where
  "hm_keys s = (\<lambda>a. key (the (heap s a))) ` dom (heap s)"

definition malloc_ok :: "((nat \<Rightarrow> hash_node option) \<Rightarrow> nat option) \<Rightarrow> bool" where
  "malloc_ok malloc \<longleftrightarrow> (\<forall>h. finite (dom h) \<longrightarrow> (\<exists>a. malloc h = Some a \<and> h a = None))"

definition sample_malloc :: "(nat \<Rightarrow> hash_node option) \<Rightarrow> nat option" where
  "sample_malloc h = (if finite (dom h) then Some (Suc (Max (insert 0 (dom h)))) else None)"






section \<open>Chains\<close>

lemma chain_cong: "(\<And>a. a \<in> set as \<Longrightarrow> h a = h' a) \<Longrightarrow> chain h p as = chain h' p as"
  by (induction as arbitrary: p) (auto split: option.splits)

lemma chain_upd [simp]: "a \<notin> set as \<Longrightarrow> chain (h(a := x)) p as = chain h p as"
  by (rule chain_cong) auto



lemma chain_None [simp]: "chain h None as \<longleftrightarrow> as = []"
  by (cases as) auto

lemma chain_Some:
  assumes "chain h (Some a) as"
  obtains n bs where "as = a # bs" and "h a = Some n" and "chain h (nxt n) bs"
  using assms by (cases as) (auto split: option.splits)

lemma wp_deref [wp_simps]:
  "heap s a = Some n \<Longrightarrow> wpe E (deref (Some a)) Q s \<longleftrightarrow> Q n s"
  by (simp add: deref_def wp_simps)

lemma wp_free_node [wp_simps]:
  "heap s a = Some n \<Longrightarrow> wpe E (free_node (Some a)) Q s \<longleftrightarrow> Q () (s\<lparr>heap := (heap s)(a := None)\<rparr>)"
  by (simp add: free_node_def wp_simps)

lemma wp_read_table [wp_simps]:
  "table s = Some tab \<Longrightarrow> i < length tab \<Longrightarrow> wpe E (read_table i) Q s \<longleftrightarrow> Q (tab ! i) s"
  by (simp add: read_table_def wp_simps load_def)

lemma wp_write_table [wp_simps]:
  "table s = Some tab \<Longrightarrow> i < length tab \<Longrightarrow>
   wpe E (write_table i p) Q s \<longleftrightarrow> Q () (s\<lparr>table := Some (tab[i := p])\<rparr>)"
  by (simp add: write_table_def wp_simps store_def)

lemma search_loop:
  assumes "chain (heap s) node as"
  shows "runs (while_loop (\<lambda>(node, found) _. node \<noteq> None \<and> \<not> found) (search_step val) (node, False))
     (\<lambda>(_, found) s'. s' = s \<and> (found \<longleftrightarrow> (\<exists>a \<in> set as. key (the (heap s a)) = val))) s"
  using assms
proof (induction as arbitrary: node)
  case Nil
  then show ?case by (subst wp_while_unfold) simp
next
  case (Cons a as)
  then obtain n where n: "node = Some a" "heap s a = Some n" "chain (heap s) (nxt n) as"
    by (auto split: option.splits)
  show ?case
  proof (cases "key n = val")
    case True
    then show ?thesis
      using n by (subst wp_while_unfold, simp add: search_step_def wp_simps, subst wp_while_unfold, simp)
  next
    case False
    then show ?thesis
      using n Cons.IH [OF n(3)]
      by (subst wp_while_unfold, simp add: search_step_def wp_simps)
  qed
qed

lemma search_chain_runs:
  assumes "chain (heap s) node as"
    and "Q (\<exists>a \<in> set as. key (the (heap s a)) = val) s"
  shows "runs (search_chain val node) Q s"
  unfolding search_chain_def wp_bnd
  by (rule wp_mono [OF search_loop [OF assms(1)]]) (use assms(2) in \<open>auto simp: wp_simps\<close>)

lemma wp_free_step [wp_simps]:
  "heap s a = Some n \<Longrightarrow>
   wpe E (free_step (Some a)) Q s \<longleftrightarrow> Q (nxt n) (s\<lparr>heap := (heap s)(a := None)\<rparr>)"
  by (simp add: free_step_def wp_simps)

lemma free_loop:
  assumes "chain (heap s) node as" and "distinct as"
  shows "runs (while_loop (\<lambda>node _. node \<noteq> None) free_step node)
     (\<lambda>_ s'. s' = s\<lparr>heap := heap s |` (- set as)\<rparr>) s"
  using assms
proof (induction as arbitrary: node s)
  case Nil
  then show ?case by (subst wp_while_unfold) (simp add: restrict_map_def)
next
  case (Cons a as)
  then obtain n where n: "node = Some a" "heap s a = Some n" "chain (heap s) (nxt n) as"
    by (auto split: option.splits)
  have heap: "(heap s)(a := None) |` (- set as) = heap s |` (- set (a # as))"
    by (auto simp: restrict_map_def fun_eq_iff)
  have "chain (heap (s\<lparr>heap := (heap s)(a := None)\<rparr>)) (nxt n) as"
    using n Cons.prems by simp
  from Cons.IH [OF this] Cons.prems
  have "runs (while_loop (\<lambda>node _. node \<noteq> None) free_step (nxt n))
     (\<lambda>_ s'. s' = s\<lparr>heap := heap s |` (- set (a # as))\<rparr>) (s\<lparr>heap := (heap s)(a := None)\<rparr>)"
    unfolding heap [symmetric] by (simp del: fun_upd_apply)
  then show ?case
    unfolding n(1) by (subst wp_while_unfold) (simp only: wp_free_step [OF n(2)] option.distinct simp_thms if_True)
qed

lemma free_chain_runs:
  assumes "table s = Some tab" and "i < length tab" and "chain (heap s) (tab ! i) as" and "distinct as"
    and "Q () (s\<lparr>heap := heap s |` (- set as)\<rparr>)"
  shows "runs (free_chain i) Q s"
  unfolding free_chain_def wp_bnd wp_read_table [OF assms(1,2)]
  by (rule wp_mono [OF free_loop [OF assms(3,4)]]) (use assms(5) in \<open>simp add: wp_simps\<close>)

section \<open>The delete loop\<close>





section \<open>The representation invariant\<close>

lemma hash_less [simp]: "hash k < TABLE_SIZE"
  by (simp add: hash_def TABLE_SIZE_def)

lemma buckets_table: "buckets s c \<Longrightarrow> \<exists>tab. table s = Some tab \<and> length tab = TABLE_SIZE"
  by (auto simp: buckets_def)

lemma buckets_length: "buckets s c \<Longrightarrow> table s = Some tab \<Longrightarrow> length tab = TABLE_SIZE"
  by (auto simp: buckets_def)

lemma buckets_chain:
  "buckets s c \<Longrightarrow> table s = Some tab \<Longrightarrow> i < TABLE_SIZE \<Longrightarrow> chain (heap s) (tab ! i) (c i)"
  by (auto simp: buckets_def)

lemma buckets_distinct: "buckets s c \<Longrightarrow> i < TABLE_SIZE \<Longrightarrow> distinct (c i)"
  by (auto simp: buckets_def)

lemma buckets_hash:
  "buckets s c \<Longrightarrow> i < TABLE_SIZE \<Longrightarrow> a \<in> set (c i) \<Longrightarrow> hash (key (the (heap s a))) = i"
  by (auto simp: buckets_def)

lemma buckets_dom: "buckets s c \<Longrightarrow> a \<in> dom (heap s) \<longleftrightarrow> (\<exists>i < TABLE_SIZE. a \<in> set (c i))"
  unfolding buckets_def by blast

lemmas buckets_facts = buckets_length buckets_chain buckets_distinct buckets_hash buckets_dom

lemma in_hm_keys: "k \<in> hm_keys s \<longleftrightarrow> (\<exists>a n. heap s a = Some n \<and> key n = k)"
  by (force simp: hm_keys_def)

lemma bucketsI:
  assumes "table s = Some tab" and "length tab = TABLE_SIZE"
    and "\<And>i. i < TABLE_SIZE \<Longrightarrow> chain (heap s) (tab ! i) (c i) \<and> distinct (c i)"
    and "\<And>i a. i < TABLE_SIZE \<Longrightarrow> a \<in> set (c i) \<Longrightarrow> hash (key (the (heap s a))) = i"
    and "\<And>a. a \<in> dom (heap s) \<longleftrightarrow> (\<exists>i < TABLE_SIZE. a \<in> set (c i))"
  shows "buckets s c"
  using assms unfolding buckets_def by blast

lemma buckets_finite:
  assumes "buckets s c"
  shows "finite (dom (heap s))"
proof -
  have "dom (heap s) = (\<Union>i \<in> {..<TABLE_SIZE}. set (c i))"
    using buckets_dom [OF assms] by blast
  then show ?thesis by simp
qed

lemma buckets_keys:
  assumes "buckets s c"
  shows "(\<exists>a \<in> set (c (hash k)). key (the (heap s a)) = k) \<longleftrightarrow> k \<in> hm_keys s"
proof
  assume "k \<in> hm_keys s"
  then obtain a n where a: "heap s a = Some n" "key n = k"
    by (auto simp: in_hm_keys)
  then obtain i where i: "i < TABLE_SIZE" "a \<in> set (c i)"
    using buckets_dom [OF assms, of a] by blast
  then have "hash k = i"
    using buckets_hash [OF assms i] a by simp
  then show "\<exists>a \<in> set (c (hash k)). key (the (heap s a)) = k"
    using a i by force
next
  assume "\<exists>a \<in> set (c (hash k)). key (the (heap s a)) = k"
  then obtain a where "a \<in> set (c (hash k))" "key (the (heap s a)) = k" by blast
  moreover from this(1) obtain n where "heap s a = Some n"
    using buckets_dom [OF assms, of a] hash_less [of k] by blast
  ultimately show "k \<in> hm_keys s" by (auto simp: in_hm_keys)
qed

lemma buckets_add:
  assumes c: "buckets s c" and a: "heap s a = None" and tab: "table s = Some tab"
  shows "buckets (s\<lparr>table := Some (tab[hash v := Some a]),
                    heap := (heap s)(a := Some \<lparr>key = v, nxt = tab ! hash v\<rparr>)\<rparr>)
           (c(hash v := a # c (hash v)))"
proof -
  have len: "length tab = TABLE_SIZE"
    and ch: "\<And>i. i < TABLE_SIZE \<Longrightarrow> chain (heap s) (tab ! i) (c i)"
    and di: "\<And>i. i < TABLE_SIZE \<Longrightarrow> distinct (c i)"
    and ha: "\<And>i b. i < TABLE_SIZE \<Longrightarrow> b \<in> set (c i) \<Longrightarrow> hash (key (the (heap s b))) = i"
    and do: "\<And>b. b \<in> dom (heap s) \<longleftrightarrow> (\<exists>i < TABLE_SIZE. b \<in> set (c i))"
    by (fact buckets_facts [OF c] buckets_length [OF c tab] buckets_chain [OF c tab])+
  have new: "a \<notin> set (c i)" if "i < TABLE_SIZE" for i
    using do [of a] a that by blast
  have in_cons: "(\<exists>i < TABLE_SIZE. b \<in> set ((c(hash v := a # c (hash v))) i)) \<longleftrightarrow>
      b = a \<or> (\<exists>i < TABLE_SIZE. b \<in> set (c i))" for b
    using hash_less [of v] by (metis fun_upd_def list.set_intros(1,2) set_ConsD)
  show ?thesis
  proof (rule bucketsI [where tab = "tab[hash v := Some a]"])
    fix b
    show "b \<in> dom (heap (s\<lparr>table := Some (tab[hash v := Some a]),
                    heap := (heap s)(a := Some \<lparr>key = v, nxt = tab ! hash v\<rparr>)\<rparr>)) \<longleftrightarrow>
        (\<exists>i < TABLE_SIZE. b \<in> set ((c(hash v := a # c (hash v))) i))"
      using do [of b] in_cons [of b] by simp
  qed (use len new ch di ha in \<open>auto simp: nth_list_update split: if_splits\<close>)
qed

lemma keys_add:
  "heap s a = None \<Longrightarrow>
   hm_keys (s\<lparr>table := t, heap := (heap s)(a := Some \<lparr>key = v, nxt = p\<rparr>)\<rparr>) = insert v (hm_keys s)"
  by (simp add: hm_keys_def) (intro arg_cong [of _ _ "insert v"] image_cong, auto)

lemma inj_add:
  assumes "inj_on (\<lambda>b. key (the (heap s b))) (dom (heap s))" and "heap s a = None" and "v \<notin> hm_keys s"
  shows "inj_on (\<lambda>b. key (the (((heap s)(a := Some \<lparr>key = v, nxt = p\<rparr>)) b)))
           (dom ((heap s)(a := Some \<lparr>key = v, nxt = p\<rparr>)))"
proof (rule inj_onI)
  fix x y
  assume "x \<in> dom ((heap s)(a := Some \<lparr>key = v, nxt = p\<rparr>))" "y \<in> dom ((heap s)(a := Some \<lparr>key = v, nxt = p\<rparr>))"
    and "key (the (((heap s)(a := Some \<lparr>key = v, nxt = p\<rparr>)) x)) = key (the (((heap s)(a := Some \<lparr>key = v, nxt = p\<rparr>)) y))"
  then show "x = y"
    using assms(3) inj_onD [OF assms(1), of x y] by (auto simp: hm_keys_def split: if_splits)
qed

lemma add_node_runs:
  assumes m: "malloc_ok malloc" and c: "buckets s c" and tab: "table s = Some tab"
    and Q: "\<And>a. heap s a = None \<Longrightarrow>
        Q () (s\<lparr>table := Some (tab[hash v := Some a]),
                heap := (heap s)(a := Some \<lparr>key = v, nxt = tab ! hash v\<rparr>)\<rparr>)"
  shows "runs (add_node malloc v) Q s"
proof -
  obtain a where a: "malloc (heap s) = Some a" "heap s a = None"
    using m buckets_finite [OF c] unfolding malloc_ok_def by blast
  have len: "hash v < length tab"
    using buckets_length [OF c tab] by simp
  have "wpe E (write_table (hash v) (Some a)) Q (s\<lparr>heap := h\<rparr>) \<longleftrightarrow>
      Q () (s\<lparr>heap := h, table := Some (tab[hash v := Some a])\<rparr>)" for E h
    by (rule wp_write_table) (use tab len in auto)
  moreover have "s\<lparr>heap := h, table := t\<rparr> = s\<lparr>table := t, heap := h\<rparr>" for h t
    by simp
  ultimately show ?thesis
    using a Q [OF a(2)] unfolding add_node_def wp_bnd wp_gets
    by (simp add: wp_seq wp_modify wp_bnd wp_read_table [OF tab len])
qed





section \<open>The operations\<close>

lemma hm_ok_buckets: "hm_ok s \<Longrightarrow> \<exists>c tab. buckets s c \<and> table s = Some tab"
  using buckets_table by (fastforce simp: hm_ok_def)

lemma hashmap_insert_runs:
  assumes "malloc_ok malloc" and ok: "hm_ok s" and "k \<notin> hm_keys s"
  shows "runs (hashmap_insert malloc k) (\<lambda>_ s'. hm_ok s' \<and> hm_keys s' = insert k (hm_keys s)) s"
proof -
  obtain c tab where c: "buckets s c" "table s = Some tab"
    using hm_ok_buckets [OF ok] by blast
  have "inj_on (\<lambda>a. key (the (heap s a))) (dom (heap s))" using ok by (simp add: hm_ok_def)
  note inj = inj_add [OF this _ assms(3)]
  show ?thesis
    unfolding hashmap_insert_def
  proof (rule add_node_runs [OF assms(1) c])
    fix a
    assume a: "heap s a = None"
    let ?s = "s\<lparr>table := Some (tab[hash k := Some a]),
        heap := (heap s)(a := Some \<lparr>key = k, nxt = tab ! hash k\<rparr>)\<rparr>"
    have "hm_ok ?s"
      unfolding hm_ok_def using buckets_add [OF c(1) a c(2), of k] inj [OF a, of "tab ! hash k"]
      by (intro conjI exI) (assumption, simp del: fun_upd_apply)
    then show "hm_ok ?s \<and> hm_keys ?s = insert k (hm_keys s)"
      using keys_add [OF a] by simp
  qed
qed

lemma search_runs:
  assumes "buckets s c" and "table s = Some tab" and "Q (k \<in> hm_keys s) s"
  shows "runs (bnd (read_table (hash k)) (search_chain k)) Q s"
proof -
  have "hash k < length tab" using buckets_length [OF assms(1,2)] by simp
  then show ?thesis
    unfolding wp_bnd
    by (subst wp_read_table [OF assms(2)])
      (use assms(3) in \<open>auto simp: buckets_keys [OF assms(1)] intro!: search_chain_runs [OF buckets_chain [OF assms(1,2)]]\<close>)
qed

lemma hashmap_search_runs:
  assumes "hm_ok s"
  shows "runs (hashmap_search k) (\<lambda>b s'. s' = s \<and> (b \<longleftrightarrow> k \<in> hm_keys s)) s"
proof -
  obtain c tab where "buckets s c" "table s = Some tab"
    using hm_ok_buckets [OF assms] by blast
  then show ?thesis unfolding hashmap_search_def by (rule search_runs) simp
qed

text \<open>\<open>hashmap_search_and_add\<close> is a search for the tagged key, then an insertion.\<close>

lemma search_and_add_split:
  "ty < 8 \<Longrightarrow> hashmap_search_and_add malloc ty k =
     bnd (hashmap_search (tag ty k)) (\<lambda>found.
     if found then ret True else seq (hashmap_insert malloc (tag ty k)) (ret False))"
  unfolding hashmap_search_and_add_def hashmap_search_def hashmap_insert_def Let_def bnd_assoc
  by simp

lemma search_and_add_runs:
  assumes "malloc_ok malloc" and "hm_ok s" and "ty < 8"
  shows "runs (hashmap_search_and_add malloc ty k)
     (\<lambda>b s'. hm_ok s' \<and> (b \<longleftrightarrow> tag ty k \<in> hm_keys s) \<and> hm_keys s' = insert (tag ty k) (hm_keys s)) s"
  unfolding search_and_add_split [OF assms(3)] wp_bnd
  by (rule wp_mono [OF hashmap_search_runs [OF assms(2)]])
    (auto simp: wp_simps assms(2) insert_absorb intro!: wp_mono [OF hashmap_insert_runs [OF assms(1,2)]])


lemma reset_frees:
  assumes c: "buckets s c" and tab: "table s = Some tab"
  shows "runs (for_each [0..<TABLE_SIZE] free_chain) (\<lambda>_ s'. heap s' = Map.empty) s"
proof (rule wp_for_upt [where I = "\<lambda>j s'. table s' = Some tab \<and>
      heap s' = heap s |` {a. \<forall>i < j. a \<notin> set (c i)}"])
  show "table s = Some tab \<and> heap s = heap s |` {a. \<forall>i < 0. a \<notin> set (c i)}"
    using tab by (simp add: restrict_map_def)
next
  fix j and s' :: hash_map
  assume j: "j < TABLE_SIZE" and s': "table s' = Some tab \<and> heap s' = heap s |` {a. \<forall>i < j. a \<notin> set (c i)}"
  have "a \<notin> set (c l)" if "a \<in> set (c j)" "l < j" for a l
    using buckets_hash [OF c j that(1)] buckets_hash [OF c, of l a] that(2) j by force
  then have "chain (heap s') (tab ! j) (c j) = chain (heap s) (tab ! j) (c j)"
    by (intro chain_cong) (auto simp: s' restrict_map_def)
  then have "chain (heap s') (tab ! j) (c j)"
    using buckets_chain [OF c tab j] by simp
  moreover have "{a. \<forall>i < j. a \<notin> set (c i)} \<inter> - set (c j) = {a. \<forall>i < Suc j. a \<notin> set (c i)}"
    by (auto simp: less_Suc_eq)
  ultimately show "runs (free_chain j) (\<lambda>_ s'. table s' = Some tab \<and>
      heap s' = heap s |` {a. \<forall>i < Suc j. a \<notin> set (c i)}) s'"
    by (intro free_chain_runs [OF conjunct1 [OF s'] _ _ buckets_distinct [OF c j]])
      (use buckets_length [OF c tab] j s' in auto)
next
  fix s' :: hash_map
  assume "table s' = Some tab \<and> heap s' = heap s |` {a. \<forall>i < TABLE_SIZE. a \<notin> set (c i)}"
  moreover have "{a. \<forall>i < TABLE_SIZE. a \<notin> set (c i)} = - dom (heap s)"
    using buckets_dom [OF c] by blast
  ultimately show "heap s' = Map.empty" by (auto simp: restrict_map_def fun_eq_iff)
qed simp

lemma fresh_ok:
  assumes "table s = Some (replicate TABLE_SIZE None)" and "heap s = Map.empty"
  shows "hm_ok s" and "hm_keys s = {}"
proof -
  have "buckets s (\<lambda>_. [])" using assms by (simp add: buckets_def)
  then show "hm_ok s" using assms(2) by (auto simp: hm_ok_def)
  show "hm_keys s = {}" using assms(2) by (simp add: hm_keys_def)
qed

lemma hashmap_reset_runs:
  assumes "table s = None \<and> heap s = Map.empty \<or> hm_ok s"
  shows "runs hashmap_reset (\<lambda>_ s'. hm_ok s' \<and> hm_keys s' = {} \<and> heap s' = Map.empty) s"
proof -
  have fresh: "hm_ok (s'\<lparr>table := Some (replicate TABLE_SIZE None)\<rparr>) \<and>
      hm_keys (s'\<lparr>table := Some (replicate TABLE_SIZE None)\<rparr>) = {}" if "heap s' = Map.empty" for s'
    using fresh_ok [of "s'\<lparr>table := Some (replicate TABLE_SIZE None)\<rparr>"] that by simp
  show ?thesis
  proof (cases "table s")
    case None
    then have "heap s = Map.empty" using assms hm_ok_buckets by fastforce
    then show ?thesis using None fresh by (simp add: hashmap_reset_def wp_simps)
  next
    case (Some tab)
    then obtain c where "buckets s c" using assms by (auto simp: hm_ok_def)
    from reset_frees [OF this Some] show ?thesis
      using Some fresh by (auto simp: hashmap_reset_def wp_bnd wp_gets wp_seq wp_modify elim!: wp_mono)
  qed
qed

lemma image_take_nth:
  assumes "i < length xs"
  shows "f (xs ! i) \<in> f ` set (take i xs) \<longleftrightarrow> (\<exists>j < i. f (xs ! j) = f (xs ! i))"
  unfolding nth_image [OF less_imp_le [OF assms], symmetric] by (auto simp: image_iff Bex_def)

section \<open>Components that remember values\<close>

locale seen_set =
  fixes query :: "'k \<Rightarrow> ('s, bool) comp" and ok :: "'s \<Rightarrow> bool" and members :: "'s \<Rightarrow> 'v set"
    and enc :: "'k \<Rightarrow> 'v" and legal :: "'k \<Rightarrow> bool"
  assumes query_runs: "ok s \<Longrightarrow> legal k \<Longrightarrow>
    runs (query k) (\<lambda>b s'. ok s' \<and> (b \<longleftrightarrow> enc k \<in> members s) \<and> members s' = insert (enc k) (members s)) s"
begin

lemma queries_history:
  assumes "ok s" and "\<forall>k \<in> set ks. legal k"
  shows "runs (queries query ks)
    (\<lambda>bs s'. ok s' \<and> members s' = members s \<union> enc ` set ks \<and> length bs = length ks \<and>
       (\<forall>i < length ks. bs ! i \<longleftrightarrow> enc (ks ! i) \<in> members s \<union> enc ` set (take i ks))) s"
  using assms
proof (induction ks arbitrary: s)
  case Nil
  then show ?case by (simp add: wp_simps)
next
  case (Cons k ks)
  have IH: "runs (queries query ks)
    (\<lambda>bs s'. ok s' \<and> members s' = members s1 \<union> enc ` set ks \<and> length bs = length ks \<and>
       (\<forall>i < length ks. bs ! i \<longleftrightarrow> enc (ks ! i) \<in> members s1 \<union> enc ` set (take i ks))) s1" if "ok s1" for s1
    using that Cons.IH Cons.prems(2) by simp
  show ?case
    unfolding queries.simps wp_bnd wp_ret
  proof (rule wp_mono [OF query_runs])
    fix b s1
    assume s1: "ok s1 \<and> b = (enc k \<in> members s) \<and> members s1 = insert (enc k) (members s)"
    show "runs (queries query ks) (\<lambda>bs s'. ok s' \<and> members s' = members s \<union> enc ` set (k # ks) \<and>
         length (b # bs) = length (k # ks) \<and>
         (\<forall>i < length (k # ks). (b # bs) ! i \<longleftrightarrow>
            enc ((k # ks) ! i) \<in> members s \<union> enc ` set (take i (k # ks)))) s1"
      by (rule wp_mono [OF IH]) (use s1 in \<open>auto simp: nth_Cons' take_Cons' less_Suc_eq_0_disj\<close>)
  qed (use Cons.prems in auto)
qed

lemma all_seen_runs:
  assumes "ok s" and "\<forall>k \<in> set ks. legal k"
  shows "runs (all_seen query ks)
    (\<lambda>b s'. ok s' \<and> (b \<longleftrightarrow> enc ` set ks \<subseteq> members s) \<and>
       (if b then members s' = members s
        else \<exists>k \<in> set ks. enc k \<notin> members s \<and> members s' = insert (enc k) (members s))) s"
  using assms
proof (induction ks arbitrary: s)
  case Nil
  then show ?case by (simp add: wp_simps)
next
  case (Cons k ks)
  show ?case
    unfolding all_seen.simps wp_bnd
  proof (rule wp_mono [OF query_runs])
    fix b s1
    assume s1: "ok s1 \<and> b = (enc k \<in> members s) \<and> members s1 = insert (enc k) (members s)"
    show "runs (if b then all_seen query ks else ret False)
       (\<lambda>b s'. ok s' \<and> (b \<longleftrightarrow> enc ` set (k # ks) \<subseteq> members s) \<and>
         (if b then members s' = members s
          else \<exists>k \<in> set (k # ks). enc k \<notin> members s \<and> members s' = insert (enc k) (members s))) s1"
    proof (cases b)
      case True
      then have "members s1 = members s" using s1 by auto
      with Cons.IH [of s1] Cons.prems(2) s1 True show ?thesis
        by (auto elim!: wp_mono split: if_splits)
    qed (use s1 in \<open>simp add: wp_simps\<close>)
  qed (use Cons.prems in auto)
qed

end

interpretation hm: seen_set "\<lambda>(ty, k). hashmap_search_and_add malloc ty k"
  "\<lambda>s. malloc_ok malloc \<and> hm_ok s" hm_keys "\<lambda>(ty, k). tag ty k" "\<lambda>(ty, _). ty < 8" for malloc
  by unfold_locales (auto elim!: wp_mono dest: search_and_add_runs)

section \<open>Tags\<close>

lemma tag_fields:
  assumes "ty < 8"
  shows "tag ty k = (k AND 0xf8ffffffffffffff) OR push_bit 56 (of_nat ty)" (is ?or)
    and "tag ty k AND 0xf8ffffffffffffff = k AND 0xf8ffffffffffffff" (is ?key)
    and "drop_bit 56 (tag ty k) AND 7 = of_nat ty" (is ?ty)
proof -
  have ty: "ty \<in> {0, 1, 2, 3, 4, 5, 6, 7}" using assms by auto
  have "push_bit 56 (of_nat ty) AND (0xf8ffffffffffffff :: u64) = 0"
    using ty by auto
  then have "(k AND 0xf8ffffffffffffff) AND push_bit 56 (of_nat ty) = 0"
    by (simp only: and.assoc and.commute [of "0xf8ffffffffffffff"]) simp
  then show or: ?or
    unfolding tag_def by (rule disjunctive_add_eq_or)
  show ?key
    unfolding or using ty by (auto simp: bit.conj_disj_distrib2 and.assoc)
  have "drop_bit 56 (k AND 0xf8ffffffffffffff) AND 7 = drop_bit 56 k AND (drop_bit 56 0xf8ffffffffffffff AND 7)"
    by (simp only: drop_bit_and and.assoc)
  also have "drop_bit 56 0xf8ffffffffffffff AND 7 = (0 :: u64)"
    by simp
  finally have "drop_bit 56 (k AND 0xf8ffffffffffffff) AND 7 = 0"
    by simp
  moreover have "drop_bit 56 (push_bit 56 (of_nat ty)) AND (7 :: u64) = of_nat ty"
    using ty by auto
  ultimately show ?ty
    unfolding or by (simp add: bit.conj_disj_distrib2)
qed

lemma tag_eq_iff:
  assumes "ty < 8" and "ty' < 8"
  shows "tag ty k = tag ty' k' \<longleftrightarrow> ty = ty' \<and> k AND 0xf8ffffffffffffff = k' AND 0xf8ffffffffffffff"
proof
  assume eq: "tag ty k = tag ty' k'"
  have "of_nat ty = (of_nat ty' :: u64)"
    using tag_fields(3) [OF assms(1), of k] tag_fields(3) [OF assms(2), of k'] eq by simp
  then have "ty = ty'"
    using assms by (simp add: word_unat_eq_iff take_bit_nat_eq_self unsigned_of_nat)
  then show "ty = ty' \<and> k AND 0xf8ffffffffffffff = k' AND 0xf8ffffffffffffff"
    using tag_fields(2) [OF assms(1), of k] tag_fields(2) [OF assms(2), of k'] eq by simp
qed (simp add: tag_def)

lemma cmp_operands_seen_runs:
  assumes "malloc_ok malloc" and "hm_ok s" and "1 \<le> hshape" and "hshape \<le> 8"
  shows "runs (cmp_operands_seen malloc hshape v0 orig_v0 v1 orig_v1)
     (\<lambda>b s'. hm_ok s' \<and> (b \<longleftrightarrow> tag (hshape - 1) ` {v0, orig_v0, v1, orig_v1} \<subseteq> hm_keys s)) s"
proof -
  have ty: "u32_sub hshape 1 mod 256 = hshape - 1"
    using assms(3,4) by (simp add: u32_sub_exact)
  have "runs (all_seen (\<lambda>(ty, k). hashmap_search_and_add malloc ty k)
      (map (Pair (hshape - 1)) [v0, orig_v0, v1, orig_v1]))
     (\<lambda>b s'. hm_ok s' \<and> (b \<longleftrightarrow> tag (hshape - 1) ` {v0, orig_v0, v1, orig_v1} \<subseteq> hm_keys s)) s"
    by (rule wp_mono [OF hm.all_seen_runs]) (use assms in auto)
  then show ?thesis
    unfolding cmp_operands_seen_def ty Let_def if_P [OF assms(4)] by (simp only: list.map)
qed

text \<open>
  \<open>hashmap_search_and_add_ptr\<close> copies the operand to a small offset from address \<open>0\<close>, since it casts
  the value of \<open>key_t\<close> instead of taking its address: every call with a legal type is an invalid access.
\<close>

lemma search_and_add_ptr_faults:
  "ty < 8 \<Longrightarrow> hashmap_search_and_add_ptr malloc ty k s = Some (Inl Out_of_bounds)"
  by (simp add: hashmap_search_and_add_ptr_def memcpy_null_def seq_def bnd_def chk_def)

lemma sample_malloc_ok: "malloc_ok sample_malloc"
  unfolding malloc_ok_def
proof (intro allI impI)
  fix h :: "nat \<Rightarrow> hash_node option"
  assume fin: "finite (dom h)"
  have "Suc (Max (insert 0 (dom h))) \<notin> dom h"
  proof
    assume "Suc (Max (insert 0 (dom h))) \<in> dom h"
    then have "Suc (Max (insert 0 (dom h))) \<le> Max (insert 0 (dom h))"
      using fin by (intro Max_ge) simp_all
    then show False by simp
  qed
  then show "\<exists>a. sample_malloc h = Some a \<and> h a = None"
    using fin by (auto simp: sample_malloc_def)
qed

section \<open>Properties\<close>




text \<open>
  C15. The answers of a run of the CmpLog stage. From the start of the program or from any well-formed
  table, \<open>hashmap_reset\<close> and a sequence of calls of \<open>hashmap_search_and_add\<close> return, and the answer to
  a call is \<open>true\<close> exactly if an earlier call of the sequence had the same type and the same operand
  outside of bits 56 to 58. Operands of up to seven bytes are therefore told apart exactly; of two
  eight-byte operands that differ in these three bits only, the second is reported as seen.
\<close>

theorem hashmap_remembers_operands:
  assumes "malloc_ok malloc" and "table s = None \<and> heap s = Map.empty \<or> hm_ok s"
    and "\<forall>(ty, k) \<in> set calls. ty < 8"
  shows "runs (seq hashmap_reset (queries (\<lambda>(ty, k). hashmap_search_and_add malloc ty k) calls))
    (\<lambda>answers s'. hm_ok s' \<and> length answers = length calls \<and>
       (\<forall>i < length calls. answers ! i \<longleftrightarrow>
          (\<exists>j < i. fst (calls ! j) = fst (calls ! i) \<and>
             snd (calls ! j) AND 0xf8ffffffffffffff = snd (calls ! i) AND 0xf8ffffffffffffff))) s"
proof -
  have legal: "fst (calls ! i) < 8" if "i < length calls" for i
    using assms(3) nth_mem [OF that] by force
  have earlier: "(case calls ! i of (ty, k) \<Rightarrow> tag ty k) \<in> (\<lambda>(ty, k). tag ty k) ` set (take i calls) \<longleftrightarrow>
      (\<exists>j < i. fst (calls ! j) = fst (calls ! i) \<and>
         snd (calls ! j) AND 0xf8ffffffffffffff = snd (calls ! i) AND 0xf8ffffffffffffff)"
    if "i < length calls" for i
  proof -
    have "(case calls ! i of (ty, k) \<Rightarrow> tag ty k) \<in> (\<lambda>(ty, k). tag ty k) ` set (take i calls) \<longleftrightarrow>
        (\<exists>j < i. tag (fst (calls ! j)) (snd (calls ! j)) = tag (fst (calls ! i)) (snd (calls ! i)))"
      using image_take_nth [OF that, of "\<lambda>(ty, k). tag ty k"] by (simp only: split_beta)
    then show ?thesis
      using legal that by (auto simp: tag_eq_iff)
  qed
  show ?thesis
    unfolding wp_seq
  proof (rule wp_mono [OF hashmap_reset_runs [OF assms(2)]])
    fix s1
    assume s1: "hm_ok s1 \<and> hm_keys s1 = {} \<and> heap s1 = Map.empty"
    show "runs (queries (\<lambda>(ty, k). hashmap_search_and_add malloc ty k) calls)
       (\<lambda>answers s'. hm_ok s' \<and> length answers = length calls \<and>
         (\<forall>i < length calls. answers ! i \<longleftrightarrow>
            (\<exists>j < i. fst (calls ! j) = fst (calls ! i) \<and>
               snd (calls ! j) AND 0xf8ffffffffffffff = snd (calls ! i) AND 0xf8ffffffffffffff))) s1"
      by (rule wp_mono [OF hm.queries_history [of malloc]]) (use assms(1,3) s1 in \<open>simp_all add: earlier\<close>)
  qed
qed

theorem hashmap_remembers_operands_witness:
  "runs (seq hashmap_reset (queries (\<lambda>(ty, k). hashmap_search_and_add sample_malloc ty k)
       [(3, 42), (3, 42), (7, 0), (7, 0x0100000000000000)]))
     (\<lambda>answers _. answers = [False, True, False, True]) \<lparr>table = None, heap = Map.empty\<rparr>"
proof (rule wp_mono [OF hashmap_remembers_operands [OF sample_malloc_ok]])
  let ?calls = "[(3, 42), (3, 42), (7, 0), (7, 0x0100000000000000)] :: (nat \<times> u64) list"
  fix answers :: "bool list" and s'
  assume *: "hm_ok s' \<and> length answers = length ?calls \<and>
     (\<forall>i < length ?calls. answers ! i \<longleftrightarrow>
        (\<exists>j < i. fst (?calls ! j) = fst (?calls ! i) \<and>
           snd (?calls ! j) AND 0xf8ffffffffffffff = snd (?calls ! i) AND 0xf8ffffffffffffff))"
  then obtain a b c d where answers: "answers = [a, b, c, d]"
    by (auto simp: length_Suc_conv)
  have ex: "(\<exists>j < 1. P j) \<longleftrightarrow> P 0" "(\<exists>j < 2. P j) \<longleftrightarrow> P 0 \<or> P 1" "(\<exists>j < 3. P j) \<longleftrightarrow> P 0 \<or> P 1 \<or> P 2"
    for P :: "nat \<Rightarrow> bool"
    by (auto simp: less_Suc_eq numeral_2_eq_2 numeral_3_eq_3)
  have at: "answers ! i \<longleftrightarrow> (\<exists>j < i. fst (?calls ! j) = fst (?calls ! i) \<and>
      snd (?calls ! j) AND 0xf8ffffffffffffff = snd (?calls ! i) AND 0xf8ffffffffffffff)" if "i < 4" for i
    using * that by simp
  have "\<not> a" using at [of 0] by (simp add: answers)
  moreover have "b" using at [of 1] unfolding ex by (simp add: answers)
  moreover have "\<not> c" using at [of 2] unfolding ex by (simp add: answers)
  moreover have "d" using at [of 3] unfolding ex by (simp add: answers)
  ultimately show "answers = [False, True, False, True]"
    by (simp add: answers)
qed auto

end
