(* ===== verification/AFL_Text.thy ===== *)
theory AFL_Text
  imports AFL_Types
begin

text \<open>
  The detection of text in \<open>src/afl-fuzz-queue.c\<close>: \<open>check_if_text_buf\<close> counts the ASCII bytes and the
  UTF-8 characters of a buffer, \<open>check_if_text\<close> classifies the file of a queue entry.

  \<^item> The conditions of the source are evaluated from left to right and stop early, so every byte is
    read exactly when the source reads it; a read outside of the buffer is a fault.
  \<^item> \<open>utf8_encode\<close> is the encoding of the Unicode standard, written independently of the source; the
    lemmas show that the loop recognizes exactly one character per code point.
\<close>

section \<open>Definitions\<close>

definition AFL_TXT_MIN_LEN :: nat where "AFL_TXT_MIN_LEN = 12"
definition AFL_TXT_MAX_LEN :: nat where "AFL_TXT_MAX_LEN = 65535"
definition AFL_TXT_MIN_PERCENT :: nat where "AFL_TXT_MIN_PERCENT = 99"

text \<open>\<open>lo <= buf[i] && buf[i] <= hi\<close>, and the operators that stop early.\<close>

definition between :: "bytes \<Rightarrow> nat \<Rightarrow> u8 \<Rightarrow> u8 \<Rightarrow> fault + bool" where
  "between mem i lo hi = fbind (load mem i) (\<lambda>x. Inr (lo \<le> x \<and> x \<le> hi))"

definition and_then :: "fault + bool \<Rightarrow> fault + bool \<Rightarrow> fault + bool" where
  "and_then p q = fbind p (\<lambda>x. if x then q else Inr False)"

definition or_else :: "fault + bool \<Rightarrow> fault + bool \<Rightarrow> fault + bool" where
  "or_else p q = fbind p (\<lambda>x. if x then Inr True else q)"

definition text_byte :: "bytes \<Rightarrow> nat \<Rightarrow> fault + bool" where
  "text_byte mem i =
     fbind (load mem i) (\<lambda>x. Inr (x = 0x09 \<or> x = 0x0A \<or> x = 0x0D \<or> 0x20 \<le> x \<and> x \<le> 0x7E))"

text \<open>\<open>isascii (buf[i]) || isprint (buf[i])\<close> in the C locale.\<close>

definition ascii_byte :: "bytes \<Rightarrow> nat \<Rightarrow> fault + bool" where
  "ascii_byte mem i = fbind (load mem i) (\<lambda>x. Inr (x < 0x80 \<or> 0x20 \<le> x \<and> x \<le> 0x7E))"

definition two_bytes :: "bytes \<Rightarrow> nat \<Rightarrow> fault + bool" where
  "two_bytes mem i = and_then (between mem i 0xC2 0xDF) (between mem (i + 1) 0x80 0xBF)"

definition three_bytes :: "bytes \<Rightarrow> nat \<Rightarrow> fault + bool" where
  "three_bytes mem i =
     or_else
       (and_then (between mem i 0xE0 0xE0)
         (and_then (between mem (i + 1) 0xA0 0xBF) (between mem (i + 2) 0x80 0xBF)))
     (or_else
       (and_then (or_else (between mem i 0xE1 0xEC) (or_else (between mem i 0xEE 0xEE) (between mem i 0xEF 0xEF)))
         (and_then (between mem (i + 1) 0x80 0xBF) (between mem (i + 2) 0x80 0xBF)))
       (and_then (between mem i 0xED 0xED)
         (and_then (between mem (i + 1) 0x80 0x9F) (between mem (i + 2) 0x80 0xBF))))"

definition four_bytes :: "bytes \<Rightarrow> nat \<Rightarrow> fault + bool" where
  "four_bytes mem i =
     or_else
       (and_then (between mem i 0xF0 0xF0) (and_then (between mem (i + 1) 0x90 0xBF)
         (and_then (between mem (i + 2) 0x80 0xBF) (between mem (i + 3) 0x80 0xBF))))
     (or_else
       (and_then (between mem i 0xF1 0xF3) (and_then (between mem (i + 1) 0x80 0xBF)
         (and_then (between mem (i + 2) 0x80 0xBF) (between mem (i + 3) 0x80 0xBF))))
       (and_then (between mem i 0xF4 0xF4) (and_then (between mem (i + 1) 0x80 0x8F)
         (and_then (between mem (i + 2) 0x80 0xBF) (between mem (i + 3) 0x80 0xBF)))))"

text \<open>The length of the multi-byte character at an offset, or \<open>0\<close>.\<close>

definition multi_byte :: "bytes \<Rightarrow> nat \<Rightarrow> nat \<Rightarrow> fault + nat" where
  "multi_byte mem len i =
     fbind (if len - i > 1 then two_bytes mem i else Inr False) (\<lambda>b2. if b2 then Inr 2 else
     fbind (if len - i > 2 then three_bytes mem i else Inr False) (\<lambda>b3. if b3 then Inr 3 else
     fbind (if len - i > 3 then four_bytes mem i else Inr False) (\<lambda>b4. if b4 then Inr 4 else Inr 0)))"

text \<open>The loop both functions have; its variables are \<open>offset\<close>, \<open>ascii\<close>, \<open>utf8\<close> and \<open>comp\<close>.\<close>

function text_loop :: "bytes \<Rightarrow> nat \<Rightarrow> nat \<Rightarrow> nat \<Rightarrow> nat \<Rightarrow> int \<Rightarrow> fault + nat \<times> nat \<times> int" where
  "text_loop mem len i ascii utf8 cmp =
     (if i < len then
        fbind (text_byte mem i) (\<lambda>txt.
        if txt then text_loop mem len (i + 1) (u32_add ascii 1) (u32_add utf8 1) cmp
        else
          fbind (ascii_byte mem i) (\<lambda>asc.
          let ascii = (if asc then u32_add ascii 1 else ascii) in
          fbind (multi_byte mem len i) (\<lambda>n.
          if n = 0 then text_loop mem len (i + 1) ascii utf8 cmp
          else text_loop mem len (i + n) ascii (u32_add utf8 1) (cmp - int (n - 1)))))
      else Inr (ascii, utf8, cmp))"
  by pat_completeness auto
termination by (relation "measure (\<lambda>(mem, len, i, ascii, utf8, cmp). len - i)") auto

definition check_if_text_buf :: "bytes \<Rightarrow> nat \<Rightarrow> fault + nat" where
  "check_if_text_buf mem len =
     fbind (text_loop mem len 0 0 0 0) (\<lambda>(ascii, utf8, _). Inr (if utf8 > ascii then utf8 else ascii))"

text \<open>
  \<open>read_file\<close> is the content \<open>open\<close> and \<open>read\<close> give, if the file can be opened. The buffer has one
  byte more than was read, for the final zero.
\<close>

definition check_if_text :: "(string \<Rightarrow> bytes option) \<Rightarrow> string \<Rightarrow> nat \<Rightarrow> fault + nat" where
  "check_if_text read_file fname q_len =
     (if q_len < AFL_TXT_MIN_LEN \<or> q_len > AFL_TXT_MAX_LEN then Inr 0
      else
        let len = (if q_len \<ge> MAX_FILE then MAX_FILE - 1 else q_len) in
        case read_file fname of
          None \<Rightarrow> Inr 0
        | Some content \<Rightarrow>
            let got = take len content in
            if length got \<noteq> len then Inr 0
            else
              fbind (text_loop (got @ [0]) len 0 0 0 (int len)) (\<lambda>(ascii, utf8, cmp).
              let percent_utf8 = utf8 * 100 mod 2 ^ 32 div (if cmp > 0 then nat cmp else 1);
                  percent_ascii = ascii * 100 mod 2 ^ 32 div len
              in
              if percent_utf8 \<ge> percent_ascii \<and> percent_utf8 \<ge> AFL_TXT_MIN_PERCENT then Inr 2
              else if percent_ascii \<ge> AFL_TXT_MIN_PERCENT then Inr 1 else Inr 0))"

section \<open>UTF-8\<close>

definition utf8_encode :: "nat \<Rightarrow> nat list" where
  "utf8_encode c =
     (if c < 0x80 then [c]
      else if c < 0x800 then [0xC0 + c div 64, 0x80 + c mod 64]
      else if c < 0x10000 then [0xE0 + c div 4096, 0x80 + c div 64 mod 64, 0x80 + c mod 64]
      else [0xF0 + c div 262144, 0x80 + c div 4096 mod 64, 0x80 + c div 64 mod 64, 0x80 + c mod 64])"

definition text_point :: "nat \<Rightarrow> bool" where
  "text_point c \<longleftrightarrow> c \<in> {0x09, 0x0A, 0x0D} \<or> 0x20 \<le> c \<and> c \<le> 0x7E \<or>
     0x80 \<le> c \<and> c \<le> 0x10FFFF \<and> \<not> (0xD800 \<le> c \<and> c \<le> 0xDFFF)"

definition utf8_text :: "nat list \<Rightarrow> bytes" where
  "utf8_text cs = map of_nat (concat (map utf8_encode cs))"

section \<open>The loop\<close>

declare text_loop.simps [simp del]

lemma between_ok [simp]: "i < length mem \<Longrightarrow> between mem i lo hi = Inr (lo \<le> mem ! i \<and> mem ! i \<le> hi)"
  by (simp add: between_def load_def)

lemma early_ok [simp]:
  "and_then (Inr a) (Inr b) = Inr (a \<and> b)" "or_else (Inr a) (Inr b) = Inr (a \<or> b)"
  by (simp_all add: and_then_def or_else_def)

lemma text_byte_ok [simp]:
  "i < length mem \<Longrightarrow>
   text_byte mem i = Inr (mem ! i = 0x09 \<or> mem ! i = 0x0A \<or> mem ! i = 0x0D \<or> 0x20 \<le> mem ! i \<and> mem ! i \<le> 0x7E)"
  by (simp add: text_byte_def load_def)

lemma ascii_byte_ok [simp]: "i < length mem \<Longrightarrow> ascii_byte mem i = Inr (mem ! i < 0x80)"
  by (auto simp: ascii_byte_def load_def intro: order.strict_trans1)

lemma multi_byte_ok:
  assumes "i < len" and "len \<le> length mem"
  shows "\<exists>n. multi_byte mem len i = Inr n \<and> n \<noteq> 1 \<and> n \<le> 4 \<and> i + n \<le> len"
proof -
  define b2 b3 b4 where "b2 = (len - i > 1 \<and> two_bytes mem i = Inr True)"
    and "b3 = (len - i > 2 \<and> three_bytes mem i = Inr True)"
    and "b4 = (len - i > 3 \<and> four_bytes mem i = Inr True)"
  have "(if len - i > 1 then two_bytes mem i else Inr False) = Inr b2"
    and "(if len - i > 2 then three_bytes mem i else Inr False) = Inr b3"
    and "(if len - i > 3 then four_bytes mem i else Inr False) = Inr b4"
    using assms by (auto simp: two_bytes_def three_bytes_def four_bytes_def b2_def b3_def b4_def)
  then have "multi_byte mem len i = Inr (if b2 then 2 else if b3 then 3 else if b4 then 4 else 0)"
    by (simp add: multi_byte_def)
  then show ?thesis using assms(1) by (auto simp: b2_def b3_def b4_def)
qed

text \<open>The loop returns, and counts at most one character and one ASCII byte per offset.\<close>

lemma text_loop_returns:
  assumes "len \<le> length mem" and "len < 2 ^ 32" and "i \<le> len" and "a \<le> i" and "u \<le> i"
  shows "\<exists>a' u' c'. text_loop mem len i a u c = Inr (a', u', c') \<and> a' \<le> len \<and> u' \<le> len"
  using assms(3-5)
proof (induction "len - i" arbitrary: i a u c rule: less_induct)
  case less
  show ?case
  proof (cases "i < len")
    case False
    then show ?thesis using less.prems by (subst text_loop.simps) simp
  next
    case True
    have wrap: "u32_add a 1 = a + 1" "u32_add u 1 = u + 1"
      using less.prems assms(2) True u32_add_exact [of a 1] u32_add_exact [of u 1] by linarith+
    obtain n where n: "multi_byte mem len i = Inr n" "i + n \<le> len"
      using multi_byte_ok [OF True assms(1)] by blast
    define x where "x = (if mem ! i < 0x80 then a + 1 else a)"
    have x: "x \<le> i + 1" using less.prems by (simp add: x_def)
    define P where "P r \<longleftrightarrow> (\<exists>a' u' c'. r = Inr (a', u', c') \<and> a' \<le> len \<and> u' \<le> len)"
      for r :: "fault + nat \<times> nat \<times> int"
    have IH: "P (text_loop mem len j b v d)" if "i < j" "j \<le> len" "b \<le> j" "v \<le> j" for j b v d
      unfolding P_def using less.hyps [of j b v d] that True by simp
    have asc: "(if b then u32_add a 1 else a) = (if b then a + 1 else a)" for b using wrap by simp
    have il: "i < length mem" using True assms(1) by simp
    show ?thesis
      unfolding text_loop.simps [of mem len i] text_byte_ok [OF il] ascii_byte_ok [OF il] n(1) fbind_simps Let_def asc
        x_def [symmetric] wrap P_def [symmetric]
      using True less.prems n(2) x by (auto intro!: IH simp del: One_nat_def)
  qed
qed

section \<open>Characters\<close>

text \<open>Comparison of a byte given by its value with the constants of the source.\<close>

lemma byte_le [simp]:
  "n < 256 \<Longrightarrow> ((numeral k :: u8) \<le> of_nat n) = (unat (numeral k :: u8) \<le> n)"
  "n < 256 \<Longrightarrow> ((of_nat n :: u8) \<le> numeral k) = (n \<le> unat (numeral k :: u8))"
  "n < 256 \<Longrightarrow> ((of_nat n :: u8) < numeral k) = (n < unat (numeral k :: u8))"
  "n < 256 \<Longrightarrow> ((of_nat n :: u8) = numeral k) = (n = unat (numeral k :: u8))"
  by (simp_all add: word_le_nat_alt word_less_nat_alt word_unat_eq_iff unat_of_nat)

lemma utf8_encode_bytes: "text_point c \<Longrightarrow> b \<in> set (utf8_encode c) \<Longrightarrow> b < 256"
  by (auto simp: text_point_def utf8_encode_def split: if_splits)

text \<open>What one round of the loop does at a multi-byte character.\<close>

lemma text_loop_multi:
  assumes "mem ! i = of_nat b" and "0x80 \<le> b" and "b < 256" and "multi_byte mem len i = Inr n" and "0 < n"
    and "i < len" and "len \<le> length mem"
  shows "text_loop mem len i a u k = text_loop mem len (i + n) a (u32_add u 1) (k - int (n - 1))"
  using assms by (subst text_loop.simps) (simp add: Let_def)

lemma multi_byte_2:
  assumes "mem ! i = of_nat b0" "mem ! (i + 1) = of_nat b1" and "i + 2 \<le> len" "len \<le> length mem"
    and "0xC2 \<le> b0" "b0 \<le> 0xDF" "0x80 \<le> b1" "b1 \<le> 0xBF"
  shows "multi_byte mem len i = Inr 2"
  using assms by (simp add: multi_byte_def two_bytes_def)

lemma multi_byte_3:
  assumes "mem ! i = of_nat b0" "mem ! (i + 1) = of_nat b1" "mem ! (i + 2) = of_nat b2"
    and "i + 3 \<le> len" "len \<le> length mem"
    and "0xE0 \<le> b0" "b0 \<le> 0xEF" "0x80 \<le> b1" "b1 \<le> 0xBF" "0x80 \<le> b2" "b2 \<le> 0xBF"
    and "b0 = 0xE0 \<longrightarrow> 0xA0 \<le> b1" "b0 = 0xED \<longrightarrow> b1 \<le> 0x9F"
  shows "multi_byte mem len i = Inr 3"
proof -
  have "two_bytes mem i = Inr False"
    using assms by (simp add: two_bytes_def)
  moreover have "three_bytes mem i = Inr True"
    using assms by (auto simp: three_bytes_def)
  ultimately show ?thesis using assms(4) by (simp add: multi_byte_def)
qed

lemma multi_byte_4:
  assumes "mem ! i = of_nat b0" "mem ! (i + 1) = of_nat b1" "mem ! (i + 2) = of_nat b2" "mem ! (i + 3) = of_nat b3"
    and "i + 4 \<le> len" "len \<le> length mem"
    and "0xF0 \<le> b0" "b0 \<le> 0xF4" "0x80 \<le> b1" "b1 \<le> 0xBF" "0x80 \<le> b2" "b2 \<le> 0xBF" "0x80 \<le> b3" "b3 \<le> 0xBF"
    and "b0 = 0xF0 \<longrightarrow> 0x90 \<le> b1" "b0 = 0xF4 \<longrightarrow> b1 \<le> 0x8F"
  shows "multi_byte mem len i = Inr 4"
proof -
  have "two_bytes mem i = Inr False" and "three_bytes mem i = Inr False"
    using assms by (simp_all add: two_bytes_def three_bytes_def)
  moreover have "four_bytes mem i = Inr True"
    using assms by (auto simp: four_bytes_def)
  ultimately show ?thesis using assms(5) by (simp add: multi_byte_def)
qed

lemma nth_middle:
  "mem = xs @ map of_nat bs @ ys \<Longrightarrow> j < length bs \<Longrightarrow> mem ! (length xs + j) = of_nat (bs ! j)"
  by (simp add: nth_append)

lemma multi_byte_point:
  assumes c: "text_point c" "0x80 \<le> c" and mem: "mem = xs @ map of_nat (utf8_encode c) @ ys"
    and len: "length xs + length (utf8_encode c) \<le> len" "len \<le> length mem"
  shows "multi_byte mem len (length xs) = Inr (length (utf8_encode c))"
proof -
  note nth = nth_middle [OF mem]
  have mod64: "d mod 64 \<le> 63" for d :: nat using mod_less_divisor [of 64 d] by linarith
  consider "c < 0x800" | "0x800 \<le> c" "c < 0x10000" | "0x10000 \<le> c" "c \<le> 0x10FFFF"
    using c by (force simp: text_point_def)
  then show ?thesis
  proof cases
    case 1
    then have e: "utf8_encode c = [0xC0 + c div 64, 0x80 + c mod 64]" using c(2) by (simp add: utf8_encode_def)
    have "2 \<le> c div 64" "c div 64 \<le> 31" "c mod 64 \<le> 63" using 1 c(2) mod64 [of c] by auto
    then show ?thesis
      using multi_byte_2 [of mem "length xs" "0xC0 + c div 64" "0x80 + c mod 64"] nth [of 0] nth [of 1] len e by (simp add: numeral_2_eq_2 numeral_3_eq_3)
  next
    case 2
    then have e: "utf8_encode c = [0xE0 + c div 4096, 0x80 + c div 64 mod 64, 0x80 + c mod 64]"
      by (simp add: utf8_encode_def)
    have "c div 4096 \<le> 15" "c mod 64 \<le> 63" "c div 64 mod 64 \<le> 63"
      using 2 mod64 [of c] mod64 [of "c div 64"] by auto
    moreover have "c div 4096 = 0 \<longrightarrow> 32 \<le> c div 64 mod 64"
      using 2 by auto
    moreover have "c div 4096 = 13 \<longrightarrow> c div 64 mod 64 \<le> 31"
    proof
      assume that: "c div 4096 = 13"
      have "c < 0xD800" using c that by (auto simp: text_point_def)
      then have "c div 64 < 864" by simp
      moreover have "c div 64 div 64 = 13" using that by (simp add: div_mult2_eq [symmetric])
      ultimately show "c div 64 mod 64 \<le> 31" using div_mult_mod_eq [of "c div 64" 64] by linarith
    qed
    ultimately show ?thesis
      using multi_byte_3 [of mem "length xs" "0xE0 + c div 4096" "0x80 + c div 64 mod 64" "0x80 + c mod 64"] nth [of 0] nth [of 1] nth [of 2] len e by (simp add: numeral_2_eq_2 numeral_3_eq_3)
  next
    case 3
    then have e: "utf8_encode c =
        [0xF0 + c div 262144, 0x80 + c div 4096 mod 64, 0x80 + c div 64 mod 64, 0x80 + c mod 64]"
      by (simp add: utf8_encode_def)
    have "c div 262144 \<le> 4" "c mod 64 \<le> 63" "c div 64 mod 64 \<le> 63" "c div 4096 mod 64 \<le> 63"
      using 3 mod64 [of c] mod64 [of "c div 64"] mod64 [of "c div 4096"] by auto
    moreover have "c div 262144 = 0 \<longrightarrow> 16 \<le> c div 4096 mod 64"
      using 3 by auto
    moreover have "c div 262144 = 4 \<longrightarrow> c div 4096 mod 64 \<le> 15"
    proof
      assume "c div 262144 = 4"
      then have "c div 4096 div 64 = 4" by (simp add: div_mult2_eq [symmetric])
      moreover have "c div 4096 \<le> 271" using 3(2) by simp
      ultimately show "c div 4096 mod 64 \<le> 15" using div_mult_mod_eq [of "c div 4096" 64] by linarith
    qed
    ultimately show ?thesis
      using multi_byte_4 [of mem "length xs" "0xF0 + c div 262144" "0x80 + c div 4096 mod 64" "0x80 + c div 64 mod 64" "0x80 + c mod 64"] nth [of 0] nth [of 1] nth [of 2] nth [of 3] len e by (simp add: numeral_2_eq_2 numeral_3_eq_3)
  qed
qed

lemma text_loop_point:
  assumes c: "text_point c" and mem: "mem = xs @ map of_nat (utf8_encode c) @ ys"
    and len: "length xs + length (utf8_encode c) \<le> len" "len \<le> length mem"
  shows "text_loop mem len (length xs) a u k =
     text_loop mem len (length xs + length (utf8_encode c)) (if c < 0x80 then u32_add a 1 else a) (u32_add u 1)
       (k - int (length (utf8_encode c) - 1))"
proof (cases "c < 0x80")
  case True
  then have e: "utf8_encode c = [c]" by (simp add: utf8_encode_def)
  have "mem ! length xs = of_nat c" using nth_middle [OF mem, of 0] by (simp add: e)
  moreover have "c \<in> {0x09, 0x0A, 0x0D} \<or> 0x20 \<le> c \<and> c \<le> 0x7E" using c True by (auto simp: text_point_def)
  ultimately show ?thesis
    using True len by (subst text_loop.simps) (auto simp: e)
next
  case False
  have "0 < length (utf8_encode c)" by (simp add: utf8_encode_def)
  moreover have "mem ! length xs = of_nat (utf8_encode c ! 0)"
    using nth_middle [OF mem, of 0] \<open>0 < length (utf8_encode c)\<close> by simp
  moreover have "utf8_encode c ! 0 < 256"
    using utf8_encode_bytes [OF c] \<open>0 < length (utf8_encode c)\<close> by simp
  moreover have "0x80 \<le> utf8_encode c ! 0" using False by (simp add: utf8_encode_def)
  moreover have "length xs < len" using len(1) \<open>0 < length (utf8_encode c)\<close> by linarith
  ultimately show ?thesis
    using False len
      text_loop_multi [OF _ _ _ multi_byte_point [OF c _ mem len], of "utf8_encode c ! 0" a u k] by simp
qed

lemma text_loop_text:
  assumes "\<forall>c \<in> set cs. text_point c" and mem: "mem = xs @ utf8_text cs @ ys"
    and "len = length xs + length (utf8_text cs)" and "len < 2 ^ 32" and "a \<le> length xs" and "u \<le> length xs"
  shows "text_loop mem len (length xs) a u k =
     Inr (a + length (filter (\<lambda>c. c < 0x80) cs), u + length cs, k - int (length (utf8_text cs) - length cs))"
  using assms
proof (induction cs arbitrary: xs a u k)
  case Nil
  then show ?case by (subst text_loop.simps) (simp add: utf8_text_def)
next
  case (Cons c cs)
  let ?e = "utf8_encode c" and ?xs = "xs @ map of_nat (utf8_encode c)"
  have e: "1 \<le> length ?e" by (simp add: utf8_encode_def)
  have enc: "utf8_text (c # cs) = map of_nat ?e @ utf8_text cs" by (simp add: utf8_text_def)
  have le: "length cs \<le> length (utf8_text cs)"
    by (induction cs) (auto simp: utf8_text_def utf8_encode_def)
  have bound: "length xs + 1 < 2 ^ 32" using Cons.prems(3,4) e by (simp add: enc)
  have wrap: "u32_add u 1 = u + 1" "u32_add a 1 = a + 1"
    using u32_add_exact [of u 1] u32_add_exact [of a 1] bound Cons.prems(5,6) by linarith+
  have "text_loop mem len (length xs) a u k = text_loop mem len (length xs + length ?e)
      (if c < 0x80 then a + 1 else a) (u + 1) (k - int (length ?e - 1))"
    unfolding wrap [symmetric]
    by (rule text_loop_point [where ys = "utf8_text cs @ ys"]) (use Cons.prems in \<open>auto simp: enc\<close>)
  also have "length xs + length ?e = length ?xs" by simp
  also have "text_loop mem len (length ?xs) (if c < 0x80 then a + 1 else a) (u + 1) (k - int (length ?e - 1)) =
     Inr ((if c < 0x80 then a + 1 else a) + length (filter (\<lambda>c. c < 0x80) cs), u + 1 + length cs,
       k - int (length ?e - 1) - int (length (utf8_text cs) - length cs))"
    by (rule Cons.IH) (use Cons.prems e in \<open>auto simp: enc\<close>)
  finally show ?case
    using e le by (auto simp: enc)
qed

section \<open>Properties\<close>

text \<open>
  C10. Text detection is exact on UTF-8 text. For every sequence of code points that are printable
  ASCII, tab, line feed, carriage return or any other Unicode scalar value from U+0080 on,
  \<open>check_if_text_buf\<close> on their UTF-8 encoding returns the number of code points; and a file with this
  content, of a length between the two limits, is classified as UTF-8. On every other buffer the
  function returns too, reads no byte outside of it and gives a number of at most its length.
\<close>

theorem text_detection_correct:
  assumes "len \<le> length mem" and "len < 2 ^ 32" and "\<forall>c \<in> set cs. text_point c"
    and "AFL_TXT_MIN_LEN \<le> length (utf8_text cs)" and "length (utf8_text cs) \<le> AFL_TXT_MAX_LEN"
  shows "(\<exists>n \<le> len. check_if_text_buf mem len = Inr n) \<and>
    check_if_text_buf (utf8_text cs) (length (utf8_text cs)) = Inr (length cs) \<and>
    (read_file fname = Some (utf8_text cs) \<longrightarrow> check_if_text read_file fname (length (utf8_text cs)) = Inr 2)"
proof -
  let ?n = "length (utf8_text cs)" and ?a = "length (filter (\<lambda>c. c < 0x80) cs)"
  have small: "?n < 2 ^ 32" "?n < MAX_FILE" using assms(5) by (simp_all add: AFL_TXT_MAX_LEN_def MAX_FILE_def)
  have loop: "text_loop (utf8_text cs @ ys) ?n 0 0 0 k = Inr (?a, length cs, k - int (?n - length cs))" for ys k
    using text_loop_text [OF assms(3), of _ "[]" ys ?n 0 0 k] small(1) by simp
  have le: "length cs \<le> ?n"
    by (induction cs) (auto simp: utf8_text_def utf8_encode_def)
  have pos: "cs \<noteq> []" using assms(4) by (auto simp: utf8_text_def AFL_TXT_MIN_LEN_def)
  have asc: "?a \<le> length cs" by (rule length_filter_le)
  then have ac: "?a \<le> 65535" using le assms(5) unfolding AFL_TXT_MAX_LEN_def by linarith
  have pc: "length cs * 100 mod 4294967296 = length cs * 100" "?a * 100 mod 4294967296 = ?a * 100"
    using le ac assms(5) by (simp_all add: AFL_TXT_MAX_LEN_def)
  have chars: "int ?n - int (?n - length cs) = int (length cs)" using le by simp
  have "?a * 100 div ?n \<le> 100"
    using order.trans [OF asc le] div_le_mono [of "?a * 100" "100 * ?n" ?n] by (cases "?n = 0") simp_all
  then have "read_file fname = Some (utf8_text cs) \<Longrightarrow> check_if_text read_file fname ?n = Inr 2"
    using assms(4,5) small(2) loop [of "[0]" "int ?n"] pos
    by (simp add: check_if_text_def Let_def chars pc AFL_TXT_MIN_PERCENT_def)
  moreover have "check_if_text_buf (utf8_text cs) ?n = Inr (length cs)"
    using loop [of "[]" 0] asc by (simp add: check_if_text_buf_def del: length_filter_le)
  moreover have "\<exists>n \<le> len. check_if_text_buf mem len = Inr n"
    using text_loop_returns [OF assms(1,2), of 0 0 0 0] by (auto simp: check_if_text_buf_def)
  ultimately show ?thesis by blast
qed

theorem text_detection_correct_witness:
  "check_if_text (\<lambda>_. Some (utf8_text [0x41, 0xE9, 0x20AC, 0x1F600, 0x42, 0x43, 0x0A])) ''seed'' 13 = Inr 2"
proof -
  have len: "length (utf8_text [0x41, 0xE9, 0x20AC, 0x1F600, 0x42, 0x43, 0x0A]) = 13"
    by (simp add: utf8_text_def utf8_encode_def)
  show ?thesis
    using text_detection_correct [of 0 "[]" "[0x41, 0xE9, 0x20AC, 0x1F600, 0x42, 0x43, 0x0A]"
        "\<lambda>_. Some (utf8_text [0x41, 0xE9, 0x20AC, 0x1F600, 0x42, 0x43, 0x0A])" "''seed''"]
    unfolding len by (simp add: text_point_def AFL_TXT_MIN_LEN_def AFL_TXT_MAX_LEN_def)
qed

end
