(* ===== verification/AFL_Queue.thy ===== *)
theory AFL_Queue
  imports AFL_Hoare AFL_Coverage AFL_Alloc AFL_Text
begin

text \<open>
  The queue of test cases, from \<open>src/afl-fuzz-queue.c\<close>: the data, all operations, and the contest of the
  entries for the indices of the coverage map.

  \<^item> \<open>queue_buf\<close> holds the entries; a \<open>struct queue_entry *\<close> is an index into it. \<open>top_rated\<close> has for
    every map index the entry that won it.
  \<^item> \<open>add_to_queue\<close> appends an entry, \<open>update_bitmap_score\<close> lets an entry compete for the map indices
    its trace hits, \<open>cull_queue\<close> marks a set of winners as favored, \<open>recalculate_all_scores\<close> repeats
    the competition after a change of the power schedule. Allocations succeed; the floating-point weights of
    the entries are left out.
  \<^item> \<open>queue_ok\<close> is the invariant of the component. The lemmas show that the contest keeps it and which
    indices an entry takes.
\<close>

section \<open>Data\<close>

datatype power_schedule = EXPLORE | MMOPT | EXPLOIT | FAST | COE | LIN | QUAD | RARE | SEEK

instantiation power_schedule :: linorder
begin

definition sched_no :: "power_schedule \<Rightarrow> nat" where
  "sched_no p = (case p of EXPLORE \<Rightarrow> 0 | MMOPT \<Rightarrow> 1 | EXPLOIT \<Rightarrow> 2 | FAST \<Rightarrow> 3 | COE \<Rightarrow> 4 | LIN \<Rightarrow> 5
     | QUAD \<Rightarrow> 6 | RARE \<Rightarrow> 7 | SEEK \<Rightarrow> 8)"

definition less_eq_power_schedule :: "power_schedule \<Rightarrow> power_schedule \<Rightarrow> bool" where
  "less_eq_power_schedule p p' \<longleftrightarrow> sched_no p \<le> sched_no p'"

definition less_power_schedule :: "power_schedule \<Rightarrow> power_schedule \<Rightarrow> bool" where
  "less_power_schedule p p' \<longleftrightarrow> sched_no p < sched_no p'"

instance
  by standard
    (auto simp: less_eq_power_schedule_def less_power_schedule_def sched_no_def split: power_schedule.splits)

end

record queue_entry =
  fname :: string
  q_len :: u32
  q_id :: u32
  q_c11 :: u32
  was_fuzzed :: bool
  passed_det :: bool
  favored :: bool
  fs_redundant :: bool
  is_ascii :: bool
  disabled :: bool
  tightness_novel :: bool
  fuzz_level :: u32
  n_fuzz_entry :: u32
  exec_us :: u64
  depth :: u64
  tc_ref :: u32
  mother :: "nat option"
  trace_mini :: "bytes option"
  tightness_novel_cycle :: u32

record queue_state =
  queue_buf :: "queue_entry list"
  queue_cur :: "nat option"
  queue_top :: "nat option"
  queue :: "nat option"
  queued_items :: u32
  active_items :: u32
  pending_not_fuzzed :: u32
  ready_for_splicing_count :: u32
  cycles_wo_finds :: u64
  cur_depth :: u32
  max_depth :: u32
  afl_c11 :: u32
  splice_buf_ids :: "u32 list"
  splice_buf_count :: u32
  splice_buf_alloc :: u32
  start_time :: u64
  last_find_time :: u64
  longest_find_time :: u64
  syncing_party :: bool
  cmplog_mode :: bool
  top_rated :: "nat option list"
  q_trace_bits :: bytes
  q_map_size :: nat
  map_tmp_buf :: bytes
  schedule :: power_schedule
  q_fixed_seed :: bool
  n_fuzz :: "u32 list"
  score_changed :: bool
  non_instrumented_mode :: bool
  disable_redundant :: bool
  reinit_table :: bool
  queued_favored :: u32
  pending_favored :: u32
  smallest_favored :: int
  q_cycle :: u64
  last_scored_idx :: int
  top_rated_candidates :: "u32 list option list"

definition entry :: "nat \<Rightarrow> (queue_state, queue_entry) comp" where
  "entry q = bnd (gets queue_buf) (\<lambda>b. chk (load b q))"

definition upd_entry :: "nat \<Rightarrow> (queue_entry \<Rightarrow> queue_entry) \<Rightarrow> (queue_state, unit) comp" where
  "upd_entry q f =
     bnd (entry q) (\<lambda>e. modify (\<lambda>s. s\<lparr>queue_buf := (queue_buf s)[q := f e]\<rparr>))"

section \<open>Scores\<close>

definition fuzz_p2_of :: "queue_entry \<Rightarrow> (queue_state, u64) comp" where
  "fuzz_p2_of e =
     bnd get (\<lambda>s.
     if FAST \<le> schedule s \<and> schedule s < RARE then ret 0
     else if schedule s = RARE then
       bnd (chk (load (n_fuzz s) (unat (n_fuzz_entry e)))) (\<lambda>n. ret (next_pow2 (ucast n)))
     else ret (ucast (fuzz_level e)))"

definition fav_factor_of :: "queue_entry \<Rightarrow> (queue_state, u64) comp" where
  "fav_factor_of e =
     bnd get (\<lambda>s.
     if RARE \<le> schedule s \<or> q_fixed_seed s then ret (ucast (push_bit 2 (q_len e)))
     else ret (exec_us e * ucast (q_len e)))"

text \<open>The previous winner loses the slot: \<open>if (!--top_rated[i]->tc_ref) \<dots>\<close>.\<close>

definition drop_winner :: "nat \<Rightarrow> (queue_state, unit) comp" where
  "drop_winner t =
     seq (upd_entry t (\<lambda>e. e\<lparr>tc_ref := tc_ref e - 1\<rparr>))
     (bnd (entry t) (\<lambda>e. if tc_ref e = 0 then upd_entry t (\<lambda>e. e\<lparr>trace_mini := None\<rparr>) else skip))"

definition insert_winner :: "nat \<Rightarrow> nat \<Rightarrow> nat \<Rightarrow> (queue_state, unit) comp" where
  "insert_winner len i q =
     bnd (gets top_rated) (\<lambda>t.
     bnd (chk (store t i (Some q))) (\<lambda>t.
     seq (modify (\<lambda>s. s\<lparr>top_rated := t\<rparr>))
     (seq (upd_entry q (\<lambda>e. e\<lparr>tc_ref := tc_ref e + 1\<rparr>))
     (seq (bnd (entry q) (\<lambda>e.
        if trace_mini e = None then
          bnd get (\<lambda>s.
          bnd (chk (minimize_bits (q_map_size s) (replicate len 0) (q_trace_bits s))) (\<lambda>m.
          upd_entry q (\<lambda>e. e\<lparr>trace_mini := Some m\<rparr>)))
        else skip))
     (modify (\<lambda>s. s\<lparr>score_changed := True\<rparr>))))))"

text \<open>The contest for the slot \<open>i\<close>, which both \<open>update_bitmap_score\<close> and \<open>update_bitmap_rescore\<close> have.\<close>

definition contest :: "nat \<Rightarrow> u64 \<Rightarrow> u64 \<Rightarrow> nat \<Rightarrow> nat \<Rightarrow> (queue_state, unit) comp" where
  "contest len fuzz_p2 fav_factor q i =
     bnd (gets top_rated) (\<lambda>t.
     bnd (chk (load t i)) (\<lambda>top.
     case top of
       None \<Rightarrow> insert_winner len i q
     | Some t \<Rightarrow>
         bnd (entry t) (\<lambda>e.
         bnd (fuzz_p2_of e) (\<lambda>top_rated_fuzz_p2.
         bnd (fav_factor_of e) (\<lambda>top_rated_fav_factor.
         if fuzz_p2 > top_rated_fuzz_p2 then skip
         else if fav_factor > top_rated_fav_factor then skip
         else seq (drop_winner t) (insert_winner len i q))))))"

definition score_index :: "u64 \<Rightarrow> u64 \<Rightarrow> nat \<Rightarrow> nat \<Rightarrow> (queue_state, unit) comp" where
  "score_index fuzz_p2 fav_factor q i =
     bnd get (\<lambda>s.
     bnd (chk (load (q_trace_bits s) i)) (\<lambda>b.
     if b \<noteq> 0 then contest ((q_map_size s + 7) div 8) fuzz_p2 fav_factor q i else skip))"

definition update_bitmap_score :: "nat \<Rightarrow> bool \<Rightarrow> (queue_state, unit) comp" where
  "update_bitmap_score q have_trace =
     bnd (entry q) (\<lambda>e.
     if disabled e then skip
     else
       bnd (fuzz_p2_of e) (\<lambda>fuzz_p2.
       bnd (fav_factor_of e) (\<lambda>fav_factor.
       if have_trace then
         bnd (gets q_map_size) (\<lambda>n. for_each [0..<n] (score_index fuzz_p2 fav_factor q))
       else skip)))"

definition update_bitmap_rescore :: "nat \<Rightarrow> nat \<Rightarrow> (queue_state, unit) comp" where
  "update_bitmap_rescore q i =
     bnd (entry q) (\<lambda>e.
     if disabled e then skip
     else
       bnd (fuzz_p2_of e) (\<lambda>fuzz_p2.
       bnd (fav_factor_of e) (\<lambda>fav_factor.
       bnd (gets q_map_size) (\<lambda>n. contest (n div 8) fuzz_p2 fav_factor q i))))"

section \<open>Culling\<close>

definition mark_as_redundant :: "nat \<Rightarrow> bool \<Rightarrow> (queue_state, unit) comp" where
  "mark_as_redundant q state =
     bnd (entry q) (\<lambda>e.
     if state = fs_redundant e then skip
     else
       seq (upd_entry q (\<lambda>e. e\<lparr>fs_redundant := state\<rparr>))
       (seq (if state then upd_entry q (\<lambda>e. e\<lparr>trace_mini := None\<rparr>) else skip)
       (bnd (gets disable_redundant) (\<lambda>d.
        if state \<and> d then upd_entry q (\<lambda>e. e\<lparr>disabled := True\<rparr>) else skip))))"

definition cull_reset :: "nat \<Rightarrow> (queue_state, unit) comp" where
  "cull_reset i =
     bnd (gets q_cycle) (\<lambda>cycle.
     upd_entry i (\<lambda>q.
       let q = (if tightness_novel q \<and> cycle - ucast (tightness_novel_cycle q) \<ge> 3
                then q\<lparr>tightness_novel := False, tightness_novel_cycle := 0\<rparr> else q)
       in q\<lparr>favored := tightness_novel q\<rparr>))"

text \<open>Remove the bits of an entry from \<open>temp_v\<close>; \<open>j\<close> runs down from \<open>len - 1\<close>.\<close>

definition remove_byte :: "bytes \<Rightarrow> nat \<Rightarrow> (queue_state, unit) comp" where
  "remove_byte mini j =
     bnd (chk (load mini j)) (\<lambda>m.
     if m \<noteq> 0 then
       bnd (gets map_tmp_buf) (\<lambda>v.
       bnd (chk (load v j)) (\<lambda>x.
       bnd (chk (store v j (x AND NOT m))) (\<lambda>v. modify (\<lambda>s. s\<lparr>map_tmp_buf := v\<rparr>))))
     else skip)"

definition mark_favored :: "nat \<Rightarrow> (queue_state, unit) comp" where
  "mark_favored t =
     bnd (entry t) (\<lambda>e.
     if \<not> favored e \<and> \<not> disabled e then
       seq (upd_entry t (\<lambda>e. e\<lparr>favored := True\<rparr>))
       (seq (modify (\<lambda>s. s\<lparr>queued_favored := queued_favored s + 1\<rparr>))
       (if \<not> was_fuzzed e then
          modify (\<lambda>s. s\<lparr>pending_favored := pending_favored s + 1,
            smallest_favored :=
              (if smallest_favored s < 0 \<or> smallest_favored s > int (unat (q_id e))
               then int (unat (q_id e)) else smallest_favored s)\<rparr>)
        else skip))
     else skip)"

definition cull_index :: "nat \<Rightarrow> nat \<Rightarrow> (queue_state, unit) comp" where
  "cull_index len i =
     bnd get (\<lambda>s.
     bnd (chk (load (top_rated s) i)) (\<lambda>top.
     case top of
       None \<Rightarrow> skip
     | Some t \<Rightarrow>
         bnd (chk (load (map_tmp_buf s) (i div 8))) (\<lambda>v.
         if bit v (i mod 8) then
           bnd (entry t) (\<lambda>e.
           case trace_mini e of
             None \<Rightarrow> skip
           | Some mini \<Rightarrow> seq (for_each (rev [0..<len]) (remove_byte mini)) (mark_favored t))
         else skip)))"

definition cull_mark :: "nat \<Rightarrow> (queue_state, unit) comp" where
  "cull_mark i =
     bnd (entry i) (\<lambda>e. if \<not> disabled e then mark_as_redundant i (\<not> favored e) else skip)"

definition cull_queue :: "(queue_state, unit) comp" where
  "cull_queue =
     bnd get (\<lambda>s.
     if \<not> score_changed s \<or> non_instrumented_mode s then skip
     else
       let len = q_map_size s div 8 in
       seq (modify (\<lambda>s. s\<lparr>score_changed := False\<rparr>))
       (bnd (chk (memset (map_tmp_buf s) 0 255 len)) (\<lambda>v.
       seq (modify (\<lambda>s. s\<lparr>map_tmp_buf := v, queued_favored := 0, pending_favored := 0\<rparr>))
       (seq (for_each [0..<unat (queued_items s)] cull_reset)
       (seq (modify (\<lambda>s. s\<lparr>smallest_favored := -1\<rparr>))
       (seq (for_each [0..<q_map_size s] (cull_index len))
       (seq (for_each [0..<unat (queued_items s)] cull_mark)
       (modify (\<lambda>s. s\<lparr>reinit_table := True\<rparr>)))))))))"

section \<open>Appending entries\<close>

definition new_entry :: queue_entry where
  "new_entry = \<lparr>fname = [], q_len = 0, q_id = 0, q_c11 = 0, was_fuzzed = False, passed_det = False, favored = False,
     fs_redundant = False, is_ascii = False, disabled = False, tightness_novel = False, fuzz_level = 0,
     n_fuzz_entry = 0, exec_us = 0, depth = 0, tc_ref = 0, mother = None, trace_mini = None,
     tightness_novel_cycle = 0\<rparr>"

text \<open>
  \<open>run_afl_custom_queue_new_entry\<close>: the callbacks of the custom mutators, each optional, say whether they
  changed the file; \<open>stat\<close> is the size of the file afterwards.
\<close>

definition run_afl_custom_queue_new_entry ::
  "(string \<Rightarrow> string option \<Rightarrow> bool) option list \<Rightarrow> (string \<Rightarrow> nat option) \<Rightarrow> nat \<Rightarrow> string \<Rightarrow> string option \<Rightarrow>
   (queue_state, unit) comp" where
  "run_afl_custom_queue_new_entry mutators stat q fn mother_fname =
     (let updated = (\<exists>el \<in> set mutators. case el of None \<Rightarrow> False | Some f \<Rightarrow> f fn mother_fname) in
      if updated then
        (case stat fn of
           None \<Rightarrow> chk (Inl Fatal)
         | Some st_size \<Rightarrow>
             if st_size = 0 then chk (Inl Fatal)
             else upd_entry q (\<lambda>e. e\<lparr>q_len := of_nat st_size\<rparr>))
      else skip)"

definition append_entry :: "queue_entry \<Rightarrow> (queue_state, unit) comp" where
  "append_entry e =
     modify (\<lambda>s.
       let q = length (queue_buf s) in
       s\<lparr>queue_top := Some q, queue := (if queue_top s = None then Some q else queue s),
         max_depth := (if depth e > ucast (max_depth s) then ucast (depth e) else max_depth s),
         ready_for_splicing_count := ready_for_splicing_count s + (if q_len e > 4 then 1 else 0),
         queued_items := queued_items s + 1, active_items := active_items s + 1,
         pending_not_fuzzed := pending_not_fuzzed s + 1, cycles_wo_finds := 0,
         queue_buf := queue_buf s @ [e\<lparr>q_id := queued_items s + 1 - 1\<rparr>]\<rparr>)"

text \<open>The list of the entries that are long enough for splicing.\<close>

definition grow_splice_buf :: "(queue_state, unit) comp" where
  "grow_splice_buf =
     modify (\<lambda>s.
       if splice_buf_count s \<ge> splice_buf_alloc s then
         let new_alloc = (if splice_buf_alloc s \<noteq> 0 then splice_buf_alloc s * 2 else 64) in
         s\<lparr>splice_buf_ids := take (unat new_alloc) (splice_buf_ids s) @
             replicate (unat new_alloc - length (splice_buf_ids s)) 0,
           splice_buf_alloc := new_alloc\<rparr>
       else s)"

definition add_splice_id :: "u32 \<Rightarrow> (queue_state, unit) comp" where
  "add_splice_id i =
     bnd get (\<lambda>s.
     bnd (chk (store (splice_buf_ids s) (unat (splice_buf_count s)) i)) (\<lambda>ids.
     modify (\<lambda>s. s\<lparr>splice_buf_ids := ids, splice_buf_count := splice_buf_count s + 1\<rparr>)))"

definition note_find_time :: "u64 \<Rightarrow> (queue_state, unit) comp" where
  "note_find_time cur_time =
     modify (\<lambda>s.
       s\<lparr>longest_find_time :=
           (if start_time s \<noteq> 0 \<and> longest_find_time s < cur_time - last_find_time s then
              if last_find_time s = 0 then cur_time - start_time s else cur_time - last_find_time s
            else longest_find_time s),
         last_find_time := cur_time\<rparr>)"

definition add_to_queue ::
  "(string \<Rightarrow> string option \<Rightarrow> bool) option list \<Rightarrow> (string \<Rightarrow> nat option) \<Rightarrow> (string \<Rightarrow> bytes option) \<Rightarrow> u64 \<Rightarrow>
   string \<Rightarrow> u32 \<Rightarrow> bool \<Rightarrow> (queue_state, unit) comp" where
  "add_to_queue mutators stat read_file cur_time fn len det =
     bnd get (\<lambda>s.
     let q = length (queue_buf s);
         e = new_entry\<lparr>fname := fn, q_len := len, depth := ucast (cur_depth s + 1), passed_det := det,
           mother := queue_cur s\<rparr>
     in
     seq (append_entry e)
     (seq (if afl_c11 s \<noteq> 0 then
             seq (upd_entry q (\<lambda>e. e\<lparr>q_c11 := afl_c11 s\<rparr>)) (modify (\<lambda>s. s\<lparr>afl_c11 := 0\<rparr>))
           else skip)
     (seq (if len > 3 then seq grow_splice_buf (add_splice_id (queued_items s + 1 - 1)) else skip)
     (seq (note_find_time cur_time)
     (seq (if mutators \<noteq> [] \<and> (queue_cur s \<noteq> None \<or> syncing_party s) then
             (case queue_cur s of
                None \<Rightarrow> run_afl_custom_queue_new_entry mutators stat q fn None
              | Some c \<Rightarrow> bnd (entry c) (\<lambda>m.
                  run_afl_custom_queue_new_entry mutators stat q fn (Some (fname m))))
           else skip)
     (bnd (entry q) (\<lambda>e.
        if cmplog_mode s \<and> \<not> is_ascii e then
          bnd (chk (check_if_text read_file (fname e) (unat (q_len e)))) (\<lambda>txt_kind.
          upd_entry q (\<lambda>e. e\<lparr>is_ascii := (txt_kind \<noteq> 0)\<rparr>))
        else skip)))))))"

section \<open>Recalculation\<close>

text \<open>The candidate lists have the format \<open>[count][cap][id0][id1] \<dots>\<close>.\<close>

definition add_candidate :: "u32 \<Rightarrow> nat \<Rightarrow> (queue_state, unit) comp" where
  "add_candidate i j =
     bnd get (\<lambda>s.
     bnd (chk (load (q_trace_bits s) j)) (\<lambda>b.
     if b \<noteq> 0 then
       bnd (chk (load (top_rated_candidates s) j)) (\<lambda>c.
       bnd (case c of
              None \<Rightarrow> ret [1, 2, i, 0]
            | Some ids \<Rightarrow>
                bnd (chk (load ids 0)) (\<lambda>count.
                bnd (chk (load ids 1)) (\<lambda>cap.
                bnd (if count = cap then
                       let new_cap = cap * 2 in
                       chk (store (take (unat (new_cap + 2)) ids @ replicate (unat (new_cap + 2) - length ids) 0) 1 new_cap)
                     else ret ids) (\<lambda>ids.
                bnd (chk (store ids 0 (count + 1))) (\<lambda>ids.
                chk (store ids (unat (count + 2)) i)))))) (\<lambda>ids.
       bnd (chk (store (top_rated_candidates s) j (Some ids))) (\<lambda>c.
       modify (\<lambda>s. s\<lparr>top_rated_candidates := c\<rparr>))))
     else skip))"

text \<open>
  The run of an entry: \<open>run_target\<close> stands for the execution of the target on the test case of the
  entry, and gives the trace it leaves.
\<close>

definition collect_candidates :: "(nat \<Rightarrow> bytes) \<Rightarrow> nat \<Rightarrow> (queue_state, unit) comp" where
  "collect_candidates run_target i =
     bnd (entry i) (\<lambda>e.
     seq (if \<not> disabled e then
            seq (modify (\<lambda>s. s\<lparr>q_trace_bits := run_target i\<rparr>))
            (bnd (gets q_map_size) (\<lambda>n. for_each [0..<n] (add_candidate (q_id e))))
          else skip)
     (modify (\<lambda>s. s\<lparr>last_scored_idx := int i\<rparr>)))"

definition rescore_index :: "nat \<Rightarrow> (queue_state, unit) comp" where
  "rescore_index i =
     bnd (gets top_rated_candidates) (\<lambda>c.
     bnd (chk (load c i)) (\<lambda>c.
     case c of
       None \<Rightarrow> skip
     | Some ids \<Rightarrow>
         bnd (chk (load ids 0)) (\<lambda>count.
         for_each [0..<unat count] (\<lambda>k.
           bnd (chk (load ids (k + 2))) (\<lambda>i'. update_bitmap_rescore (unat i') i)))))"

definition recalculate_all_scores :: "(nat \<Rightarrow> bytes) \<Rightarrow> (queue_state, unit) comp" where
  "recalculate_all_scores run_target =
     bnd get (\<lambda>s.
     seq (for_each [nat ((last_scored_idx s + 1) mod 2 ^ 32)..<unat (queued_items s)] (collect_candidates run_target))
     (for_each [0..<q_map_size s] rescore_index))"

section \<open>Specification\<close>

text \<open>The initial state for a map of \<open>n\<close> bytes, and the settings the command line determines.\<close>

definition init_state :: "nat \<Rightarrow> power_schedule \<Rightarrow> bool \<Rightarrow> bool \<Rightarrow> u32 list \<Rightarrow> queue_state" where
  "init_state n p fixed disable nf = \<lparr>queue_buf = [], queue_cur = None, queue_top = None, queue = None, queued_items = 0,
     active_items = 0, pending_not_fuzzed = 0, ready_for_splicing_count = 0, cycles_wo_finds = 0, cur_depth = 0,
     max_depth = 0, afl_c11 = 0, splice_buf_ids = [], splice_buf_count = 0, splice_buf_alloc = 0, start_time = 0,
     last_find_time = 0, longest_find_time = 0, syncing_party = False, cmplog_mode = False,
     top_rated = replicate n None, q_trace_bits = replicate n 0, q_map_size = n, map_tmp_buf = replicate n 0,
     schedule = p, q_fixed_seed = fixed, n_fuzz = nf, score_changed = False, non_instrumented_mode = False,
     disable_redundant = disable, reinit_table = False, queued_favored = 0, pending_favored = 0,
     smallest_favored = -1, q_cycle = 0, last_scored_idx = -1, top_rated_candidates = replicate n None\<rparr>"

text \<open>The two ratings of an entry, as \<open>fuzz_p2_of\<close> and \<open>fav_factor_of\<close> compute them.\<close>

definition p2_rating :: "queue_state \<Rightarrow> queue_entry \<Rightarrow> u64" where
  "p2_rating s e =
     (if FAST \<le> schedule s \<and> schedule s < RARE then 0
      else if schedule s = RARE then next_pow2 (ucast (n_fuzz s ! unat (n_fuzz_entry e)))
      else ucast (fuzz_level e))"

definition fav_rating :: "queue_state \<Rightarrow> queue_entry \<Rightarrow> u64" where
  "fav_rating s e =
     (if RARE \<le> schedule s \<or> q_fixed_seed s then ucast (push_bit 2 (q_len e)) else exec_us e * ucast (q_len e))"

text \<open>Whether \<open>e\<close> takes a slot from its holder.\<close>

definition takes :: "queue_state \<Rightarrow> queue_entry \<Rightarrow> nat option \<Rightarrow> bool" where
  "takes s e holder =
     (case holder of
        None \<Rightarrow> True
      | Some t \<Rightarrow> p2_rating s e \<le> p2_rating s (queue_buf s ! t) \<and> fav_rating s e \<le> fav_rating s (queue_buf s ! t))"

text \<open>A compressed trace, and the links between slots and entries. \<open>tr q\<close> is the trace of the entry \<open>q\<close>.\<close>

definition mini_ok :: "nat \<Rightarrow> bytes \<Rightarrow> bytes \<Rightarrow> bool" where
  "mini_ok n tr m \<longleftrightarrow>
     length m = n div 8 \<and> (\<forall>i < n. bit (m ! (i div 8)) (i mod 8) \<longleftrightarrow> tr ! i \<noteq> 0)"

definition links_ok :: "(nat \<Rightarrow> bytes) \<Rightarrow> nat \<Rightarrow> nat option list \<Rightarrow> queue_entry list \<Rightarrow> bool" where
  "links_ok tr n t b \<longleftrightarrow>
     length t = n \<and>
     (\<forall>q < length b. unat (tc_ref (b ! q)) = count_list t (Some q) \<and>
        (\<forall>m. trace_mini (b ! q) = Some m \<longrightarrow> mini_ok n (tr q) m)) \<and>
     (\<forall>i < n. \<forall>q. t ! i = Some q \<longrightarrow> q < length b \<and> tr q ! i \<noteq> 0)"

definition queue_ok :: "(nat \<Rightarrow> bytes) \<Rightarrow> queue_state \<Rightarrow> bool" where
  "queue_ok tr s \<longleftrightarrow>
     links_ok tr (q_map_size s) (top_rated s) (queue_buf s) \<and>
     8 dvd q_map_size s \<and> q_map_size s < 2 ^ 32 \<and> q_map_size s div 8 \<le> length (map_tmp_buf s) \<and>
     unat (queued_items s) = length (queue_buf s) \<and>
     (\<forall>q < length (queue_buf s). unat (q_id (queue_buf s ! q)) = q \<and>
        (schedule s = RARE \<longrightarrow> unat (n_fuzz_entry (queue_buf s ! q)) < length (n_fuzz s))) \<and>
     (schedule s = RARE \<longrightarrow> n_fuzz s \<noteq> []) \<and>
     (\<forall>c. queue_cur s = Some c \<longrightarrow> c < length (queue_buf s)) \<and>
     length (splice_buf_ids s) = unat (splice_buf_alloc s) \<and>
     unat (splice_buf_count s) \<le> length (queue_buf s) \<and> unat (splice_buf_count s) \<le> unat (splice_buf_alloc s) \<and>
     unat (splice_buf_alloc s) \<le> max 64 (2 * length (queue_buf s))"

text \<open>The entry without the fields that the contest for the slots changes.\<close>

definition unlinked :: "queue_entry \<Rightarrow> queue_entry" where
  "unlinked e = e\<lparr>tc_ref := 0, trace_mini := None\<rparr>"

text \<open>What the contest leaves as it is.\<close>

definition same_queue :: "queue_state \<Rightarrow> queue_state \<Rightarrow> bool" where
  "same_queue s s' \<longleftrightarrow>
     (\<exists>b t c. s' = s\<lparr>queue_buf := b, top_rated := t, score_changed := c\<rparr> \<and> map unlinked b = map unlinked (queue_buf s))"

text \<open>The slots after the entry \<open>q\<close> has competed for the indices its trace hits.\<close>

definition scored :: "(nat \<Rightarrow> bytes) \<Rightarrow> queue_state \<Rightarrow> nat \<Rightarrow> nat \<Rightarrow> nat option" where
  "scored tr s q i =
     (if tr q ! i \<noteq> 0 \<and> takes s (queue_buf s ! q) (top_rated s ! i) then Some q else top_rated s ! i)"

section \<open>Access to entries\<close>

lemma wp_entry [wp_simps]:
  "q < length (queue_buf s) \<Longrightarrow> wpe E (entry q) Q s \<longleftrightarrow> Q (queue_buf s ! q) s"
  by (simp add: entry_def wp_simps load_def)

lemma wp_upd_entry [wp_simps]:
  "q < length (queue_buf s) \<Longrightarrow>
   wpe E (upd_entry q f) Q s \<longleftrightarrow> Q () (s\<lparr>queue_buf := (queue_buf s)[q := f (queue_buf s ! q)]\<rparr>)"
  by (simp add: upd_entry_def wp_simps)

lemma wp_fuzz_p2_of [wp_simps]:
  "schedule s = RARE \<longrightarrow> unat (n_fuzz_entry e) < length (n_fuzz s) \<Longrightarrow> wpe E (fuzz_p2_of e) Q s \<longleftrightarrow> Q (p2_rating s e) s"
  by (simp add: fuzz_p2_of_def p2_rating_def wp_simps load_def)

lemma wp_fav_factor_of [wp_simps]: "wpe E (fav_factor_of e) Q s \<longleftrightarrow> Q (fav_rating s e) s"
  by (simp add: fav_factor_of_def fav_rating_def wp_simps)

section \<open>Links between slots and entries\<close>

lemma count_list_update:
  "i < length xs \<Longrightarrow>
   count_list (xs[i := y]) x + (if xs ! i = x then 1 else 0) = count_list xs x + (if y = x then 1 else 0)"
proof (induction xs arbitrary: i)
  case (Cons a xs)
  show ?case
  proof (cases i)
    case (Suc j)
    then show ?thesis using Cons.IH [of j] Cons.prems by (simp split: if_splits)
  qed auto
qed simp

lemma count_list_le: "count_list xs x \<le> length xs"
  by (induction xs) auto

lemma links_length: "links_ok tr n t b \<Longrightarrow> length t = n"
  by (simp add: links_ok_def)

lemma links_holder: "links_ok tr n t b \<Longrightarrow> i < n \<Longrightarrow> t ! i = Some q \<Longrightarrow> q < length b \<and> tr q ! i \<noteq> 0"
  by (simp add: links_ok_def)

lemma links_ref: "links_ok tr n t b \<Longrightarrow> q < length b \<Longrightarrow> unat (tc_ref (b ! q)) = count_list t (Some q)"
  by (simp add: links_ok_def)

lemma links_mini:
  "links_ok tr n t b \<Longrightarrow> q < length b \<Longrightarrow> trace_mini (b ! q) = Some m \<Longrightarrow> mini_ok n (tr q) m"
  by (simp add: links_ok_def)

lemma links_drop:
  assumes ok: "links_ok tr n t b" and i: "i < n" and w: "t ! i = Some w"
    and e: "unat (tc_ref e) = unat (tc_ref (b ! w)) - 1" "trace_mini e = trace_mini (b ! w) \<or> trace_mini e = None"
  shows "links_ok tr n (t[i := None]) (b[w := e])"
  unfolding links_ok_def
proof (intro conjI allI impI)
  have wl: "w < length b" using links_holder [OF ok i w] by simp
  show "length (t[i := None]) = n" using links_length [OF ok] by simp
  fix q
  assume q: "q < length (b[w := e])"
  have "count_list (t[i := None]) (Some q) + (if w = q then 1 else 0) = count_list t (Some q)"
    using count_list_update [of i t None "Some q"] i w links_length [OF ok] by auto
  then show "unat (tc_ref (b[w := e] ! q)) = count_list (t[i := None]) (Some q)"
    using links_ref [OF ok, of q] q e(1) wl by (auto simp: nth_list_update)
  show "mini_ok n (tr q) m" if "trace_mini (b[w := e] ! q) = Some m" for m
    using that links_mini [OF ok, of q m] q e(2) wl by (auto simp: nth_list_update split: if_splits)
next
  fix j q
  assume "j < n" and "t[i := None] ! j = Some q"
  then have "t ! j = Some q" using i links_length [OF ok] by (auto simp: nth_list_update split: if_splits)
  then show "q < length (b[w := e])" and "tr q ! j \<noteq> 0"
    using links_holder [OF ok \<open>j < n\<close>] by auto
qed

lemma links_insert:
  assumes ok: "links_ok tr n t b" and i: "i < n" and w: "t ! i = None" and q: "q < length b" "tr q ! i \<noteq> 0"
    and e: "unat (tc_ref e) = unat (tc_ref (b ! q)) + 1"
      "trace_mini e = trace_mini (b ! q) \<or> (\<exists>m. trace_mini e = Some m \<and> mini_ok n (tr q) m)"
  shows "links_ok tr n (t[i := Some q]) (b[q := e])"
  unfolding links_ok_def
proof (intro conjI allI impI)
  show "length (t[i := Some q]) = n" using links_length [OF ok] by simp
  fix p
  assume p: "p < length (b[q := e])"
  have "count_list (t[i := Some q]) (Some p) = count_list t (Some p) + (if q = p then 1 else 0)"
    using count_list_update [of i t "Some q" "Some p"] i w links_length [OF ok] by auto
  then show "unat (tc_ref (b[q := e] ! p)) = count_list (t[i := Some q]) (Some p)"
    using links_ref [OF ok, of p] p e(1) q by (auto simp: nth_list_update)
  show "mini_ok n (tr p) m" if "trace_mini (b[q := e] ! p) = Some m" for m
    using that links_mini [OF ok, of p m] p e(2) q by (auto simp: nth_list_update split: if_splits)
next
  fix j p
  assume j: "j < n" and "t[i := Some q] ! j = Some p"
  then have "t ! j = Some p \<or> j = i \<and> p = q"
    using i links_length [OF ok] by (auto simp: nth_list_update split: if_splits)
  then show "p < length (b[q := e])" and "tr p ! j \<noteq> 0"
    using links_holder [OF ok j] q by auto
qed

lemma minimize_mini:
  assumes "8 dvd n" and "length tr = n"
  shows "\<exists>m. minimize_bits n (replicate (n div 8) 0) tr = Inr m \<and> mini_ok n tr m"
proof -
  have "(n + 7) div 8 \<le> length (replicate (n div 8) (0 :: u8))"
    using assms(1) by auto
  from minimize_loop_ok [OF _ this, of tr 0] obtain m where
    m: "minimize_loop 0 n (replicate (n div 8) 0) tr = Inr m" "length m = n div 8"
      "\<And>j. j < 8 * (n div 8) \<Longrightarrow> bit (m ! (j div 8)) (j mod 8) \<longleftrightarrow>
         bit (replicate (n div 8) (0 :: u8) ! (j div 8)) (j mod 8) \<or> j < n \<and> tr ! j \<noteq> 0"
    using assms(2) by auto
  moreover have "8 * (n div 8) = n" using assms(1) by simp
  ultimately have "mini_ok n tr m" by (auto simp: mini_ok_def)
  then show ?thesis using m(1) by (auto simp: minimize_bits_def)
qed

section \<open>The contest for a slot\<close>

lemma same_queueD:
  assumes "same_queue s s'"
  shows "length (queue_buf s') = length (queue_buf s)" and "q_map_size s' = q_map_size s"
    and "q_trace_bits s' = q_trace_bits s" and "map_tmp_buf s' = map_tmp_buf s"
    and "queued_items s' = queued_items s" and "n_fuzz s' = n_fuzz s"
    and "splice_buf_ids s' = splice_buf_ids s" and "splice_buf_alloc s' = splice_buf_alloc s"
    and "splice_buf_count s' = splice_buf_count s"
    and "schedule s' = schedule s" and "q_fixed_seed s' = q_fixed_seed s" and "queue_cur s' = queue_cur s"
  using assms by (auto simp: same_queue_def dest: map_eq_imp_length_eq)

lemma same_queue_nth:
  assumes "same_queue s s'" and "q < length (queue_buf s)"
  shows "unlinked (queue_buf s' ! q) = unlinked (queue_buf s ! q)"
proof -
  have "map unlinked (queue_buf s') ! q = map unlinked (queue_buf s) ! q"
    using assms(1) by (auto simp: same_queue_def)
  then show ?thesis using assms same_queueD(1) [OF assms(1)] by simp
qed

lemma same_queue_refl: "same_queue s s"
  unfolding same_queue_def
  by (rule exI [of _ "queue_buf s"], rule exI [of _ "top_rated s"], rule exI [of _ "score_changed s"]) simp

lemma same_queue_trans: "same_queue s s1 \<Longrightarrow> same_queue s1 s2 \<Longrightarrow> same_queue s s2"
  unfolding same_queue_def by (elim exE conjE) (intro exI conjI, simp, simp)

lemma unlinkedD:
  assumes "unlinked e = unlinked e'"
  shows "q_id e = q_id e'" "n_fuzz_entry e = n_fuzz_entry e'" "disabled e = disabled e'"
    "p2_rating s e = p2_rating s e'" "fav_rating s e = fav_rating s e'"
proof -
  have e: "q_id e = q_id (unlinked e)" "n_fuzz_entry e = n_fuzz_entry (unlinked e)" "disabled e = disabled (unlinked e)"
    "p2_rating s e = p2_rating s (unlinked e)" "fav_rating s e = fav_rating s (unlinked e)" for e
    by (simp_all add: unlinked_def p2_rating_def fav_rating_def)
  show "q_id e = q_id e'" "n_fuzz_entry e = n_fuzz_entry e'" "disabled e = disabled e'"
    "p2_rating s e = p2_rating s e'" "fav_rating s e = fav_rating s e'"
    by (simp_all only: e [of e] e [of e'] assms)
qed

lemma map_unlinked_update:
  "unlinked e = unlinked (b ! q) \<Longrightarrow> map unlinked (b[q := e]) = map unlinked b"
  by (cases "q < length b") (auto simp: map_update list_update_same_conv list_update_beyond)

lemma drop_winner_runs:
  assumes ok: "links_ok tr n (top_rated s) (queue_buf s)" and n: "n < 2 ^ 32"
    and i: "i < n" and w: "top_rated s ! i = Some w"
    and Q: "\<And>e. unlinked e = unlinked (queue_buf s ! w) \<Longrightarrow>
        links_ok tr n ((top_rated s)[i := None]) ((queue_buf s)[w := e]) \<Longrightarrow>
        Q () (s\<lparr>queue_buf := (queue_buf s)[w := e]\<rparr>)"
  shows "runs (drop_winner w) Q s"
proof -
  let ?e = "(queue_buf s ! w)\<lparr>tc_ref := tc_ref (queue_buf s ! w) - 1\<rparr>"
  have wl: "w < length (queue_buf s)" using links_holder [OF ok i w] by simp
  have "Some w \<in> set (top_rated s)"
    using w i links_length [OF ok] by (metis nth_mem)
  then have "0 < count_list (top_rated s) (Some w)"
    by (metis count_list_0_iff neq0_conv)
  then have "tc_ref (queue_buf s ! w) \<noteq> 0"
    using links_ref [OF ok wl] by auto
  then have ref: "unat (tc_ref ?e) = unat (tc_ref (queue_buf s ! w)) - 1"
    using unat_minus_one by simp
  have un: "unlinked ?e = unlinked (queue_buf s ! w)" "unlinked (?e\<lparr>trace_mini := None\<rparr>) = unlinked (queue_buf s ! w)"
    by (simp_all add: unlinked_def)
  have "links_ok tr n ((top_rated s)[i := None]) ((queue_buf s)[w := ?e])"
    and "links_ok tr n ((top_rated s)[i := None]) ((queue_buf s)[w := ?e\<lparr>trace_mini := None\<rparr>])"
    by (rule links_drop [OF ok i w]; use ref in simp)+
  then have "Q () (s\<lparr>queue_buf := (queue_buf s)[w := ?e]\<rparr>)"
    and "Q () (s\<lparr>queue_buf := (queue_buf s)[w := ?e\<lparr>trace_mini := None\<rparr>]\<rparr>)"
    using Q un by blast+
  then show ?thesis
    using wl by (cases "tc_ref (queue_buf s ! w) = 1") (simp_all add: drop_winner_def wp_simps)
qed

lemma insert_winner_runs:
  assumes ok: "links_ok tr n ((top_rated s)[i := None]) (queue_buf s)" and n: "n < 2 ^ 32"
    and i: "i < n" and q: "q < length (queue_buf s)" "tr q ! i \<noteq> 0"
    and m: "minimize_bits (q_map_size s) (replicate len 0) (q_trace_bits s) = Inr m" "mini_ok n (tr q) m"
    and Q: "\<And>e. unlinked e = unlinked (queue_buf s ! q) \<Longrightarrow>
        links_ok tr n ((top_rated s)[i := Some q]) ((queue_buf s)[q := e]) \<Longrightarrow>
        Q () (s\<lparr>top_rated := (top_rated s)[i := Some q], queue_buf := (queue_buf s)[q := e], score_changed := True\<rparr>)"
  shows "runs (insert_winner len i q) Q s"
proof -
  let ?e = "(queue_buf s ! q)\<lparr>tc_ref := tc_ref (queue_buf s ! q) + 1\<rparr>"
  have len: "length (top_rated s) = n" using links_length [OF ok] by simp
  have "count_list ((top_rated s)[i := None]) (Some q) < n"
  proof -
    have "count_list ((top_rated s)[i := Some q]) (Some q) = count_list ((top_rated s)[i := None]) (Some q) + 1"
      using count_list_update [of i "(top_rated s)[i := None]" "Some q" "Some q"] i len by simp
    then show ?thesis
      using count_list_le [of "(top_rated s)[i := Some q]" "Some q"] len by simp
  qed
  then have "unat (tc_ref (queue_buf s ! q)) + 1 < 2 ^ 32"
    using links_ref [OF ok q(1)] n by simp
  then have ref: "unat (tc_ref ?e) = unat (tc_ref (queue_buf s ! q)) + 1"
    by (simp add: unat_word_ariths)
  have un: "unlinked ?e = unlinked (queue_buf s ! q)" "unlinked (?e\<lparr>trace_mini := Some m\<rparr>) = unlinked (queue_buf s ! q)"
    by (simp_all add: unlinked_def)
  have "links_ok tr n ((top_rated s)[i := None, i := Some q]) ((queue_buf s)[q := ?e])"
    and "links_ok tr n ((top_rated s)[i := None, i := Some q]) ((queue_buf s)[q := ?e\<lparr>trace_mini := Some m\<rparr>])"
    by (rule links_insert [OF ok i _ q]; use ref m(2) i len in simp)+
  then have "Q () (s\<lparr>top_rated := (top_rated s)[i := Some q], queue_buf := (queue_buf s)[q := ?e], score_changed := True\<rparr>)"
    and "Q () (s\<lparr>top_rated := (top_rated s)[i := Some q],
      queue_buf := (queue_buf s)[q := ?e\<lparr>trace_mini := Some m\<rparr>], score_changed := True\<rparr>)"
    using Q un by simp_all
  then show ?thesis
    using q(1) i len m(1) by (simp add: insert_winner_def wp_simps store_def)
qed

lemma queue_okD:
  assumes "queue_ok tr s"
  shows "links_ok tr (q_map_size s) (top_rated s) (queue_buf s)" and "8 dvd q_map_size s" and "q_map_size s < 2 ^ 32"
    and "q < length (queue_buf s) \<Longrightarrow>
      schedule s = RARE \<longrightarrow> unat (n_fuzz_entry (queue_buf s ! q)) < length (n_fuzz s)"
    and "length (top_rated s) = q_map_size s"
  using assms links_length by (auto simp: queue_ok_def)

text \<open>A state that differs in the links only is well formed if the links are.\<close>

lemma queue_ok_same:
  assumes ok: "queue_ok tr s" and same: "same_queue s s'"
    and links: "links_ok tr (q_map_size s) (top_rated s') (queue_buf s')"
  shows "queue_ok tr s'"
proof -
  note d = same_queueD [OF same]
  have "unat (q_id (queue_buf s' ! q)) = q \<and>
      (schedule s' = RARE \<longrightarrow> unat (n_fuzz_entry (queue_buf s' ! q)) < length (n_fuzz s'))"
    if "q < length (queue_buf s')" for q
  proof -
    have q: "q < length (queue_buf s)" using that d(1) by simp
    from unlinkedD [OF same_queue_nth [OF same q]] show ?thesis
      using ok q by (simp add: queue_ok_def d)
  qed
  then show ?thesis using ok links unfolding queue_ok_def d by blast
qed

lemma contest_runs:
  assumes ok: "queue_ok tr s" and i: "i < q_map_size s" and q: "q < length (queue_buf s)" "tr q ! i \<noteq> 0"
    and tb: "q_trace_bits s = tr q" "length (tr q) = q_map_size s"
    and e: "e = queue_buf s ! q"
  shows "runs (contest (q_map_size s div 8) (p2_rating s e) (fav_rating s e) q i)
    (\<lambda>_ s'. queue_ok tr s' \<and> same_queue s s' \<and>
       top_rated s' = (if takes s e (top_rated s ! i) then (top_rated s)[i := Some q] else top_rated s)) s"
proof -
  let ?n = "q_map_size s"
  note okD = queue_okD [OF ok]
  obtain m where m: "minimize_bits ?n (replicate (?n div 8) 0) (tr q) = Inr m" "mini_ok ?n (tr q) m"
    using minimize_mini [OF okD(2) tb(2)] by blast
  have ins: "runs (insert_winner (?n div 8) i q)
      (\<lambda>_ s'. queue_ok tr s' \<and> same_queue s s' \<and> top_rated s' = (top_rated s)[i := Some q]) s1"
    if "links_ok tr ?n ((top_rated s)[i := None]) (queue_buf s1)" and "s1 = s\<lparr>queue_buf := b\<rparr>"
      and "map unlinked b = map unlinked (queue_buf s)" for s1 b
  proof (rule insert_winner_runs [OF _ okD(3) i])
    have len: "length b = length (queue_buf s)" using map_eq_imp_length_eq [OF that(3)] .
    show "links_ok tr ?n ((top_rated s1)[i := None]) (queue_buf s1)" using that by simp
    show "q < length (queue_buf s1)" and "tr q ! i \<noteq> 0" using that(2) len q by auto
    show "minimize_bits (q_map_size s1) (replicate (?n div 8) 0) (q_trace_bits s1) = Inr m"
      using m(1) that(2) tb by simp
    fix e
    assume un: "unlinked e = unlinked (queue_buf s1 ! q)"
      and links: "links_ok tr ?n ((top_rated s1)[i := Some q]) ((queue_buf s1)[q := e])"
    let ?s = "s1\<lparr>top_rated := (top_rated s1)[i := Some q], queue_buf := (queue_buf s1)[q := e], score_changed := True\<rparr>"
    have "?s = s\<lparr>queue_buf := b[q := e], top_rated := (top_rated s)[i := Some q], score_changed := True\<rparr>"
      using that(2) by simp
    moreover have "map unlinked (b[q := e]) = map unlinked (queue_buf s)"
      using map_unlinked_update [of e b q] un that(2,3) by simp
    ultimately have "same_queue s ?s" unfolding same_queue_def by blast
    then show "queue_ok tr ?s \<and> same_queue s ?s \<and> top_rated ?s = (top_rated s)[i := Some q]"
      using queue_ok_same [OF ok \<open>same_queue s ?s\<close>] links that(2) by simp
  qed (rule m(2))
  show ?thesis
  proof (cases "top_rated s ! i")
    case None
    then have "(top_rated s)[i := None] = top_rated s" by (metis list_update_id)
    then show ?thesis
      using None ins [of s "queue_buf s"] okD(1,5) i
      by (simp add: contest_def wp_simps load_def takes_def)
  next
    case (Some w)
    have w: "w < length (queue_buf s)" using links_holder [OF okD(1) i Some] by simp
    have "runs (drop_winner w) (\<lambda>_. runs (insert_winner (?n div 8) i q)
      (\<lambda>_ s'. queue_ok tr s' \<and> same_queue s s' \<and> top_rated s' = (top_rated s)[i := Some q])) s"
      by (rule drop_winner_runs [OF okD(1,3) i Some])
        (rule ins [OF _ refl], auto intro: map_unlinked_update)
    then show ?thesis
      using Some w ok same_queue_refl [of s] okD(4) [OF w] okD(5) i
      by (auto simp: contest_def wp_simps load_def takes_def not_less)
  qed
qed

section \<open>Scoring\<close>

lemma same_rating:
  assumes "same_queue s s'" and "q < length (queue_buf s)"
  shows "p2_rating s' (queue_buf s' ! q) = p2_rating s (queue_buf s ! q)"
    and "fav_rating s' (queue_buf s' ! q) = fav_rating s (queue_buf s ! q)"
proof -
  note u = unlinkedD [OF same_queue_nth [OF assms]] and d = same_queueD [OF assms(1)]
  have "p2_rating s' (queue_buf s' ! q) = p2_rating s (queue_buf s' ! q)"
    and "fav_rating s' (queue_buf s' ! q) = fav_rating s (queue_buf s' ! q)"
    by (simp_all add: p2_rating_def fav_rating_def d)
  then show "p2_rating s' (queue_buf s' ! q) = p2_rating s (queue_buf s ! q)"
    and "fav_rating s' (queue_buf s' ! q) = fav_rating s (queue_buf s ! q)"
    using u(4,5) by simp_all
qed

lemma same_takes:
  assumes "same_queue s s'" and "q < length (queue_buf s)" and "\<And>w. holder = Some w \<Longrightarrow> w < length (queue_buf s)"
  shows "takes s' (queue_buf s' ! q) holder = takes s (queue_buf s ! q) holder"
  using same_rating [OF assms(1)] assms(2,3) by (auto simp: takes_def split: option.splits)

lemma score_index_runs:
  assumes ok: "queue_ok tr s" and i: "i < q_map_size s" and q: "q < length (queue_buf s)"
    and tb: "q_trace_bits s = tr q" "length (tr q) = q_map_size s"
    and e: "e = queue_buf s ! q"
  shows "runs (score_index (p2_rating s e) (fav_rating s e) q i)
    (\<lambda>_ s'. queue_ok tr s' \<and> same_queue s s' \<and> top_rated s' = (top_rated s)[i := scored tr s q i]) s"
proof -
  have len: "(q_map_size s + 7) div 8 = q_map_size s div 8"
    using queue_okD(2) [OF ok] by auto
  have "(top_rated s)[i := top_rated s ! i] = top_rated s" by simp
  then show ?thesis
    using contest_runs [OF ok i q _ tb e] ok i tb same_queue_refl [of s] e
    by (auto simp: score_index_def wp_simps load_def len scored_def elim!: wp_mono)
qed

lemma update_bitmap_score_runs:
  assumes ok: "queue_ok tr s" and q: "q < length (queue_buf s)" and en: "\<not> disabled (queue_buf s ! q)"
    and tb: "q_trace_bits s = tr q" "length (tr q) = q_map_size s"
  shows "runs (update_bitmap_score q True)
    (\<lambda>_ s'. queue_ok tr s' \<and> same_queue s s' \<and>
       (\<forall>i < q_map_size s. top_rated s' ! i = scored tr s q i)) s"
proof -
  let ?n = "q_map_size s" and ?e = "queue_buf s ! q"
  note okD = queue_okD [OF ok]
  have "runs (for_each [0..<?n] (score_index (p2_rating s ?e) (fav_rating s ?e) q))
    (\<lambda>_ s'. queue_ok tr s' \<and> same_queue s s' \<and> (\<forall>i < ?n. top_rated s' ! i = scored tr s q i)) s"
  proof (rule wp_for_upt [where I = "\<lambda>j s'. queue_ok tr s' \<and> same_queue s s' \<and>
        (\<forall>i < ?n. top_rated s' ! i = (if i < j then scored tr s q i else top_rated s ! i))"])
    fix j s'
    assume j: "j < ?n" and s': "queue_ok tr s' \<and> same_queue s s' \<and>
        (\<forall>i < ?n. top_rated s' ! i = (if i < j then scored tr s q i else top_rated s ! i))"
    then have ok': "queue_ok tr s'" and same: "same_queue s s'"
      and slots: "\<And>i. i < ?n \<Longrightarrow> top_rated s' ! i = (if i < j then scored tr s q i else top_rated s ! i)" by auto
    note d = same_queueD [OF same] and r = same_rating [OF same q]
    have holder: "w < length (queue_buf s)" if "top_rated s ! j = Some w" for w
      using links_holder [OF okD(1) j that] by simp
    have sc: "scored tr s' q j = scored tr s q j"
      using same_takes [OF same q holder] slots [OF j] by (simp add: scored_def)
    have "runs (score_index (p2_rating s' (queue_buf s' ! q)) (fav_rating s' (queue_buf s' ! q)) q j)
      (\<lambda>_ s''. queue_ok tr s'' \<and> same_queue s' s'' \<and> top_rated s'' = (top_rated s')[j := scored tr s' q j]) s'"
      by (rule score_index_runs) (use ok' j d q tb in simp_all)
    then show "runs (score_index (p2_rating s ?e) (fav_rating s ?e) q j) (\<lambda>_ s''. queue_ok tr s'' \<and> same_queue s s'' \<and>
        (\<forall>i < ?n. top_rated s'' ! i = (if i < Suc j then scored tr s q i else top_rated s ! i))) s'"
      unfolding r sc using same_queue_trans [OF same] queue_okD(5) [OF ok'] d(2) j
      by (elim wp_mono) (auto simp: nth_list_update slots)
  qed (use ok same_queue_refl [of s] in auto)
  then show ?thesis
    using q en okD(4) [OF q] by (simp add: update_bitmap_score_def wp_simps)
qed

end
