(* ===== verification/AFL_Queue_Cull.thy ===== *)
theory AFL_Queue_Cull
  imports AFL_Queue
begin

text \<open>
  The selection of favored entries by \<open>cull_queue\<close>: \<open>greedy\<close> is its specification, a greedy cover of the
  map indices by the traces of their holders; \<open>cull_result\<close> says what the function leaves behind. The
  lemmas go through the three loops of the function, \<open>cull_queue_runs\<close> is their composition.
\<close>

section \<open>Specification\<close>

text \<open>
  The choice of \<open>cull_queue\<close>: go over the map indices \<open>is\<close> and take the holder of an index if its
  compressed trace is kept and none of the entries \<open>cs\<close> taken so far hits the index.
\<close>

definition greedy_add :: "(nat \<Rightarrow> bytes) \<Rightarrow> queue_entry list \<Rightarrow> nat option list \<Rightarrow> nat \<Rightarrow> nat list \<Rightarrow> nat list" where
  "greedy_add tr b t i cs =
     (case t ! i of
        None \<Rightarrow> cs
      | Some w \<Rightarrow> if trace_mini (b ! w) \<noteq> None \<and> (\<forall>q \<in> set cs. tr q ! i = 0) then cs @ [w] else cs)"

definition greedy :: "(nat \<Rightarrow> bytes) \<Rightarrow> queue_entry list \<Rightarrow> nat option list \<Rightarrow> nat list \<Rightarrow> nat list \<Rightarrow> nat list" where
  "greedy tr b t is cs = fold (greedy_add tr b t) is cs"

text \<open>The decay of \<open>tightness_novel\<close>, and what is left of it when the entry is reset.\<close>

definition still_novel :: "u64 \<Rightarrow> queue_entry \<Rightarrow> bool" where
  "still_novel cycle e \<longleftrightarrow> tightness_novel e \<and> \<not> cycle - ucast (tightness_novel_cycle e) \<ge> 3"

definition reset_entry :: "u64 \<Rightarrow> queue_entry \<Rightarrow> queue_entry" where
  "reset_entry cycle q =
     (let q = (if tightness_novel q \<and> cycle - ucast (tightness_novel_cycle q) \<ge> 3
               then q\<lparr>tightness_novel := False, tightness_novel_cycle := 0\<rparr> else q)
      in q\<lparr>favored := tightness_novel q\<rparr>)"

definition redundant_entry :: "bool \<Rightarrow> queue_entry \<Rightarrow> queue_entry" where
  "redundant_entry d e =
     (if disabled e \<or> (\<not> favored e) = fs_redundant e then e
      else if favored e then e\<lparr>fs_redundant := False\<rparr>
      else if d then e\<lparr>fs_redundant := True, trace_mini := None, disabled := True\<rparr>
      else e\<lparr>fs_redundant := True, trace_mini := None\<rparr>)"

text \<open>\<open>temp_v\<close> without the bits of a compressed trace.\<close>

definition remove_bits :: "nat \<Rightarrow> bytes \<Rightarrow> bytes \<Rightarrow> bytes" where
  "remove_bits len mini v = map (\<lambda>j. if j < len then v ! j AND NOT (mini ! j) else v ! j) [0..<length v]"

text \<open>
  The state of the loop of \<open>cull_queue\<close> after it has taken the winners \<open>Ch\<close>, from the state \<open>s\<close> at its start.
\<close>

definition take_favored :: "nat set \<Rightarrow> queue_entry list \<Rightarrow> queue_entry list" where
  "take_favored Ch b = map (\<lambda>q. (b ! q)\<lparr>favored := favored (b ! q) \<or> q \<in> Ch \<and> \<not> disabled (b ! q)\<rparr>) [0..<length b]"

definition newly :: "nat set \<Rightarrow> queue_entry list \<Rightarrow> nat set" where
  "newly Ch b = {q \<in> Ch. \<not> disabled (b ! q) \<and> \<not> favored (b ! q)}"

definition pending :: "nat set \<Rightarrow> queue_entry list \<Rightarrow> nat set" where
  "pending Ch b = {q \<in> newly Ch b. \<not> was_fuzzed (b ! q)}"

definition culled :: "queue_state \<Rightarrow> nat set \<Rightarrow> bytes \<Rightarrow> queue_state" where
  "culled s Ch v = s\<lparr>map_tmp_buf := v, queue_buf := take_favored Ch (queue_buf s),
     queued_favored := of_nat (card (newly Ch (queue_buf s))),
     pending_favored := of_nat (card (pending Ch (queue_buf s))),
     smallest_favored := (if pending Ch (queue_buf s) = {} then -1 else int (Min (pending Ch (queue_buf s))))\<rparr>"

definition uncovered :: "(nat \<Rightarrow> bytes) \<Rightarrow> nat \<Rightarrow> nat set \<Rightarrow> bytes \<Rightarrow> bool" where
  "uncovered tr n Ch v \<longleftrightarrow>
     n div 8 \<le> length v \<and> (\<forall>i < n. bit (v ! (i div 8)) (i mod 8) \<longleftrightarrow> (\<forall>q \<in> Ch. tr q ! i = 0))"

text \<open>No entry is taken without an index that the entries taken before it leave open.\<close>

definition needed :: "(nat \<Rightarrow> bytes) \<Rightarrow> nat \<Rightarrow> nat option list \<Rightarrow> nat list \<Rightarrow> bool" where
  "needed tr n t cs \<longleftrightarrow>
     (\<forall>k < length cs. \<exists>i < n. t ! i = Some (cs ! k) \<and> (\<forall>l < k. tr (cs ! l) ! i = 0))"

text \<open>Changes of entries that keep the invariant.\<close>

definition kept :: "queue_entry \<Rightarrow> queue_entry \<Rightarrow> bool" where
  "kept e e' \<longleftrightarrow> tc_ref e' = tc_ref e \<and> q_id e' = q_id e \<and> n_fuzz_entry e' = n_fuzz_entry e \<and>
     (trace_mini e' = trace_mini e \<or> trace_mini e' = None)"

text \<open>The entries taken, and those of them that are counted.\<close>

definition chosen :: "(nat \<Rightarrow> bytes) \<Rightarrow> queue_state \<Rightarrow> nat list" where
  "chosen tr s = greedy tr (queue_buf s) (top_rated s) [0..<q_map_size s] []"

definition counted :: "(nat \<Rightarrow> bytes) \<Rightarrow> queue_state \<Rightarrow> nat set" where
  "counted tr s = {q \<in> set (chosen tr s). \<not> disabled (queue_buf s ! q) \<and> \<not> still_novel (q_cycle s) (queue_buf s ! q)}"

definition cull_result :: "(nat \<Rightarrow> bytes) \<Rightarrow> queue_state \<Rightarrow> queue_state \<Rightarrow> bool" where
  "cull_result tr s s' \<longleftrightarrow>
     queue_ok tr s' \<and> top_rated s' = top_rated s \<and> \<not> score_changed s' \<and> reinit_table s' \<and>
     length (queue_buf s') = length (queue_buf s) \<and>
     (\<forall>q < length (queue_buf s). favored (queue_buf s' ! q) \<longleftrightarrow>
        still_novel (q_cycle s) (queue_buf s ! q) \<or> q \<in> set (chosen tr s) \<and> \<not> disabled (queue_buf s ! q)) \<and>
     unat (queued_favored s') = card (counted tr s) \<and>
     unat (pending_favored s') = card {q \<in> counted tr s. \<not> was_fuzzed (queue_buf s ! q)} \<and>
     smallest_favored s' =
       (if {q \<in> counted tr s. \<not> was_fuzzed (queue_buf s ! q)} = {} then -1
        else int (Min {q \<in> counted tr s. \<not> was_fuzzed (queue_buf s ! q)}))"

text \<open>The state in which the loop of \<open>cull_queue\<close> over the map indices starts; \<open>v\<close> is the new \<open>temp_v\<close>.\<close>

definition cull_start :: "bytes \<Rightarrow> queue_state \<Rightarrow> queue_state" where
  "cull_start v s = s\<lparr>score_changed := False, map_tmp_buf := v, queued_favored := 0, pending_favored := 0,
     queue_buf := map (reset_entry (q_cycle s)) (queue_buf s), smallest_favored := -1\<rparr>"

section \<open>Culling\<close>

lemma for_all_entries:
  assumes op: "\<And>i b' E Q. i < length b \<Longrightarrow> length b' = length b \<Longrightarrow>
      wpe E (op i) Q (s\<lparr>queue_buf := b'\<rparr>) \<longleftrightarrow> Q () (s\<lparr>queue_buf := b'[i := f (b' ! i)]\<rparr>)"
    and b: "queue_buf s = b" and Q: "Q () (s\<lparr>queue_buf := map f b\<rparr>)"
  shows "runs (for_each [0..<length b] op) Q s"
proof (rule wp_for_upt [where I = "\<lambda>j s'. s' = s\<lparr>queue_buf := map f (take j b) @ drop j b\<rparr>"])
  fix j s'
  assume j: "j < length b" and s': "s' = s\<lparr>queue_buf := map f (take j b) @ drop j b\<rparr>"
  have "(map f (take j b) @ drop j b)[j := f ((map f (take j b) @ drop j b) ! j)] =
      map f (take (Suc j) b) @ drop (Suc j) b"
    using j by (simp add: Cons_nth_drop_Suc [symmetric] take_Suc_conv_app_nth list_update_append nth_append)
  then show "runs (op j) (\<lambda>_ s'. s' = s\<lparr>queue_buf := map f (take (Suc j) b) @ drop (Suc j) b\<rparr>) s'"
    unfolding s' using j by (subst op) simp_all
qed (use b Q in auto)

lemma cull_reset_runs:
  assumes "queue_buf s = b" and "Q () (s\<lparr>queue_buf := map (reset_entry (q_cycle s)) b\<rparr>)"
  shows "runs (for_each [0..<length b] cull_reset) Q s"
  by (rule for_all_entries [where f = "reset_entry (q_cycle s)" and s = s and Q = Q, OF _ assms])
    (simp add: cull_reset_def wp_simps reset_entry_def)

lemma cull_mark_runs:
  assumes "queue_buf s = b" and "Q () (s\<lparr>queue_buf := map (redundant_entry (disable_redundant s)) b\<rparr>)"
  shows "runs (for_each [0..<length b] cull_mark) Q s"
proof (rule for_all_entries [where f = "redundant_entry (disable_redundant s)" and s = s and Q = Q, OF _ assms])
  fix i E Q and b' :: "queue_entry list"
  assume i: "i < length b" "length b' = length b"
  define e where "e = b' ! i"
  have e: "wpe E (entry i) Q (s\<lparr>queue_buf := b'\<rparr>) \<longleftrightarrow> Q e (s\<lparr>queue_buf := b'\<rparr>)" for E Q
    using i by (simp add: wp_entry e_def)
  have same: "b'[i := e] = b'" and nth: "b' ! i = e" by (simp_all add: e_def)
  show "wpe E (cull_mark i) Q (s\<lparr>queue_buf := b'\<rparr>) \<longleftrightarrow>
      Q () (s\<lparr>queue_buf := b'[i := redundant_entry (disable_redundant s) (b' ! i)]\<rparr>)"
    unfolding e_def [symmetric] cull_mark_def mark_as_redundant_def wp_bnd e
    using i by (cases "disabled e"; cases "favored e"; cases "fs_redundant e"; cases "disable_redundant s")
      (simp_all add: wp_simps redundant_entry_def same nth)
qed

lemma remove_bits_runs:
  assumes "len \<le> length mini" and "len \<le> length (map_tmp_buf s)"
    and "Q () (s\<lparr>map_tmp_buf := remove_bits len mini (map_tmp_buf s)\<rparr>)"
  shows "runs (for_each (rev [0..<len]) (remove_byte mini)) Q s"
  using assms
proof (induction len arbitrary: s)
  case 0
  then show ?case by (simp add: wp_simps remove_bits_def map_nth)
next
  case (Suc len)
  let ?v = "(map_tmp_buf s)[len := map_tmp_buf s ! len AND NOT (mini ! len)]"
  have "remove_bits len mini ?v = remove_bits (Suc len) mini (map_tmp_buf s)"
    using Suc.prems(2) by (auto simp: remove_bits_def less_Suc_eq nth_list_update)
  then have "runs (for_each (rev [0..<len]) (remove_byte mini)) Q (s\<lparr>map_tmp_buf := ?v\<rparr>)"
    using Suc.prems by (intro Suc.IH) simp_all
  moreover have "runs (remove_byte mini len) (\<lambda>_ s'. s' = s\<lparr>map_tmp_buf := ?v\<rparr>) s"
    using Suc.prems by (simp add: remove_byte_def wp_simps load_def store_def)
  ultimately show ?case
    by (auto simp: wp_simps elim!: wp_mono)
qed

lemma remove_bits_bit:
  assumes "i div 8 < len" and "len \<le> length v"
  shows "bit (remove_bits len mini v ! (i div 8)) (i mod 8) \<longleftrightarrow>
     bit (v ! (i div 8)) (i mod 8) \<and> \<not> bit (mini ! (i div 8)) (i mod 8)"
  using assms by (auto simp: remove_bits_def bit_simps)

lemma length_remove_bits [simp]: "length (remove_bits len mini v) = length v"
  by (simp add: remove_bits_def)

section \<open>The favored set\<close>

lemma length_take_favored [simp]: "length (take_favored Ch b) = length b"
  by (simp add: take_favored_def)

lemma take_favored_nth:
  "q < length b \<Longrightarrow>
   take_favored Ch b ! q = (b ! q)\<lparr>favored := favored (b ! q) \<or> q \<in> Ch \<and> \<not> disabled (b ! q)\<rparr>"
  by (simp add: take_favored_def)

lemma take_favored_insert:
  assumes "t < length b" and "\<not> disabled (b ! t)"
  shows "(take_favored Ch b)[t := (take_favored Ch b ! t)\<lparr>favored := True\<rparr>] = take_favored (insert t Ch) b"
  using assms by (auto simp: list_eq_iff_nth_eq take_favored_nth nth_list_update)

lemma take_favored_keep:
  assumes "disabled (b ! t) \<or> favored (b ! t)"
  shows "take_favored (insert t Ch) b = take_favored Ch b"
proof -
  have "(favored (b ! q) \<or> q \<in> insert t Ch \<and> \<not> disabled (b ! q)) = (favored (b ! q) \<or> q \<in> Ch \<and> \<not> disabled (b ! q))" for q
    using assms by auto
  then show ?thesis by (simp only: take_favored_def)
qed

lemma wp_mark_favored:
  assumes "t < length (queue_buf s)" and "e = queue_buf s ! t" and "\<not> favored e" and "\<not> disabled e"
    and "unat (q_id e) = t"
  shows "wpe E (mark_favored t) Q s \<longleftrightarrow>
    (let s1 = s\<lparr>queue_buf := (queue_buf s)[t := e\<lparr>favored := True\<rparr>], queued_favored := queued_favored s + 1\<rparr> in
     if was_fuzzed e then Q () s1
     else Q () (s1\<lparr>pending_favored := pending_favored s + 1, smallest_favored :=
        (if smallest_favored s < 0 \<or> smallest_favored s > int t then int t else smallest_favored s)\<rparr>))"
  unfolding mark_favored_def wp_bnd wp_entry [OF assms(1)] assms(2) [symmetric] assms(5)
  using assms(1-4) by (simp add: wp_seq wp_upd_entry wp_modify wp_skip Let_def)

lemma mark_favored_runs:
  assumes t: "t < length (queue_buf s)" "t \<notin> Ch" and fin: "finite Ch" and i: "unat (q_id (queue_buf s ! t)) = t"
    and Q: "Q () (culled s (insert t Ch) v)"
  shows "runs (mark_favored t) Q (culled s Ch v)"
proof -
  let ?b = "queue_buf s"
  have fin: "finite (newly Ch ?b)" "finite (pending Ch ?b)" using fin by (auto simp: newly_def pending_def)
  show ?thesis
  proof (cases "disabled (?b ! t) \<or> favored (?b ! t)")
    case True
    then have "newly (insert t Ch) ?b = newly Ch ?b" by (auto simp: newly_def)
    then have "culled s (insert t Ch) v = culled s Ch v"
      using take_favored_keep [OF True] by (simp add: culled_def pending_def)
    then show ?thesis
      using True t Q by (auto simp: mark_favored_def wp_simps culled_def take_favored_nth)
  next
    case False
    then have new: "newly (insert t Ch) ?b = insert t (newly Ch ?b)" "t \<notin> newly Ch ?b"
      using t(2) by (auto simp: newly_def)
    have pend: "pending (insert t Ch) ?b = (if was_fuzzed (?b ! t) then pending Ch ?b else insert t (pending Ch ?b))"
      "t \<notin> pending Ch ?b"
      using new by (auto simp: pending_def)
    have fav: "(take_favored Ch ?b)[t := (take_favored Ch ?b ! t)\<lparr>favored := True\<rparr>] = take_favored (insert t Ch) ?b"
      using take_favored_insert [OF t(1)] False by blast
    have nth: "take_favored Ch ?b ! t = (?b ! t)\<lparr>favored := False\<rparr>"
      using False t by (simp add: take_favored_nth)
    define c where "c = culled s Ch v"
    have b: "queue_buf c = take_favored Ch ?b" by (simp add: c_def culled_def)
    have card: "of_nat (card (newly (insert t Ch) ?b)) = (of_nat (card (newly Ch ?b)) + 1 :: u32)"
      using new fin by simp
    have fuzzed: "c\<lparr>queue_buf := take_favored (insert t Ch) ?b, queued_favored := queued_favored c + 1\<rparr> =
        culled s (insert t Ch) v" if "was_fuzzed (?b ! t)"
      by (rule queue_state.equality) (use that card pend in \<open>simp_all add: culled_def c_def\<close>)
    have unfuzzed: "c\<lparr>queue_buf := take_favored (insert t Ch) ?b, queued_favored := queued_favored c + 1,
        pending_favored := pending_favored c + 1, smallest_favored :=
          (if smallest_favored c < 0 \<or> smallest_favored c > int t then int t else smallest_favored c)\<rparr> =
        culled s (insert t Ch) v" if "\<not> was_fuzzed (?b ! t)"
      by (rule queue_state.equality) (use that card pend fin in \<open>auto simp: culled_def c_def min_def\<close>)
    have e: "t < length (queue_buf c)" "\<not> favored (queue_buf c ! t)" "\<not> disabled (queue_buf c ! t)"
        "unat (q_id (queue_buf c ! t)) = t" "was_fuzzed (queue_buf c ! t) = was_fuzzed (?b ! t)"
        "(queue_buf c)[t := (queue_buf c ! t)\<lparr>favored := True\<rparr>] = take_favored (insert t Ch) ?b"
      using False t i fav by (simp_all add: b nth)
    show ?thesis
      unfolding c_def [symmetric] wp_mark_favored [OF e(1) refl e(2-4)] e(5,6) Let_def
      using Q fuzzed unfuzzed by (cases "was_fuzzed (?b ! t)") (simp_all only: if_True if_False simp_thms)
  qed
qed

text \<open>The choice is a list of distinct holders; every index of a kept holder is hit by a taken entry.\<close>

lemma greedy_simps [simp]:
  "greedy tr b t [] cs = cs"
  "greedy tr b t (i # is) cs = greedy tr b t is (greedy_add tr b t i cs)"
  "greedy tr b t (is @ js) cs = greedy tr b t js (greedy tr b t is cs)"
  by (simp_all add: greedy_def)

lemma greedy_add_cases:
  obtains (keep) "greedy_add tr b t i cs = cs"
  | (take) w where "greedy_add tr b t i cs = cs @ [w]" and "t ! i = Some w" and "\<forall>q \<in> set cs. tr q ! i = 0"
proof (cases "t ! i")
  case None
  then show ?thesis using keep by (simp add: greedy_add_def)
next
  case (Some w)
  then show ?thesis
    using keep take [of w]
    by (cases "trace_mini (b ! w) \<noteq> None \<and> (\<forall>q \<in> set cs. tr q ! i = 0)") (simp_all add: greedy_add_def)
qed

lemma greedy_keeps: "set cs \<subseteq> set (greedy tr b t is cs)"
proof (induction "is" arbitrary: cs)
  case (Cons i "is")
  show ?case
    by (rule greedy_add_cases [of tr b t i cs]) (use Cons [of "greedy_add tr b t i cs"] in auto)
qed simp

lemma greedy_covers:
  assumes "i \<in> set is" and "t ! i = Some w" and "trace_mini (b ! w) \<noteq> None" and "tr w ! i \<noteq> 0"
  shows "\<exists>q \<in> set (greedy tr b t is cs). tr q ! i \<noteq> 0"
  using assms(1)
proof (induction "is" arbitrary: cs)
  case (Cons j "is")
  show ?case
  proof (cases "i = j")
    case True
    have "\<exists>q \<in> set (greedy_add tr b t i cs). tr q ! i \<noteq> 0"
      using assms(2-4) by (auto simp: greedy_add_def)
    then show ?thesis
      using True greedy_keeps [of "greedy_add tr b t i cs" tr b t "is"] by auto
  qed (use Cons in auto)
qed simp

lemma greedy_holders:
  assumes "\<forall>i \<in> set is. \<forall>w. t ! i = Some w \<longrightarrow> P w" and "\<forall>q \<in> set cs. P q"
  shows "\<forall>q \<in> set (greedy tr b t is cs). P q"
  using assms
proof (induction "is" arbitrary: cs)
  case (Cons i "is")
  have "\<forall>q \<in> set (greedy_add tr b t i cs). P q"
    by (rule greedy_add_cases [of tr b t i cs]) (use Cons.prems in auto)
  then show ?case using Cons by simp
qed simp

lemma needed_add:
  assumes "needed tr n t cs" and "i < n"
  shows "needed tr n t (greedy_add tr b t i cs)"
proof (rule greedy_add_cases [of tr b t i cs])
  fix w
  assume w: "greedy_add tr b t i cs = cs @ [w]" "t ! i = Some w" "\<forall>q \<in> set cs. tr q ! i = 0"
  show ?thesis
    unfolding w(1) needed_def
  proof (intro allI impI)
    fix k
    assume "k < length (cs @ [w])"
    then consider "k < length cs" | "k = length cs" by fastforce
    then show "\<exists>i < n. t ! i = Some ((cs @ [w]) ! k) \<and> (\<forall>l < k. tr ((cs @ [w]) ! l) ! i = 0)"
    proof cases
      case 1
      then show ?thesis using assms(1) by (simp add: needed_def nth_append)
    next
      case 2
      then show ?thesis using assms(2) w(2,3) by (intro exI [of _ i]) (simp add: nth_append)
    qed
  qed
qed (use assms(1) in simp)

lemma greedy_needed:
  "needed tr n t cs \<Longrightarrow> \<forall>i \<in> set is. i < n \<Longrightarrow> needed tr n t (greedy tr b t is cs)"
  by (induction "is" arbitrary: cs) (simp_all add: needed_add)

lemma uncovered_insert:
  assumes v: "uncovered tr n Ch v" and m: "mini_ok n (tr t) m" and n: "8 dvd n"
  shows "uncovered tr n (insert t Ch) (remove_bits (n div 8) m v)"
proof -
  have "bit (remove_bits (n div 8) m v ! (i div 8)) (i mod 8) \<longleftrightarrow> (\<forall>q \<in> insert t Ch. tr q ! i = 0)" if "i < n" for i
  proof -
    have "i div 8 < n div 8" using that n by auto
    then show ?thesis
      using v m that by (auto simp: remove_bits_bit uncovered_def mini_ok_def)
  qed
  then show ?thesis using v by (simp add: uncovered_def)
qed

lemma take_favored_same:
  assumes "q < length b"
  shows "trace_mini (take_favored Ch b ! q) = trace_mini (b ! q)" "q_id (take_favored Ch b ! q) = q_id (b ! q)"
  using assms by (simp_all add: take_favored_nth)

lemma cull_index_runs:
  assumes links: "links_ok tr n (top_rated s) (queue_buf s)" and n: "8 dvd n" and i: "i < n"
    and ids: "\<And>q. q < length (queue_buf s) \<Longrightarrow> unat (q_id (queue_buf s ! q)) = q"
    and v: "uncovered tr n (set cs) v"
  shows "runs (cull_index (n div 8) i)
    (\<lambda>_ s'. \<exists>v'. s' = culled s (set (greedy tr (queue_buf s) (top_rated s) [i] cs)) v' \<and>
       uncovered tr n (set (greedy tr (queue_buf s) (top_rated s) [i] cs)) v') (culled s (set cs) v)"
proof -
  let ?b = "queue_buf s" and ?c = "culled s (set cs) v"
  have sel: "top_rated ?c = top_rated s" "map_tmp_buf ?c = v" "queue_buf ?c = take_favored (set cs) ?b"
    by (simp_all add: culled_def)
  have len: "length (top_rated s) = n" "i div 8 < length v"
    using links_length [OF links] v i n by (auto simp: uncovered_def)
  have bit: "bit (v ! (i div 8)) (i mod 8) \<longleftrightarrow> (\<forall>q \<in> set cs. tr q ! i = 0)"
    using v i by (simp add: uncovered_def)
  show ?thesis
  proof (cases "top_rated s ! i")
    case None
    then show ?thesis using len i v by (auto simp: cull_index_def wp_simps load_def sel greedy_add_def)
  next
    case (Some t)
    have t: "t < length ?b" "tr t ! i \<noteq> 0" using links_holder [OF links i Some] by auto
    show ?thesis
    proof (cases "(\<forall>q \<in> set cs. tr q ! i = 0) \<and> trace_mini (?b ! t) \<noteq> None")
      case False
      then show ?thesis
        using Some t len i v bit
        by (auto simp: cull_index_def wp_simps load_def sel take_favored_same greedy_add_def split: option.splits)
    next
      case True
      then obtain m where m: "trace_mini (?b ! t) = Some m" by blast
      have mini: "mini_ok n (tr t) m" using links_mini [OF links t(1) m] .
      let ?v = "remove_bits (n div 8) m v"
      have new: "t \<notin> set cs" using True t(2) by auto
      have "runs (mark_favored t) (\<lambda>_ s'. \<exists>v'. s' = culled s (set (cs @ [t])) v' \<and> uncovered tr n (set (cs @ [t])) v')
          (culled s (set cs) ?v)"
        by (rule mark_favored_runs [OF t(1) new _ ids [OF t(1)]])
          (use uncovered_insert [OF v mini n] in auto)
      moreover have "?c\<lparr>map_tmp_buf := ?v\<rparr> = culled s (set cs) ?v"
        by (simp add: culled_def)
      ultimately have "runs (for_each (rev [0..<n div 8]) (remove_byte m)) (\<lambda>_. runs (mark_favored t)
          (\<lambda>_ s'. \<exists>v'. s' = culled s (set (cs @ [t])) v' \<and> uncovered tr n (set (cs @ [t])) v')) ?c"
        using v mini by (intro remove_bits_runs) (simp_all add: sel uncovered_def mini_ok_def)
      then show ?thesis
        using Some t True len i bit m
        by (simp add: cull_index_def wp_simps load_def sel take_favored_same greedy_add_def)
    qed
  qed
qed

lemma cull_loop_runs:
  assumes links: "links_ok tr n (top_rated s) (queue_buf s)" and n: "8 dvd n"
    and ids: "\<And>q. q < length (queue_buf s) \<Longrightarrow> unat (q_id (queue_buf s ! q)) = q"
    and v: "uncovered tr n {} v" and s: "s = culled s {} v"
    and Q: "\<And>v'. n div 8 \<le> length v' \<Longrightarrow> Q () (culled s (set (greedy tr (queue_buf s) (top_rated s) [0..<n] [])) v')"
  shows "runs (for_each [0..<n] (cull_index (n div 8))) Q s"
proof (rule wp_for_upt [where I = "\<lambda>j s'. \<exists>v'. let cs = greedy tr (queue_buf s) (top_rated s) [0..<j] [] in
      s' = culled s (set cs) v' \<and> uncovered tr n (set cs) v'"])
  show "\<exists>v'. let cs = greedy tr (queue_buf s) (top_rated s) [0..<0] [] in
      s = culled s (set cs) v' \<and> uncovered tr n (set cs) v'"
    using s v by auto
next
  fix j s'
  assume j: "j < n" and "\<exists>v'. let cs = greedy tr (queue_buf s) (top_rated s) [0..<j] [] in
      s' = culled s (set cs) v' \<and> uncovered tr n (set cs) v'"
  then obtain v' where v': "s' = culled s (set (greedy tr (queue_buf s) (top_rated s) [0..<j] [])) v'"
      "uncovered tr n (set (greedy tr (queue_buf s) (top_rated s) [0..<j] [])) v'"
    by (auto simp: Let_def)
  from cull_index_runs [OF links n j ids v'(2)]
  show "runs (cull_index (n div 8) j) (\<lambda>_ s'. \<exists>v'. let cs = greedy tr (queue_buf s) (top_rated s) [0..<Suc j] [] in
      s' = culled s (set cs) v' \<and> uncovered tr n (set cs) v') s'"
    unfolding v'(1) Let_def by (simp only: upt_Suc_append [OF le0] greedy_simps(3))
next
  fix s'
  assume "\<exists>v'. let cs = greedy tr (queue_buf s) (top_rated s) [0..<n] [] in
      s' = culled s (set cs) v' \<and> uncovered tr n (set cs) v'"
  then show "Q () s'" using Q by (auto simp: Let_def uncovered_def)
qed simp

section \<open>The whole of \<open>cull_queue\<close>\<close>

lemma greedy_cong:
  assumes "\<forall>i \<in> set is. \<forall>w. t ! i = Some w \<longrightarrow> trace_mini (b ! w) = trace_mini (b' ! w)"
  shows "greedy tr b t is cs = greedy tr b' t is cs"
  using assms
proof (induction "is" arbitrary: cs)
  case (Cons i "is")
  then have "greedy_add tr b t i cs = greedy_add tr b' t i cs"
    by (auto simp: greedy_add_def split: option.splits)
  then show ?case using Cons by simp
qed simp

lemma links_kept:
  assumes "links_ok tr n t b" and "length b' = length b" and "\<And>q. q < length b \<Longrightarrow> kept (b ! q) (b' ! q)"
  shows "links_ok tr n t b'"
  using assms unfolding links_ok_def kept_def by (metis option.distinct(1))

lemma queue_ok_kept:
  assumes "queue_ok tr s" and "length (queue_buf s') = length (queue_buf s)"
    and "\<And>q. q < length (queue_buf s) \<Longrightarrow> kept (queue_buf s ! q) (queue_buf s' ! q)"
    and "top_rated s' = top_rated s" "q_map_size s' = q_map_size s" "queued_items s' = queued_items s"
      "n_fuzz s' = n_fuzz s" "schedule s' = schedule s" "splice_buf_ids s' = splice_buf_ids s"
      "splice_buf_count s' = splice_buf_count s" "splice_buf_alloc s' = splice_buf_alloc s"
      "queue_cur s' = queue_cur s"
    and "q_map_size s div 8 \<le> length (map_tmp_buf s')"
  shows "queue_ok tr s'"
  using assms links_kept [of tr "q_map_size s" "top_rated s" "queue_buf s" "queue_buf s'"]
  by (simp add: queue_ok_def kept_def)

lemma reset_entry_sel [simp]:
  "trace_mini (reset_entry c e) = trace_mini e" "tc_ref (reset_entry c e) = tc_ref e" "q_id (reset_entry c e) = q_id e"
  "n_fuzz_entry (reset_entry c e) = n_fuzz_entry e" "disabled (reset_entry c e) = disabled e"
  "was_fuzzed (reset_entry c e) = was_fuzzed e" "favored (reset_entry c e) = still_novel c e"
  by (auto simp: reset_entry_def still_novel_def Let_def)

lemma redundant_entry_sel [simp]:
  "tc_ref (redundant_entry d e) = tc_ref e" "q_id (redundant_entry d e) = q_id e"
  "n_fuzz_entry (redundant_entry d e) = n_fuzz_entry e" "favored (redundant_entry d e) = favored e"
  by (auto simp: redundant_entry_def)

lemma kept_redundant: "kept e e' \<Longrightarrow> kept e (redundant_entry d e')"
  by (auto simp: redundant_entry_def kept_def)

lemma chosen_less:
  assumes "queue_ok tr s"
  shows "set (chosen tr s) \<subseteq> {..<length (queue_buf s)}"
proof -
  have "\<forall>i \<in> set [0..<q_map_size s]. \<forall>w. top_rated s ! i = Some w \<longrightarrow> w < length (queue_buf s)"
    using links_holder [OF queue_okD(1) [OF assms]] by simp
  from greedy_holders [OF this, of "[]"] show ?thesis by (auto simp: chosen_def)
qed

lemma counted_card:
  assumes ok: "queue_ok tr s" and "A \<subseteq> counted tr s"
  shows "unat (of_nat (card A) :: u32) = card A"
proof -
  have "A \<subseteq> {..<length (queue_buf s)}"
    using assms(2) chosen_less [OF ok] by (auto simp: counted_def)
  then have "card A \<le> length (queue_buf s)"
    using card_mono [of "{..<length (queue_buf s)}" A] by simp
  also have "\<dots> < 2 ^ 32"
    using ok unsigned_less [of "queued_items s", where ?'a = nat] by (simp add: queue_ok_def)
  finally show ?thesis by (simp add: unat_of_nat)
qed

lemma cull_final:
  assumes ok: "queue_ok tr s" and v: "q_map_size s div 8 \<le> length v"
    and s0: "queue_buf s0 = map (reset_entry (q_cycle s)) (queue_buf s)" "top_rated s0 = top_rated s"
      "q_map_size s0 = q_map_size s" "queued_items s0 = queued_items s" "n_fuzz s0 = n_fuzz s"
      "schedule s0 = schedule s" "splice_buf_ids s0 = splice_buf_ids s" "splice_buf_count s0 = splice_buf_count s"
      "splice_buf_alloc s0 = splice_buf_alloc s" "queue_cur s0 = queue_cur s" "\<not> score_changed s0"
    and s': "s' = (culled s0 (set (chosen tr s)) v)\<lparr>queue_buf :=
      map (redundant_entry d) (take_favored (set (chosen tr s)) (queue_buf s0)), reinit_table := True\<rparr>"
  shows "cull_result tr s s'"
proof -
  let ?cs = "set (chosen tr s)" and ?b = "map (reset_entry (q_cycle s)) (queue_buf s)"
  have nth: "queue_buf s' ! q = redundant_entry d (take_favored ?cs ?b ! q)" if "q < length (queue_buf s)" for q
    using that by (simp add: s' s0)
  have new: "newly ?cs ?b = counted tr s"
    using chosen_less [OF ok] by (auto simp: newly_def counted_def)
  then have pend: "pending ?cs ?b = {q \<in> counted tr s. \<not> was_fuzzed (queue_buf s ! q)}"
    using chosen_less [OF ok] by (auto simp: pending_def counted_def)
  have "kept (queue_buf s ! q) (queue_buf s' ! q)" if "q < length (queue_buf s)" for q
    unfolding nth [OF that] by (rule kept_redundant) (use that in \<open>simp add: kept_def take_favored_nth\<close>)
  then have "queue_ok tr s'"
    by (rule queue_ok_kept [OF ok, rotated]) (use v in \<open>simp_all add: s' culled_def s0\<close>)
  moreover have "favored (queue_buf s' ! q) \<longleftrightarrow>
      still_novel (q_cycle s) (queue_buf s ! q) \<or> q \<in> ?cs \<and> \<not> disabled (queue_buf s ! q)"
    if "q < length (queue_buf s)" for q
    using that by (simp add: nth take_favored_nth)
  moreover have "unat (queued_favored s') = card (counted tr s)"
    using counted_card [OF ok, of "counted tr s"] by (simp add: s' culled_def s0 new)
  moreover have "unat (pending_favored s') = card {q \<in> counted tr s. \<not> was_fuzzed (queue_buf s ! q)}"
    using counted_card [OF ok, of "{q \<in> counted tr s. \<not> was_fuzzed (queue_buf s ! q)}"]
    by (simp add: s' culled_def s0 pend)
  ultimately show ?thesis
    by (simp add: cull_result_def s' culled_def s0 pend)
qed

lemma take_favored_empty: "take_favored {} b = b"
  by (rule nth_equalityI) (simp_all add: take_favored_nth)

text \<open>The state before the loop over the map indices.\<close>

lemma cull_start_sel:
  "queue_buf (cull_start v s) = map (reset_entry (q_cycle s)) (queue_buf s)" "top_rated (cull_start v s) = top_rated s"
  "q_map_size (cull_start v s) = q_map_size s" "queued_items (cull_start v s) = queued_items s"
  "n_fuzz (cull_start v s) = n_fuzz s" "schedule (cull_start v s) = schedule s"
  "splice_buf_ids (cull_start v s) = splice_buf_ids s" "splice_buf_count (cull_start v s) = splice_buf_count s"
  "splice_buf_alloc (cull_start v s) = splice_buf_alloc s" "queue_cur (cull_start v s) = queue_cur s"
  "\<not> score_changed (cull_start v s)"
  by (simp_all add: cull_start_def)

lemma cull_start_culled: "cull_start v s = culled (cull_start v s) {} v"
  by (rule queue_state.equality)
    (simp_all add: culled_def cull_start_def newly_def pending_def take_favored_empty)

lemma cull_start_links:
  assumes "queue_ok tr s"
  shows "links_ok tr (q_map_size s) (top_rated (cull_start v s)) (queue_buf (cull_start v s))"
    and "q < length (queue_buf (cull_start v s)) \<Longrightarrow> unat (q_id (queue_buf (cull_start v s) ! q)) = q"
  using assms links_kept [OF queue_okD(1) [OF assms], of "map (reset_entry (q_cycle s)) (queue_buf s)"]
  by (simp_all add: cull_start_sel kept_def queue_ok_def)

lemma cull_start_choice:
  assumes "queue_ok tr s"
  shows "greedy tr (queue_buf (cull_start v s)) (top_rated (cull_start v s)) [0..<q_map_size s] [] = chosen tr s"
proof -
  have "\<forall>i \<in> set [0..<q_map_size s]. \<forall>w. top_rated s ! i = Some w \<longrightarrow>
      trace_mini (map (reset_entry (q_cycle s)) (queue_buf s) ! w) = trace_mini (queue_buf s ! w)"
    using links_holder [OF queue_okD(1) [OF assms]] by simp
  then show ?thesis by (simp add: chosen_def cull_start_sel greedy_cong)
qed

lemma all_uncovered:
  assumes "8 dvd n"
  shows "uncovered tr n {} (replicate (n div 8) 255 @ v)"
proof -
  have "bit ((replicate (n div 8) 255 @ v) ! (i div 8)) (i mod 8)" if "i < n" for i
  proof -
    have "i div 8 < n div 8" using that assms by auto
    moreover have "(255 :: u8) = -1" by simp
    then have "bit (255 :: u8) (i mod 8)" by (simp only: bit_minus_1_iff) (simp add: possible_bit_def)
    ultimately show ?thesis by (simp add: nth_append)
  qed
  then show ?thesis by (simp add: uncovered_def)
qed

lemma cull_mark_result:
  assumes ok: "queue_ok tr s" and v: "q_map_size s div 8 \<le> length v"
  shows "runs (for_each [0..<unat (queued_items s)] cull_mark)
     (\<lambda>_ s1. cull_result tr s (s1\<lparr>reinit_table := True\<rparr>)) (culled (cull_start w s) (set (chosen tr s)) v)"
proof -
  let ?c = "culled (cull_start w s) (set (chosen tr s)) v"
  have b: "queue_buf ?c = take_favored (set (chosen tr s)) (queue_buf (cull_start w s))" by (simp add: culled_def)
  have "unat (queued_items s) = length (queue_buf ?c)"
    unfolding b using ok by (simp add: cull_start_sel queue_ok_def)
  moreover have "runs (for_each [0..<length (queue_buf ?c)] cull_mark)
     (\<lambda>_ s1. cull_result tr s (s1\<lparr>reinit_table := True\<rparr>)) ?c"
  proof (rule cull_mark_runs [OF refl])
    show "cull_result tr s (?c\<lparr>queue_buf := map (redundant_entry (disable_redundant ?c)) (queue_buf ?c)\<rparr>
        \<lparr>reinit_table := True\<rparr>)"
      unfolding b by (rule cull_final [OF ok v cull_start_sel refl])
  qed
  ultimately show ?thesis by (simp only:)
qed

lemma cull_queue_runs:
  assumes ok: "queue_ok tr s" and "score_changed s" and "\<not> non_instrumented_mode s"
  shows "runs cull_queue (\<lambda>_. cull_result tr s) s"
proof -
  let ?n = "q_map_size s"
  define v where "v = replicate (?n div 8) (255 :: u8) @ drop (?n div 8) (map_tmp_buf s)"
  have len: "unat (queued_items s) = length (queue_buf s)" "?n div 8 \<le> length (map_tmp_buf s)"
    using ok by (simp_all add: queue_ok_def)
  have ms: "memset (map_tmp_buf s) 0 255 (?n div 8) = Inr v"
    using len(2) by (simp add: memset_def v_def)
  have "runs (for_each [0..<?n] (cull_index (?n div 8)))
     (\<lambda>_. runs (for_each [0..<unat (queued_items s)] cull_mark)
       (\<lambda>_ s1. cull_result tr s (s1\<lparr>reinit_table := True\<rparr>))) (cull_start v s)"
    by (rule cull_loop_runs [OF cull_start_links(1) [OF ok] queue_okD(2) [OF ok] cull_start_links(2) [OF ok] _
          cull_start_culled])
      (simp_all add: cull_start_choice [OF ok] cull_mark_result [OF ok] v_def all_uncovered [OF queue_okD(2) [OF ok]])
  moreover have modify: "runs (modify f) P = (\<lambda>s. P () (f s))" for f and P :: "unit \<Rightarrow> queue_state \<Rightarrow> bool"
    by (simp add: fun_eq_iff wp_modify)
  ultimately have "runs (for_each [0..<length (queue_buf s)] cull_reset) (\<lambda>_.
      runs (seq (modify (\<lambda>s. s\<lparr>smallest_favored := -1\<rparr>)) (seq (for_each [0..<?n] (cull_index (?n div 8)))
        (seq (for_each [0..<unat (queued_items s)] cull_mark) (modify (\<lambda>s. s\<lparr>reinit_table := True\<rparr>)))))
      (\<lambda>_. cull_result tr s))
      (s\<lparr>score_changed := False, map_tmp_buf := v, queued_favored := 0, pending_favored := 0\<rparr>)"
    unfolding cull_start_def wp_seq modify by (intro cull_reset_runs) simp_all
  then show ?thesis
    unfolding cull_queue_def wp_bnd wp_get
    using assms(2,3) by (simp only: wp_bnd wp_seq wp_modify wp_chk ms Let_def len simp_thms if_False sum.case)
qed

end
