(* ===== verification/AFL_Queue_Reach.thy ===== *)
theory AFL_Queue_Reach
  imports AFL_Queue_Cull
begin

text \<open>
  The queue as a state machine. \<open>queue_step\<close> are the steps of the fuzzer that change the queue and
  \<open>queue_reach\<close> the states they lead to; \<open>queue_ok\<close> is an invariant of these states. The
  properties of the queue component are at the end, with two sessions that lead to states in which
  the favored entries miss an index of the map.
\<close>

section \<open>Steps\<close>

text \<open>
  The steps of the fuzzer that change the queue: a new entry; a run of the entry \<open>q\<close>, which leaves the
  trace \<open>tr q\<close>, and its scoring; culling; new measurements of an entry (calibration, trimming,
  fuzzing); the choice of the next entry and a new queue cycle.
\<close>

inductive queue_step :: "(nat \<Rightarrow> bytes) \<Rightarrow> queue_state \<Rightarrow> queue_state \<Rightarrow> bool" for tr where
  add: "length (queue_buf s) < 2 ^ 31 - 1 \<Longrightarrow>
     add_to_queue mutators stat read_file t fn l det s = Some (Inr ((), s')) \<Longrightarrow> queue_step tr s s'"
| score: "q < length (queue_buf s) \<Longrightarrow> length (tr q) = q_map_size s \<Longrightarrow>
     update_bitmap_score q have_trace (s\<lparr>q_trace_bits := tr q\<rparr>) = Some (Inr ((), s')) \<Longrightarrow> queue_step tr s s'"
| cull: "cull_queue s = Some (Inr ((), s')) \<Longrightarrow> queue_step tr s s'"
| remeasure: "q < length (queue_buf s) \<Longrightarrow>
     queue_step tr s (s\<lparr>queue_buf := (queue_buf s)[q := (queue_buf s ! q)\<lparr>q_len := l, was_fuzzed := w,
       fuzz_level := f, exec_us := us, tightness_novel := n, tightness_novel_cycle := c\<rparr>]\<rparr>)"
| select: "q < length (queue_buf s) \<Longrightarrow> queue_step tr s (s\<lparr>queue_cur := Some q, q_cycle := c\<rparr>)"

inductive queue_reach :: "(nat \<Rightarrow> bytes) \<Rightarrow> queue_state \<Rightarrow> bool" for tr where
  start: "8 dvd n \<Longrightarrow> n < 2 ^ 32 \<Longrightarrow> (p = RARE \<longrightarrow> nf \<noteq> []) \<Longrightarrow>
     queue_reach tr (init_state n p fixed disable nf)"
| step: "queue_reach tr s \<Longrightarrow> queue_step tr s s' \<Longrightarrow> queue_reach tr s'"

inductive_cases queue_stepE: "queue_step tr s s'"

text \<open>The favored entries whose trace hits an index.\<close>

definition favored_hits :: "(nat \<Rightarrow> bytes) \<Rightarrow> queue_state \<Rightarrow> nat \<Rightarrow> nat list" where
  "favored_hits tr s i =
     filter (\<lambda>q. favored (queue_buf s ! q) \<and> tr q ! i \<noteq> 0) [0..<length (queue_buf s)]"

text \<open>Sessions of up to 100 entries: a new entry of a given length, a run of an entry with its scoring, culling.\<close>

datatype queue_op = Seed u32 | Score nat | Cull

fun queue_do :: "(nat \<Rightarrow> bytes) \<Rightarrow> queue_op \<Rightarrow> (queue_state, unit) comp" where
  "queue_do tr (Seed l) =
     bnd get (\<lambda>s. if length (queue_buf s) < 100
       then add_to_queue [] (\<lambda>_. None) (\<lambda>_. None) 0 ''seed'' l False else chk (Inl Fatal))"
| "queue_do tr (Score q) =
     bnd get (\<lambda>s. if q < length (queue_buf s) \<and> length (tr q) = q_map_size s
       then seq (modify (\<lambda>s. s\<lparr>q_trace_bits := tr q\<rparr>)) (update_bitmap_score q True) else chk (Inl Fatal))"
| "queue_do tr Cull = cull_queue"

definition session :: "(nat \<Rightarrow> bytes) \<Rightarrow> queue_op list \<Rightarrow> (queue_state, unit) comp" where
  "session tr ops = for_each ops (queue_do tr)"

definition traces_redundant :: "nat \<Rightarrow> bytes" where
  "traces_redundant q = [[0, 1, 1, 0, 0, 0, 0, 0], [0, 0, 1, 0, 0, 0, 0, 0], [0, 1, 0, 0, 0, 0, 0, 0]] ! q"

definition traces_rescore :: "nat \<Rightarrow> bytes" where
  "traces_rescore q = [[1, 0, 0, 0, 0, 0, 0, 0], [0, 1, 0, 0, 0, 0, 0, 0]] ! q"

definition added :: "(nat \<Rightarrow> bytes) \<Rightarrow> queue_state \<Rightarrow> nat \<Rightarrow> queue_state \<Rightarrow> bool" where
  "added tr s m s' \<longleftrightarrow>
     queue_ok tr s' \<and> (\<exists>e. queue_buf s' = queue_buf s @ [e]) \<and> top_rated s' = top_rated s \<and>
     unat (splice_buf_count s') \<le> m"

section \<open>Appending an entry\<close>

lemma links_append:
  assumes ok: "links_ok tr n t b" and e: "tc_ref e = 0" "trace_mini e = None"
  shows "links_ok tr n t (b @ [e])"
proof -
  have "Some (length b) \<notin> set t"
  proof
    assume "Some (length b) \<in> set t"
    then obtain i where "i < n" "t ! i = Some (length b)"
      using links_length [OF ok] by (metis in_set_conv_nth)
    then show False using links_holder [OF ok] by blast
  qed
  then have "count_list t (Some (length b)) = 0" by (simp add: count_list_0_iff)
  then show ?thesis
    using ok e by (auto simp: links_ok_def nth_append less_Suc_eq)
qed

text \<open>The state between the steps of \<open>add_to_queue\<close>: one entry has been appended to \<open>s\<close>.\<close>

lemma addedD:
  assumes "added tr s m s'"
  shows "queue_ok tr s'" and "length (queue_buf s') = Suc (length (queue_buf s))"
    and "length (queue_buf s) < length (queue_buf s')"
  using assms by (auto simp: added_def)

lemma append_entry_wp:
  assumes ok: "queue_ok tr s" and len: "length (queue_buf s) < 2 ^ 31 - 1"
    and e: "tc_ref e = 0" "trace_mini e = None" "n_fuzz_entry e = 0"
  shows "wpe E (append_entry e) (\<lambda>_. added tr s (length (queue_buf s))) s"
proof -
  have items: "unat (queued_items s) = length (queue_buf s)" using ok by (simp add: queue_ok_def)
  then have "unat (queued_items s + 1) = Suc (length (queue_buf s))"
    using len by (simp add: unat_word_ariths)
  moreover have "unat (q_id (e\<lparr>q_id := queued_items s + 1 - 1\<rparr>)) = length (queue_buf s)"
    using items by simp
  moreover have "links_ok tr (q_map_size s) (top_rated s) (queue_buf s @ [e\<lparr>q_id := queued_items s + 1 - 1\<rparr>])"
    by (rule links_append) (use ok e in \<open>simp_all add: queue_ok_def\<close>)
  ultimately show ?thesis
    using ok e
    by (auto simp: append_entry_def wp_simps Let_def added_def queue_ok_def nth_append less_Suc_eq)
qed

lemma upd_new_wp:
  assumes add: "added tr s m s'" and f: "\<And>e. kept e (f e)"
  shows "wpe E (upd_entry (length (queue_buf s)) f) (\<lambda>_. added tr s m) s'"
proof -
  obtain e where b: "queue_buf s' = queue_buf s @ [e]" using add by (auto simp: added_def)
  have "queue_ok tr (s'\<lparr>queue_buf := queue_buf s @ [f e]\<rparr>)"
    by (rule queue_ok_kept [OF addedD(1) [OF add]])
      (use addedD(1) [OF add] f in \<open>auto simp: b nth_append kept_def queue_ok_def\<close>)
  then show ?thesis
    using add by (simp add: wp_upd_entry b added_def)
qed

lemma splice_wp:
  assumes add: "added tr s (length (queue_buf s)) s'" and len: "length (queue_buf s) < 2 ^ 31 - 1"
  shows "wpe E (seq grow_splice_buf (add_splice_id i)) (\<lambda>_. added tr s (Suc (length (queue_buf s)))) s'"
proof -
  let ?c = "splice_buf_count s'" and ?a = "splice_buf_alloc s'"
  note d = addedD [OF add]
  have ids: "length (splice_buf_ids s') = unat ?a" "unat ?c \<le> unat ?a" "unat ?a \<le> max 64 (2 * length (queue_buf s'))"
    using d(1) by (simp_all add: queue_ok_def)
  have c: "unat ?c \<le> length (queue_buf s)" using add by (simp add: added_def)
  have c1: "unat (?c + 1) = Suc (unat ?c)"
    using c len by (simp add: unat_word_ariths)
  show ?thesis
  proof (cases "?c \<ge> ?a")
    case False
    then have "unat ?c < unat ?a" by (simp add: not_le word_less_nat_alt)
    then show ?thesis
      using False add ids c c1 d
      by (auto simp: grow_splice_buf_def add_splice_id_def wp_simps store_def added_def queue_ok_def)
  next
    case True
    then have a: "unat ?a = unat ?c" using ids(2) by (simp add: word_le_nat_alt)
    define new where "new = (if ?a \<noteq> 0 then ?a * 2 else 64)"
    have new: "unat ?a < unat new" "unat new \<le> max 64 (2 * length (queue_buf s'))"
    proof -
      have "unat (?a * 2) = 2 * unat ?a" using a c len by (simp add: unat_word_ariths)
      moreover have "0 < unat ?a" if "?a \<noteq> 0" using that by (simp add: unat_gt_0)
      ultimately show "unat ?a < unat new" "unat new \<le> max 64 (2 * length (queue_buf s'))"
        using a c d(2) by (auto simp: new_def)
    qed
    then show ?thesis
      using True add ids c c1 a d
      by (auto simp: grow_splice_buf_def add_splice_id_def wp_simps store_def added_def queue_ok_def
          new_def [symmetric] Let_def)
  qed
qed

lemma note_time_wp:
  "added tr s m s' \<Longrightarrow> wpe E (note_find_time t) (\<lambda>_. added tr s m) s'"
  by (auto simp: note_find_time_def wp_modify added_def queue_ok_def)

lemma new_entry_callbacks_wp:
  assumes "added tr s m s'"
  shows "wp (run_afl_custom_queue_new_entry mutators stat (length (queue_buf s)) fn orig) (\<lambda>_. added tr s m) s'"
  using assms upd_new_wp [OF assms]
  by (auto simp: run_afl_custom_queue_new_entry_def Let_def wp_simps kept_def split: option.splits)

lemma check_if_text_returns: "\<exists>n. check_if_text read_file fn len = Inr n"
proof (cases "len < AFL_TXT_MIN_LEN \<or> len > AFL_TXT_MAX_LEN")
  case True
  then show ?thesis by (simp add: check_if_text_def)
next
  case False
  show ?thesis
  proof (cases "read_file fn")
    case (Some content)
    let ?got = "take len content"
    have len: "len < MAX_FILE" "len < 2 ^ 32" using False by (simp_all add: AFL_TXT_MAX_LEN_def MAX_FILE_def)
    have "\<exists>a u c. text_loop (?got @ [0]) len 0 0 0 (int len) = Inr (a, u, c)" if "length ?got = len"
      using text_loop_returns [of len "?got @ [0]" 0 0 0 "int len"] that len(2) by auto
    then show ?thesis
      using False Some len(1) by (auto simp: check_if_text_def Let_def)
  qed (use False in \<open>simp add: check_if_text_def Let_def\<close>)
qed

lemma add_to_queue_wp:
  assumes ok: "queue_ok tr s" and len: "length (queue_buf s) < 2 ^ 31 - 1"
  shows "wp (add_to_queue mutators stat read_file t fn l det) (\<lambda>_. added tr s (Suc (length (queue_buf s)))) s"
proof -
  let ?q = "length (queue_buf s)" and ?I = "\<lambda>m (_ :: unit). added tr s m"
  let ?e = "new_entry\<lparr>fname := fn, q_len := l, depth := ucast (cur_depth s + 1), passed_det := det, mother := queue_cur s\<rparr>"
  have more: "added tr s ?q s' \<Longrightarrow> added tr s (Suc ?q) s'" for s' by (simp add: added_def)
  have 1: "wp (append_entry ?e) (?I ?q) s"
    by (rule append_entry_wp [OF ok len]) (simp_all add: new_entry_def)
  have 2: "wp (if afl_c11 s \<noteq> 0 then seq (upd_entry ?q (\<lambda>e. e\<lparr>q_c11 := afl_c11 s\<rparr>)) (modify (\<lambda>s. s\<lparr>afl_c11 := 0\<rparr>))
      else skip) (?I ?q) s'" if "added tr s ?q s'" for s'
    using upd_new_wp [OF that, of "\<lambda>e. e\<lparr>q_c11 := afl_c11 s\<rparr>"] that
    by (auto simp: wp_simps kept_def added_def queue_ok_def elim!: wp_mono)
  have 3: "wp (if l > 3 then seq grow_splice_buf (add_splice_id i) else skip) (?I (Suc ?q)) s'"
    if "added tr s ?q s'" for s' i
    using splice_wp [OF that len] more that by (simp add: wp_simps)
  have 5: "wp (if mutators \<noteq> [] \<and> (queue_cur s \<noteq> None \<or> syncing_party s) then
      (case queue_cur s of None \<Rightarrow> run_afl_custom_queue_new_entry mutators stat ?q fn None
       | Some c \<Rightarrow> bnd (entry c) (\<lambda>m. run_afl_custom_queue_new_entry mutators stat ?q fn (Some (fname m))))
      else skip) (?I (Suc ?q)) s'" if "added tr s (Suc ?q) s'" for s'
  proof -
    have "c < length (queue_buf s')" if "queue_cur s = Some c" for c
      using ok that addedD(2) [OF \<open>added tr s (Suc ?q) s'\<close>] by (auto simp: queue_ok_def)
    then show ?thesis
      using new_entry_callbacks_wp [OF that] that by (auto simp: wp_simps split: option.splits)
  qed
  have 6: "wp (bnd (entry ?q) (\<lambda>e. if cmplog_mode s \<and> \<not> is_ascii e then
      bnd (chk (check_if_text read_file (fname e) (unat (q_len e)))) (\<lambda>txt_kind.
      upd_entry ?q (\<lambda>e. e\<lparr>is_ascii := (txt_kind \<noteq> 0)\<rparr>)) else skip)) (?I (Suc ?q)) s'"
    if "added tr s (Suc ?q) s'" for s'
  proof -
    obtain n where "check_if_text read_file (fname (queue_buf s' ! ?q)) (unat (q_len (queue_buf s' ! ?q))) = Inr n"
      using check_if_text_returns by blast
    then show ?thesis
      using upd_new_wp [OF that] that addedD(3) [OF that] by (simp add: wp_bnd wp_entry wp_chk wp_skip kept_def)
  qed
  show ?thesis
    unfolding add_to_queue_def wp_bnd wp_get Let_def wp_seq
    by (rule wp_mono [OF 1], rule wp_mono [OF 2], assumption, rule wp_mono [OF 3], assumption,
        rule wp_mono [OF note_time_wp], assumption, rule wp_mono [OF 5], assumption)
      (use 6 in \<open>simp add: wp_bnd\<close>)
qed

section \<open>Reachable states\<close>

lemma queue_ok_frame:
  "queue_ok tr s \<Longrightarrow> queue_ok tr (s\<lparr>q_trace_bits := x\<rparr>)"
  "queue_ok tr s \<Longrightarrow> q < length (queue_buf s) \<Longrightarrow> queue_ok tr (s\<lparr>queue_cur := Some q, q_cycle := c\<rparr>)"
  by (auto simp: queue_ok_def)

lemma init_state_ok:
  assumes "8 dvd n" "n < 2 ^ 32" "p = RARE \<longrightarrow> nf \<noteq> []"
  shows "queue_ok tr (init_state n p fixed disable nf)"
  using assms by (auto simp: init_state_def queue_ok_def links_ok_def)

lemma score_ok:
  assumes ok: "queue_ok tr s" and q: "q < length (queue_buf s)" and tr: "length (tr q) = q_map_size s"
  shows "runs (update_bitmap_score q have_trace) (\<lambda>_. queue_ok tr) (s\<lparr>q_trace_bits := tr q\<rparr>)"
proof -
  let ?s = "s\<lparr>q_trace_bits := tr q\<rparr>"
  have ok': "queue_ok tr ?s" by (rule queue_ok_frame(1) [OF ok])
  show ?thesis
  proof (cases "disabled (queue_buf s ! q) \<or> \<not> have_trace")
    case True
    then show ?thesis
      using q ok' queue_okD(4) [OF ok' , of q] by (auto simp: update_bitmap_score_def wp_simps)
  next
    case False
    have "runs (update_bitmap_score q True) (\<lambda>_ s'. queue_ok tr s' \<and> same_queue ?s s' \<and>
       (\<forall>i < q_map_size ?s. top_rated s' ! i = scored tr ?s q i)) ?s"
      by (rule update_bitmap_score_runs [OF ok']) (use q tr False in auto)
    then show ?thesis using False by (auto elim: wp_mono)
  qed
qed

lemma cull_ok:
  assumes "queue_ok tr s"
  shows "runs cull_queue (\<lambda>_. queue_ok tr) s"
proof (cases "\<not> score_changed s \<or> non_instrumented_mode s")
  case True
  then show ?thesis using assms by (auto simp: cull_queue_def wp_simps)
next
  case False
  then have "runs cull_queue (\<lambda>_. cull_result tr s) s"
    using cull_queue_runs [OF assms] by simp
  then show ?thesis by (rule wp_mono) (simp add: cull_result_def)
qed

lemma remeasure_ok:
  assumes "queue_ok tr s" and "q < length (queue_buf s)"
  shows "queue_ok tr (s\<lparr>queue_buf := (queue_buf s)[q := (queue_buf s ! q)\<lparr>q_len := l, was_fuzzed := w,
       fuzz_level := f, exec_us := us, tightness_novel := n, tightness_novel_cycle := c\<rparr>]\<rparr>)"
  by (rule queue_ok_kept [OF assms(1)])
    (use assms in \<open>auto simp: kept_def nth_list_update queue_ok_def\<close>)

lemma queue_step_ok: "queue_step tr s s' \<Longrightarrow> queue_ok tr s \<Longrightarrow> queue_ok tr s'"
proof (induction rule: queue_step.induct)
  case (add s mutators stat read_file t fn l det s')
  then show ?case using wp_result [OF add_to_queue_wp] by (auto simp: added_def)
next
  case (score q s have_trace s')
  then show ?case using wp_result [OF score_ok] by blast
next
  case (cull s s')
  then show ?case using wp_result [OF cull_ok] by blast
qed (simp_all add: remeasure_ok queue_ok_frame)

lemma queue_reach_ok: "queue_reach tr s \<Longrightarrow> queue_ok tr s"
  by (induction rule: queue_reach.induct) (auto intro: init_state_ok queue_step_ok)

lemma session_reach:
  assumes "queue_reach tr s" and "session tr ops s = Some (Inr ((), s'))"
  shows "queue_reach tr s'"
  using assms
proof (induction ops arbitrary: s)
  case Nil
  then show ?case by (simp add: session_def skip_def ret_def)
next
  case (Cons op ops)
  then obtain s1 where s1: "queue_do tr op s = Some (Inr ((), s1))" "session tr ops s1 = Some (Inr ((), s'))"
    by (auto simp: session_def seq_def bnd_def split: option.splits sum.splits)
  have "queue_step tr s s1"
  proof (cases op)
    case (Seed l)
    then show ?thesis
      using s1(1) by (auto simp: bnd_def get_def chk_def intro: queue_step.add split: if_splits)
  next
    case (Score q)
    then show ?thesis
      using s1(1) by (auto simp: bnd_def seq_def modify_def get_def chk_def intro: queue_step.score split: if_splits)
  qed (use s1(1) in \<open>simp add: queue_step.cull\<close>)
  then show ?case using Cons s1(2) queue_reach.step by blast
qed

lemma result_cases:
  assumes "case r of Some (Inr (_, s)) \<Rightarrow> P s | _ \<Rightarrow> False"
  obtains s where "r = Some (Inr ((), s))" and "P s"
proof (cases r)
  case (Some x)
  show ?thesis
  proof (cases x)
    case (Inr y)
    have y: "r = Some (Inr ((), snd y))" using Some Inr by (cases y) simp
    show ?thesis by (rule that [OF y]) (use assms y in simp)
  qed (use assms Some in simp)
qed (use assms in simp)

lemma session_example:
  assumes "case session tr ops (init_state 8 p True False nf) of Some (Inr (_, s)) \<Rightarrow> P s | _ \<Rightarrow> False"
    and "p = RARE \<longrightarrow> nf \<noteq> []"
  shows "\<exists>s. queue_reach tr s \<and> P s"
proof -
  have "queue_reach tr (init_state 8 p True False nf)" by (rule queue_reach.start) (use assms(2) in simp_all)
  then show ?thesis using assms(1) by (elim result_cases) (blast intro: session_reach)
qed

section \<open>Properties\<close>

text \<open>
  C12. The contest of \<open>update_bitmap_score\<close>. For an enabled entry whose trace is in the coverage map, the
  function returns without an invalid access. It takes exactly the map indices that its trace hits
  and that are free or held by an entry with neither a lower fuzz level rating nor a lower product of time
  and length (\<open>takes\<close>); all other indices keep their holder, nothing else in the queue changes but the
  reference counts and the compressed traces, and these stay consistent with the holders.
\<close>

theorem update_bitmap_score_contest:
  assumes "queue_ok tr s" and "q < length (queue_buf s)" and "\<not> disabled (queue_buf s ! q)"
    and "q_trace_bits s = tr q" and "length (tr q) = q_map_size s"
  shows "runs (update_bitmap_score q True)
    (\<lambda>_ s'. queue_ok tr s' \<and> same_queue s s' \<and>
       (\<forall>i < q_map_size s. top_rated s' ! i =
          (if tr q ! i \<noteq> 0 \<and> takes s (queue_buf s ! q) (top_rated s ! i) then Some q else top_rated s ! i))) s"
  using update_bitmap_score_runs [OF assms] by (simp add: scored_def)

lemma one_entry:
  "\<exists>s. queue_reach traces_rescore s \<and> length (queue_buf s) = 1 \<and> q_map_size s = 8 \<and> \<not> disabled (queue_buf s ! 0) \<and>
     top_rated s = replicate 8 None"
  by (rule session_example [where ops = "[Seed 20]" and p = EXPLORE and nf = "[]"]) (code_simp, simp)

theorem update_bitmap_score_contest_witness:
  "\<exists>s. queue_reach traces_rescore s \<and>
     runs (update_bitmap_score 0 True) (\<lambda>_ s'. top_rated s' ! 0 = Some 0 \<and> top_rated s' ! 1 = None)
       (s\<lparr>q_trace_bits := traces_rescore 0\<rparr>)"
proof -
  obtain s where s: "queue_reach traces_rescore s" "length (queue_buf s) = 1" "q_map_size s = 8"
      "\<not> disabled (queue_buf s ! 0)" "top_rated s = replicate 8 None"
    using one_entry by blast
  let ?s = "s\<lparr>q_trace_bits := traces_rescore 0\<rparr>"
  have "queue_ok traces_rescore ?s" by (rule queue_ok_frame(1) [OF queue_reach_ok [OF s(1)]])
  then have "runs (update_bitmap_score 0 True) (\<lambda>_ s'. top_rated s' ! 0 = Some 0 \<and> top_rated s' ! 1 = None) ?s"
    by (rule wp_mono [OF update_bitmap_score_contest]) (use s in \<open>auto simp: traces_rescore_def takes_def\<close>)
  then show ?thesis using s(1) by blast
qed

text \<open>
  C4. \<open>cull_queue\<close> implements a greedy cover. Run after a change of the scores, it returns without an invalid access
  and favors, besides the entries that are still novel by their comparison slack, exactly the enabled entries of
  the list \<open>chosen\<close>: going over the map indices in order, the holder of an index is taken if its compressed trace is kept
  and no entry taken before hits the index. So every entry taken has an index that none before it hits, every index
  whose holder keeps its trace is hit by an entry taken, and the counters and the smallest pending entry are those of
  the newly favored entries.
\<close>

theorem cull_queue_is_greedy:
  assumes "queue_ok tr s" and "score_changed s" and "\<not> non_instrumented_mode s"
  shows "runs cull_queue (\<lambda>_. cull_result tr s) s \<and> needed tr (q_map_size s) (top_rated s) (chosen tr s) \<and>
    (\<forall>i < q_map_size s. \<forall>w. top_rated s ! i = Some w \<and> trace_mini (queue_buf s ! w) \<noteq> None \<longrightarrow>
       (\<exists>q \<in> set (chosen tr s). tr q ! i \<noteq> 0))"
  using cull_queue_runs [OF assms] links_holder [OF queue_okD(1) [OF assms(1)]]
  by (auto simp: chosen_def needed_def [of _ _ _ "[]"] intro!: greedy_needed greedy_covers)

lemma two_entries:
  "\<exists>s. queue_reach traces_rescore s \<and> length (queue_buf s) = 2 \<and> score_changed s \<and> \<not> non_instrumented_mode s \<and>
     chosen traces_rescore s = [0, 1] \<and> list_all (\<lambda>e. \<not> disabled e \<and> trace_mini e \<noteq> None) (queue_buf s) \<and>
     top_rated s ! 1 = Some 1 \<and> q_map_size s = 8"
  by (rule session_example [where ops = "[Seed 20, Score 0, Seed 20, Score 1]" and p = FAST and nf = "[0]"]) (code_simp, simp)

theorem cull_queue_is_greedy_witness:
  "\<exists>s. queue_reach traces_rescore s \<and> chosen traces_rescore s = [0, 1] \<and> runs cull_queue (\<lambda>_. cull_result traces_rescore s) s"
proof -
  obtain s where "queue_reach traces_rescore s" "score_changed s" "\<not> non_instrumented_mode s" "chosen traces_rescore s = [0, 1]"
    using two_entries by blast
  then show ?thesis using cull_queue_is_greedy [OF queue_reach_ok] by blast
qed

text \<open>
  C13. The favored entries cover the map. If every holder of a map index is enabled and keeps its compressed
  trace, then after \<open>cull_queue\<close> every map index that has a holder is hit by the trace of a favored entry.
\<close>

theorem favored_entries_cover:
  assumes "queue_ok tr s" and "score_changed s" and "\<not> non_instrumented_mode s"
    and "\<forall>i < q_map_size s. \<forall>w. top_rated s ! i = Some w \<longrightarrow>
       trace_mini (queue_buf s ! w) \<noteq> None \<and> \<not> disabled (queue_buf s ! w)"
  shows "runs cull_queue (\<lambda>_ s'. \<forall>i < q_map_size s. top_rated s ! i \<noteq> None \<longrightarrow> favored_hits tr s' i \<noteq> []) s"
proof (rule wp_mono [OF cull_queue_runs [OF assms(1-3)]], intro allI impI)
  fix i s'
  assume s': "cull_result tr s s'" and i: "i < q_map_size s" and "top_rated s ! i \<noteq> None"
  then obtain w where w: "top_rated s ! i = Some w" by blast
  have links: "links_ok tr (q_map_size s) (top_rated s) (queue_buf s)" by (rule queue_okD(1) [OF assms(1)])
  obtain q where q: "q \<in> set (chosen tr s)" "tr q ! i \<noteq> 0"
    using greedy_covers [of i "[0..<q_map_size s]" "top_rated s" w "queue_buf s" tr "[]"]
      assms(4) i w links_holder [OF links i w] unfolding chosen_def by auto
  have "\<not> disabled (queue_buf s ! q)"
  proof -
    have "\<forall>i \<in> set [0..<q_map_size s]. \<forall>w. top_rated s ! i = Some w \<longrightarrow> \<not> disabled (queue_buf s ! w)"
      using assms(4) by simp
    from greedy_holders [OF this, of "[]"] show ?thesis using q(1) by (simp add: chosen_def)
  qed
  moreover have "q < length (queue_buf s)" using chosen_less [OF assms(1)] q(1) by auto
  ultimately have "q \<in> set (favored_hits tr s' i)"
    using s' q by (simp add: cull_result_def favored_hits_def)
  then show "favored_hits tr s' i \<noteq> []" by auto
qed

theorem favored_entries_cover_witness:
  "\<exists>s. queue_reach traces_rescore s \<and> top_rated s ! 1 = Some 1 \<and>
     runs cull_queue (\<lambda>_ s'. favored_hits traces_rescore s' 1 \<noteq> []) s"
proof -
  obtain s where s: "queue_reach traces_rescore s" "score_changed s" "\<not> non_instrumented_mode s"
      "list_all (\<lambda>e. \<not> disabled e \<and> trace_mini e \<noteq> None) (queue_buf s)" "top_rated s ! 1 = Some 1" "q_map_size s = 8"
    using two_entries by (elim exE conjE) (rule that)
  note ok = queue_reach_ok [OF s(1)]
  have "\<forall>i < q_map_size s. \<forall>w. top_rated s ! i = Some w \<longrightarrow>
       trace_mini (queue_buf s ! w) \<noteq> None \<and> \<not> disabled (queue_buf s ! w)"
    using links_holder [OF queue_okD(1) [OF ok]] s(4) unfolding list_all_length by blast
  from favored_entries_cover [OF ok s(2,3) this]
  have "runs cull_queue (\<lambda>_ s'. favored_hits traces_rescore s' 1 \<noteq> []) s"
    by (rule wp_mono) (use s(5,6) in auto)
  then show ?thesis using s(1,5) by blast
qed



text \<open>
  C16. The favored entries do not always cover the map. A state that the fuzzer reaches, right after \<open>cull_queue\<close>,
  has a map index with an enabled holder that no favored entry hits: \<open>mark_as_redundant\<close> has freed the
  compressed trace of the holder although the holder keeps the index, so later calls of \<open>cull_queue\<close> skip the index.
\<close>

theorem cull_queue_loses_index:
  "\<exists>s. queue_reach traces_redundant s \<and> \<not> score_changed s \<and> top_rated s ! 2 = Some 1 \<and>
     \<not> disabled (queue_buf s ! 1) \<and> traces_redundant 1 ! 2 = 1 \<and> favored_hits traces_redundant s 2 = []"
  by (rule session_example [where ops = "[Seed 20, Score 0, Seed 10, Score 1, Cull, Seed 15, Score 2, Cull]" and p = EXPLORE and nf = "[]"])
    (code_simp, simp)

text \<open>
  C17. The recalculation of the scores records wrong traces. From a state that the fuzzer reaches, a change of the schedule and
  \<open>recalculate_all_scores\<close>, with a target that repeats its traces, give entry 0 the trace of entry 1 as its compressed
  trace: \<open>update_bitmap_rescore\<close> compresses the coverage map of the last run, whatever the entry. The next \<open>cull_queue\<close>
  then favors no entry that hits map index 1, although its holder is enabled.
\<close>

theorem rescore_mixes_traces:
  "\<exists>s s' s''. queue_reach traces_rescore s \<and>
     recalculate_all_scores traces_rescore (s\<lparr>schedule := COE\<rparr>) = Some (Inr ((), s')) \<and>
     traces_rescore 0 ! 1 = 0 \<and> trace_mini (queue_buf s' ! 0) = Some [2] \<and>
     cull_queue s' = Some (Inr ((), s'')) \<and> top_rated s'' ! 1 = Some 1 \<and> \<not> disabled (queue_buf s'' ! 1) \<and>
     favored_hits traces_rescore s'' 1 = []"
proof -
  let ?P = "\<lambda>s. case recalculate_all_scores traces_rescore (s\<lparr>schedule := COE\<rparr>) of
       Some (Inr (_, s')) \<Rightarrow> traces_rescore 0 ! 1 = 0 \<and> trace_mini (queue_buf s' ! 0) = Some [2] \<and>
        (case cull_queue s' of
           Some (Inr (_, s'')) \<Rightarrow> top_rated s'' ! 1 = Some 1 \<and> \<not> disabled (queue_buf s'' ! 1) \<and>
             favored_hits traces_rescore s'' 1 = []
         | _ \<Rightarrow> False)
     | _ \<Rightarrow> False"
  have "\<exists>s. queue_reach traces_rescore s \<and> ?P s"
    by (rule session_example [where ops = "[Seed 20, Score 0, Seed 20, Score 1]" and p = FAST and nf = "[0]"]) (code_simp, simp)
  then obtain s where s: "queue_reach traces_rescore s" "?P s" by blast
  obtain s' where s': "recalculate_all_scores traces_rescore (s\<lparr>schedule := COE\<rparr>) = Some (Inr ((), s'))"
      "traces_rescore 0 ! 1 = 0" "trace_mini (queue_buf s' ! 0) = Some [2]"
      "case cull_queue s' of Some (Inr (_, s'')) \<Rightarrow> top_rated s'' ! 1 = Some 1 \<and> \<not> disabled (queue_buf s'' ! 1) \<and>
         favored_hits traces_rescore s'' 1 = [] | _ \<Rightarrow> False"
    using s(2) by (elim result_cases) blast
  obtain s'' where "cull_queue s' = Some (Inr ((), s''))" "top_rated s'' ! 1 = Some 1" "\<not> disabled (queue_buf s'' ! 1)"
      "favored_hits traces_rescore s'' 1 = []"
    using s'(4) by (elim result_cases) blast
  then show ?thesis using s(1) s'(1-3) by blast
qed

end
