(* ===== verification/Spec2Isabelle.thy ===== *)
theory Spec2Isabelle
  imports AFL_Havoc AFL_Coverage AFL_Alloc AFL_Tmin AFL_Hashmap AFL_Queue_Reach
begin

text \<open>
  A verification library for the core of AFL++.
\<close>

end
